(* ===== verification/Prelude.thy ===== *)
theory Prelude
  imports Main "HOL-Library.Word"
begin

text \<open>
  What every component shares: the machine integer types of the C++ code, the error values
  (an exception of the code, or undefined behaviour), byte memory with bounds-checked copies,
  the little-endian layout that \<open>reinterpret_cast\<close> and \<open>memcpy\<close> give the code's integers on
  the platforms it is built for, and generic facts on lists and maps.
\<close>

section \<open>Integers, bytes and errors\<close>

type_synonym u8 = "8 word"
type_synonym u16 = "16 word"
type_synonym u32 = "32 word"
type_synonym u64 = "64 word"
type_synonym bytes = "u8 list"

text \<open>
  \<open>Undefined\<close> is undefined behaviour of C++: an access outside the object, a null pointer or an
  invalid iterator that is dereferenced. The other values are the \<open>std::runtime_error\<close>s thrown.
\<close>

datatype error =
    Undefined
  | NullPage
  | PageOutOfBounds u32
  | BufferPoolFull
  | RecordTooLarge
  | OpenFailed
  | StatFailed
  | MmapFailed
  | ResizeFailed
  | MsyncFailed

type_synonym 'a result = "error + 'a"

named_theorems mem_simps "reads and writes of byte memory"
named_theorems codec_simps "decoding what was encoded"

section \<open>Byte memory\<close>

text \<open>\<open>memcpy(dst + off, src, |src|)\<close> and a read of \<open>n\<close> bytes at \<open>off\<close>.\<close>

definition mwrite :: "bytes \<Rightarrow> nat \<Rightarrow> bytes \<Rightarrow> bytes" where
  "mwrite m off src = take off m @ src @ drop (off + length src) m"

definition mread :: "bytes \<Rightarrow> nat \<Rightarrow> nat \<Rightarrow> bytes" where
  "mread m off n = take n (drop off m)"

definition memcpy :: "bytes \<Rightarrow> nat \<Rightarrow> bytes \<Rightarrow> bytes result" where
  "memcpy m off src = (if off + length src \<le> length m then Inr (mwrite m off src) else Inl Undefined)"

definition load :: "bytes \<Rightarrow> nat \<Rightarrow> nat \<Rightarrow> bytes result" where
  "load m off n = (if off + n \<le> length m then Inr (mread m off n) else Inl Undefined)"

definition bind_result :: "'a result \<Rightarrow> ('a \<Rightarrow> 'b result) \<Rightarrow> 'b result" where
  "bind_result r f = (case r of Inl e \<Rightarrow> Inl e | Inr x \<Rightarrow> f x)"

lemma bind_result_simps [simp]:
  "bind_result (Inl e) f = Inl e"
  "bind_result (Inr x) f = f x"
  by (simp_all add: bind_result_def)

lemma memcpy_ok [simp]: "off + length src \<le> length m \<Longrightarrow> memcpy m off src = Inr (mwrite m off src)"
  by (simp add: memcpy_def)

lemma load_ok [simp]: "off + n \<le> length m \<Longrightarrow> load m off n = Inr (mread m off n)"
  by (simp add: load_def)

lemma length_mwrite [simp, mem_simps]:
  "off + length src \<le> length m \<Longrightarrow> length (mwrite m off src) = length m"
  by (simp add: mwrite_def)

lemma length_mread [mem_simps]: "off + n \<le> length m \<Longrightarrow> length (mread m off n) = n"
  by (simp add: mread_def)

lemma mread_mwrite_same [simp, mem_simps]:
  "off \<le> length m \<Longrightarrow> n = length src \<Longrightarrow> mread (mwrite m off src) off n = src"
  by (simp add: mread_def mwrite_def)

lemma mread_mwrite_before [mem_simps]:
  "a + n \<le> off \<Longrightarrow> off \<le> length m \<Longrightarrow> mread (mwrite m off src) a n = mread m a n"
  by (simp add: mread_def mwrite_def take_drop min_def)

lemma mread_mwrite_after [mem_simps]:
  "off + length src \<le> a \<Longrightarrow> off + length src \<le> length m \<Longrightarrow>
   mread (mwrite m off src) a n = mread m a n"
  by (simp add: mread_def mwrite_def)

lemma mread_mread [mem_simps]:
  "b + k \<le> n \<Longrightarrow> mread (mread m a n) b k = mread m (a + b) k"
  by (simp add: mread_def drop_take min_def add.commute)

lemma mread_all [simp, mem_simps]: "n = length m \<Longrightarrow> mread m 0 n = m"
  by (simp add: mread_def)

lemma mwrite_mread_id:
  "off + n \<le> length m \<Longrightarrow> mwrite m off (mread m off n) = m"
  by (simp add: mwrite_def mread_def) (metis add.commute append_take_drop_id drop_drop)

lemma mread_append1 [mem_simps]: "a + n \<le> length xs \<Longrightarrow> mread (xs @ ys) a n = mread xs a n"
  by (simp add: mread_def)

lemma mread_append2 [mem_simps]:
  "length xs \<le> a \<Longrightarrow> mread (xs @ ys) a n = mread ys (a - length xs) n"
  by (simp add: mread_def)

lemma mread_replicate [mem_simps]:
  "a + n \<le> k \<Longrightarrow> mread (replicate k b) a n = replicate n b"
  by (simp add: mread_def)

section \<open>Little-endian integers\<close>

primrec le_bytes :: "nat \<Rightarrow> nat \<Rightarrow> bytes" where
  "le_bytes 0 x = []"
| "le_bytes (Suc n) x = word_of_nat x # le_bytes n (x div 256)"

primrec le_nat :: "bytes \<Rightarrow> nat" where
  "le_nat [] = 0"
| "le_nat (b # bs) = unat b + 256 * le_nat bs"

lemma unat_u8_lt: "unat (w :: u8) < 256"
  using unsigned_less [of w] by simp

lemma unat_u16_lt: "unat (w :: u16) < 65536"
  using unsigned_less [of w] by simp

lemma unat_u32_lt: "unat (w :: u32) < 4294967296"
  using unsigned_less [of w] by simp

lemma unat_u64_lt: "unat (w :: u64) < 18446744073709551616"
  using unsigned_less [of w] by simp

lemma length_le_bytes [simp]: "length (le_bytes n x) = n"
  by (induction n arbitrary: x) auto

lemma le_nat_le_bytes: "le_nat (le_bytes n x) = x mod 256 ^ n"
proof (induction n arbitrary: x)
  case 0
  then show ?case by simp
next
  case (Suc n)
  have "unat (word_of_nat x :: u8) = x mod 256"
    by (simp add: unat_of_nat)
  with Suc show ?case by (simp add: mod_mult2_eq)
qed

lemma le_nat_bound: "le_nat bs < 256 ^ length bs"
proof (induction bs)
  case Nil
  then show ?case by simp
next
  case (Cons b bs)
  have "unat b < 256" by (rule unat_u8_lt)
  with Cons show ?case by simp
qed

lemma le_bytes_le_nat: "le_bytes (length bs) (le_nat bs) = bs"
proof (induction bs)
  case Nil
  then show ?case by simp
next
  case (Cons b bs)
  have "unat b < 256" by (rule unat_u8_lt)
  then have "(unat b + 256 * le_nat bs) div 256 = le_nat bs" by simp
  moreover have "(word_of_nat (unat b + 256 * le_nat bs) :: u8) = b"
    using unat_u8_lt [of b] by (simp add: word_unat_eq_iff unat_of_nat del: of_nat_add of_nat_mult)
  ultimately show ?case using Cons by simp
qed

definition put_u16 :: "u16 \<Rightarrow> bytes" where "put_u16 w = le_bytes 2 (unat w)"
definition put_u32 :: "u32 \<Rightarrow> bytes" where "put_u32 w = le_bytes 4 (unat w)"
definition put_u64 :: "u64 \<Rightarrow> bytes" where "put_u64 w = le_bytes 8 (unat w)"

definition get_u16 :: "bytes \<Rightarrow> u16" where "get_u16 bs = word_of_nat (le_nat bs)"
definition get_u32 :: "bytes \<Rightarrow> u32" where "get_u32 bs = word_of_nat (le_nat bs)"
definition get_u64 :: "bytes \<Rightarrow> u64" where "get_u64 bs = word_of_nat (le_nat bs)"

lemma length_put [simp]:
  "length (put_u16 w) = 2" "length (put_u32 x) = 4" "length (put_u64 y) = 8"
  by (simp_all add: put_u16_def put_u32_def put_u64_def)

lemma get_put_u16 [simp, codec_simps]: "get_u16 (put_u16 w) = w"
  using unat_u16_lt [of w] by (simp add: get_u16_def put_u16_def le_nat_le_bytes)

lemma get_put_u32 [simp, codec_simps]: "get_u32 (put_u32 w) = w"
  using unat_u32_lt [of w] by (simp add: get_u32_def put_u32_def le_nat_le_bytes)

lemma get_put_u64 [simp, codec_simps]: "get_u64 (put_u64 w) = w"
  using unat_u64_lt [of w] by (simp add: get_u64_def put_u64_def le_nat_le_bytes)

lemma put_get_u16: "length bs = 2 \<Longrightarrow> put_u16 (get_u16 bs) = bs"
  using le_nat_bound [of bs] le_bytes_le_nat [of bs]
  by (simp add: get_u16_def put_u16_def unat_of_nat)

lemma put_get_u32: "length bs = 4 \<Longrightarrow> put_u32 (get_u32 bs) = bs"
  using le_nat_bound [of bs] le_bytes_le_nat [of bs]
  by (simp add: get_u32_def put_u32_def unat_of_nat)

lemma put_get_u64: "length bs = 8 \<Longrightarrow> put_u64 (get_u64 bs) = bs"
  using le_nat_bound [of bs] le_bytes_le_nat [of bs]
  by (simp add: get_u64_def put_u64_def unat_of_nat)

lemma put_u16_zero: "put_u16 0 = [0, 0]"
  by (simp add: put_u16_def numeral_2_eq_2)

lemma unat_of_nat_u16 [simp]: "n < 65536 \<Longrightarrow> unat (word_of_nat n :: u16) = n"
  by (simp add: unat_of_nat)

lemma unat_of_nat_u32 [simp]: "n < 4294967296 \<Longrightarrow> unat (word_of_nat n :: u32) = n"
  by (simp add: unat_of_nat)

lemma word_of_unatD: "unat w = n \<Longrightarrow> w = word_of_nat n"
  by (drule sym) simp

lemma map_le_add_right:
  assumes "m \<subseteq>\<^sub>m n"
  shows "m ++ x \<subseteq>\<^sub>m n ++ x"
  unfolding map_le_def
proof
  fix a assume "a \<in> dom (m ++ x)"
  then consider v where "x a = Some v" | "x a = None" "a \<in> dom m" by (cases "x a") auto
  then show "(m ++ x) a = (n ++ x) a"
    using assms by cases (auto simp: map_le_def map_add_def)
qed

lemma mwrite_mwrite_adjacent:
  assumes "off + length xs + length ys \<le> length m"
  shows "mwrite (mwrite m off xs) (off + length xs) ys = mwrite m off (xs @ ys)"
proof -
  have "xs = [] \<or> off < length m" using assms by (cases xs) auto
  with assms show ?thesis by (auto simp: mwrite_def min_def ac_simps)
qed

end
