(* ===== verification/Raw_Page.thy ===== *)
theory Raw_Page
  imports Prelude
begin

text \<open>
  \<open>src/src/storage/page.h\<close>: record ids, the 64-byte page header and the 4096-byte raw page. A raw
  page is its memory, a list of 4096 bytes; the header's fields are the integers at their offsets.
\<close>

section \<open>Record ids\<close>

datatype record_id = RecordID (rid_page_id: u32) (rid_slot_id: u16)

text \<open>Record ids ordered by page, then slot: the order in which a scan visits them.\<close>

instantiation record_id :: linorder
begin

definition less_eq_record_id :: "record_id \<Rightarrow> record_id \<Rightarrow> bool" where
  "less_eq_record_id a b \<longleftrightarrow> rid_page_id a < rid_page_id b \<or>
     (rid_page_id a = rid_page_id b \<and> rid_slot_id a \<le> rid_slot_id b)"

definition less_record_id :: "record_id \<Rightarrow> record_id \<Rightarrow> bool" where
  "less_record_id a b \<longleftrightarrow> rid_page_id a < rid_page_id b \<or>
     (rid_page_id a = rid_page_id b \<and> rid_slot_id a < rid_slot_id b)"

instance
  by standard
    (auto simp: less_eq_record_id_def less_record_id_def record_id.expand)

end

section \<open>The page header\<close>

definition PAGE_SIZE :: nat where "PAGE_SIZE = 4096"
definition PAGE_HEADER_SIZE :: nat where "PAGE_HEADER_SIZE = 64"
definition PAYLOAD_SIZE :: nat where "PAYLOAD_SIZE = PAGE_SIZE - PAGE_HEADER_SIZE"
definition PAGE_MAGIC :: u32 where "PAGE_MAGIC = 0x41514144"

lemmas page_consts [simp] = PAGE_SIZE_def PAGE_HEADER_SIZE_def PAYLOAD_SIZE_def

record page_header =
  hdr_magic :: u32
  hdr_page_id :: u32
  hdr_next_page_id :: u32
  hdr_prev_page_id :: u32
  hdr_tuple_count :: u16
  hdr_free_space_start :: u16
  hdr_free_space_end :: u16
  hdr_flags :: u16

text \<open>The header's fields at their offsets; bytes 24 to 63 are \<open>padding\<close> and the \<open>alignas(64)\<close> tail.\<close>

definition get_header :: "bytes \<Rightarrow> page_header" where
  "get_header p =
     \<lparr>hdr_magic = get_u32 (mread p 0 4),
      hdr_page_id = get_u32 (mread p 4 4),
      hdr_next_page_id = get_u32 (mread p 8 4),
      hdr_prev_page_id = get_u32 (mread p 12 4),
      hdr_tuple_count = get_u16 (mread p 16 2),
      hdr_free_space_start = get_u16 (mread p 18 2),
      hdr_free_space_end = get_u16 (mread p 20 2),
      hdr_flags = get_u16 (mread p 22 2)\<rparr>"

definition header_bytes :: "page_header \<Rightarrow> bytes" where
  "header_bytes h = put_u32 (hdr_magic h) @ put_u32 (hdr_page_id h) @ put_u32 (hdr_next_page_id h) @
     put_u32 (hdr_prev_page_id h) @ put_u16 (hdr_tuple_count h) @ put_u16 (hdr_free_space_start h) @
     put_u16 (hdr_free_space_end h) @ put_u16 (hdr_flags h)"

definition set_magic :: "u32 \<Rightarrow> bytes \<Rightarrow> bytes" where
  "set_magic v p = mwrite p 0 (put_u32 v)"

definition set_page_id :: "u32 \<Rightarrow> bytes \<Rightarrow> bytes" where
  "set_page_id v p = mwrite p 4 (put_u32 v)"

definition set_next_page_id :: "u32 \<Rightarrow> bytes \<Rightarrow> bytes" where
  "set_next_page_id v p = mwrite p 8 (put_u32 v)"

section \<open>Raw pages and the Page view\<close>

text \<open>\<open>RawPage::reset\<close>, also the constructor of \<open>RawPage\<close> and \<open>Page::reset\<close>.\<close>

definition raw_page_reset :: bytes where
  "raw_page_reset = set_magic PAGE_MAGIC (replicate PAGE_SIZE 0)"

text \<open>\<open>Page(RawPage*)\<close>: a view of the page behind a pointer, \<open>None\<close> the null pointer.\<close>

definition page_view :: "'p option \<Rightarrow> 'p result" where
  "page_view ptr = (case ptr of None \<Rightarrow> Inl NullPage | Some p \<Rightarrow> Inr p)"

definition page_get_id :: "bytes \<Rightarrow> u32" where
  "page_get_id p = hdr_page_id (get_header p)"

definition page_is_valid :: "bytes \<Rightarrow> bool" where
  "page_is_valid p \<longleftrightarrow> hdr_magic (get_header p) = PAGE_MAGIC"

definition page_get_payload :: "bytes \<Rightarrow> bytes" where
  "page_get_payload p = mread p PAGE_HEADER_SIZE PAYLOAD_SIZE"

lemma length_set_header [simp]:
  "8 \<le> length p \<Longrightarrow> length (set_magic v p) = length p"
  "8 \<le> length p \<Longrightarrow> length (set_page_id v p) = length p"
  "12 \<le> length p \<Longrightarrow> length (set_next_page_id v p) = length p"
  by (simp_all add: set_magic_def set_page_id_def set_next_page_id_def)

lemma length_raw_page_reset [simp]: "length raw_page_reset = 4096"
  by (simp add: raw_page_reset_def)

lemma get_header_set_magic:
  "64 \<le> length p \<Longrightarrow> get_header (set_magic v p) = (get_header p)\<lparr>hdr_magic := v\<rparr>"
  by (simp add: get_header_def set_magic_def mem_simps)

lemma get_header_set_page_id:
  "64 \<le> length p \<Longrightarrow> get_header (set_page_id v p) = (get_header p)\<lparr>hdr_page_id := v\<rparr>"
  by (simp add: get_header_def set_page_id_def mem_simps)

lemma get_header_set_next_page_id:
  "64 \<le> length p \<Longrightarrow> get_header (set_next_page_id v p) = (get_header p)\<lparr>hdr_next_page_id := v\<rparr>"
  by (simp add: get_header_def set_next_page_id_def mem_simps)

lemmas get_header_set [simp] =
  get_header_set_magic get_header_set_page_id get_header_set_next_page_id

lemma mread_set_header [mem_simps]:
  "12 \<le> a \<Longrightarrow> 12 \<le> length p \<Longrightarrow> mread (set_magic v p) a n = mread p a n"
  "12 \<le> a \<Longrightarrow> 12 \<le> length p \<Longrightarrow> mread (set_page_id v p) a n = mread p a n"
  "12 \<le> a \<Longrightarrow> 12 \<le> length p \<Longrightarrow> mread (set_next_page_id v p) a n = mread p a n"
  by (simp_all add: set_magic_def set_page_id_def set_next_page_id_def mem_simps)

lemma le_nat_replicate_0 [simp]: "le_nat (replicate n 0) = 0"
  by (induction n) auto

lemma get_zero [simp]: "get_u16 (replicate n 0) = 0" "get_u32 (replicate n 0) = 0"
  by (simp_all add: get_u16_def get_u32_def)

lemma raw_page_reset_header:
  "get_header raw_page_reset =
     \<lparr>hdr_magic = PAGE_MAGIC, hdr_page_id = 0, hdr_next_page_id = 0, hdr_prev_page_id = 0,
      hdr_tuple_count = 0, hdr_free_space_start = 0, hdr_free_space_end = 0, hdr_flags = 0\<rparr>"
  by (simp add: raw_page_reset_def) (simp add: get_header_def mem_simps)

lemma raw_page_reset_payload: "page_get_payload raw_page_reset = replicate 4032 0"
  by (simp add: page_get_payload_def raw_page_reset_def mem_simps)

lemma get_header_bytes:
  "get_header (header_bytes h @ rest) = page_header.truncate h"
  by (simp add: get_header_def header_bytes_def page_header.defs mread_append2 mread_append1)

section \<open>Pages of a file\<close>

text \<open>Page \<open>i\<close> of a file that consists of pages.\<close>

definition page_at :: "bytes \<Rightarrow> nat \<Rightarrow> bytes" where
  "page_at f i = mread f (PAGE_SIZE * i) PAGE_SIZE"

lemma length_page_at [simp]: "4096 * Suc i \<le> length f \<Longrightarrow> length (page_at f i) = 4096"
  by (simp add: page_at_def length_mread)

lemma page_at_append1: "4096 * Suc i \<le> length f \<Longrightarrow> page_at (f @ g) i = page_at f i"
  by (simp add: page_at_def mread_append1)

lemma page_at_append2: "length f = 4096 * i \<Longrightarrow> length g = 4096 \<Longrightarrow> page_at (f @ g) i = g"
  by (simp add: page_at_def mread_append2)

lemma page_at_mwrite:
  assumes "4096 * Suc i \<le> length f" and "length p = 4096"
  shows "page_at (mwrite f (4096 * i) p) j = (if j = i then p else page_at f j)"
proof -
  consider "j = i" | "Suc j \<le> i" | "Suc i \<le> j" by linarith
  then show ?thesis
  proof cases
    case 1
    with assms show ?thesis by (simp add: page_at_def)
  next
    case 2
    then have "4096 * j + 4096 \<le> 4096 * i" by simp
    with 2 assms show ?thesis by (simp add: page_at_def mread_mwrite_before)
  next
    case 3
    then have "4096 * i + 4096 \<le> 4096 * j" by simp
    with 3 assms show ?thesis by (simp add: page_at_def mread_mwrite_after)
  qed
qed

end
