(* ===== verification/Slotted_Page.thy ===== *)
theory Slotted_Page
  imports Raw_Page
begin

text \<open>
  The slotted page format that \<open>storage_writer.cpp\<close> writes and \<open>storage_reader.cpp\<close> reads (both files
  declare the same structs): a slot count at byte 64, slots of 4 bytes growing upwards from byte 66,
  records growing downwards from byte 4096. \<open>page_image p rs\<close> says that page \<open>p\<close> stores exactly the
  list of key-value records \<open>rs\<close>.
\<close>

type_synonym kv = "bytes \<times> bytes"

definition SLOT_SIZE :: nat where "SLOT_SIZE = 4"
definition RECORD_HEADER_SIZE :: nat where "RECORD_HEADER_SIZE = 5"

lemmas slot_consts [simp] = SLOT_SIZE_def RECORD_HEADER_SIZE_def

record slot_entry =
  slot_offset :: u16
  slot_length :: u16

record record_header =
  rh_meta :: u8
  rh_key_len :: u16
  rh_val_len :: u16

definition slot_bytes :: "slot_entry \<Rightarrow> bytes" where
  "slot_bytes s = put_u16 (slot_offset s) @ put_u16 (slot_length s)"

definition record_header_bytes :: "record_header \<Rightarrow> bytes" where
  "record_header_bytes h = rh_meta h # put_u16 (rh_key_len h) @ put_u16 (rh_val_len h)"

lemma length_slot_bytes [simp]: "length (slot_bytes s) = 4"
  by (simp add: slot_bytes_def)

lemma length_record_header_bytes [simp]: "length (record_header_bytes h) = 5"
  by (simp add: record_header_bytes_def)

section \<open>The layout of a page of records\<close>

definition rec_size :: "kv \<Rightarrow> nat" where
  "rec_size r = RECORD_HEADER_SIZE + length (fst r) + length (snd r)"

definition heap_size :: "kv list \<Rightarrow> nat" where
  "heap_size rs = sum_list (map rec_size rs)"

text \<open>Bytes taken by header, slot count, slots and records; a page has room for one more record.\<close>

definition used :: "kv list \<Rightarrow> nat" where
  "used rs = PAGE_HEADER_SIZE + 2 + SLOT_SIZE * length rs + heap_size rs"

definition has_room :: "kv list \<Rightarrow> kv \<Rightarrow> bool" where
  "has_room rs r \<longleftrightarrow> used rs + SLOT_SIZE + rec_size r \<le> PAGE_SIZE"

definition fits_page :: "kv \<Rightarrow> bool" where
  "fits_page r \<longleftrightarrow> has_room [] r"

definition rec_offset :: "kv list \<Rightarrow> nat \<Rightarrow> nat" where
  "rec_offset rs i = PAGE_SIZE - heap_size (take (Suc i) rs)"

definition slot_pos :: "nat \<Rightarrow> nat" where
  "slot_pos i = PAGE_HEADER_SIZE + 2 + SLOT_SIZE * i"

definition live_header :: "kv \<Rightarrow> record_header" where
  "live_header r = \<lparr>rh_meta = 0, rh_key_len = word_of_nat (length (fst r)),
     rh_val_len = word_of_nat (length (snd r))\<rparr>"

definition record_image :: "kv \<Rightarrow> bytes" where
  "record_image r = record_header_bytes (live_header r) @ fst r @ snd r"

definition slot_for :: "kv list \<Rightarrow> nat \<Rightarrow> slot_entry" where
  "slot_for rs i = \<lparr>slot_offset = word_of_nat (rec_offset rs i),
     slot_length = word_of_nat (rec_size (rs ! i))\<rparr>"

definition slotted :: "bytes \<Rightarrow> kv list \<Rightarrow> bool" where
  "slotted p rs \<longleftrightarrow> length p = PAGE_SIZE \<and> used rs \<le> PAGE_SIZE \<and>
     (\<forall>i < length rs.
        mread p (slot_pos i) SLOT_SIZE = slot_bytes (slot_for rs i) \<and>
        mread p (rec_offset rs i) (rec_size (rs ! i)) = record_image (rs ! i))"

definition page_image :: "bytes \<Rightarrow> kv list \<Rightarrow> bool" where
  "page_image p rs \<longleftrightarrow> slotted p rs \<and> mread p PAGE_HEADER_SIZE 2 = put_u16 (word_of_nat (length rs))"

lemma length_record_image [simp]: "length (record_image r) = rec_size r"
  by (simp add: record_image_def rec_size_def)

lemma heap_size_simps [simp]:
  "heap_size [] = 0" "heap_size (rs @ [r]) = heap_size rs + rec_size r"
  by (simp_all add: heap_size_def)

lemma heap_size_take_le: "heap_size (take i rs) \<le> heap_size rs"
  by (metis append_take_drop_id heap_size_def le_add1 map_append sum_list_append)

lemma heap_size_take_Suc:
  "i < length rs \<Longrightarrow> heap_size (take (Suc i) rs) = heap_size (take i rs) + rec_size (rs ! i)"
  by (simp add: take_Suc_conv_app_nth)

lemma rec_size_pos: "5 \<le> rec_size r"
  by (simp add: rec_size_def)

lemma rec_size_le_heap: "i < length rs \<Longrightarrow> rec_size (rs ! i) \<le> heap_size rs"
  by (simp add: heap_size_def member_le_sum_list)

lemma used_snoc: "used (rs @ [r]) = used rs + SLOT_SIZE + rec_size r"
  by (simp add: used_def)

lemma slottedD:
  assumes "slotted p rs"
  shows "length p = 4096" "used rs \<le> 4096" "66 + 4 * length rs + heap_size rs \<le> 4096"
    "heap_size rs \<le> 4096" "length rs < 65536"
  using assms by (auto simp: slotted_def used_def)

lemma rec_offset_bounds:
  assumes "used rs \<le> 4096" and "i < length rs"
  shows "4096 - heap_size rs \<le> rec_offset rs i"
    and "rec_offset rs i + rec_size (rs ! i) \<le> 4096"
    and "rec_offset rs i < 4096"
    and "slot_pos (length rs) \<le> rec_offset rs i"
proof -
  have le: "heap_size (take (Suc i) rs) \<le> heap_size rs" by (rule heap_size_take_le)
  have h: "heap_size rs \<le> 4096" using assms(1) by (simp add: used_def)
  have s: "heap_size (take (Suc i) rs) = heap_size (take i rs) + rec_size (rs ! i)"
    by (rule heap_size_take_Suc [OF assms(2)])
  show "4096 - heap_size rs \<le> rec_offset rs i" using le by (simp add: rec_offset_def)
  show "rec_offset rs i + rec_size (rs ! i) \<le> 4096" using s le h by (simp add: rec_offset_def)
  show "rec_offset rs i < 4096" using s rec_size_pos [of "rs ! i"] by (simp add: rec_offset_def)
  show "slot_pos (length rs) \<le> rec_offset rs i"
    using le assms(1) by (simp add: rec_offset_def slot_pos_def used_def)
qed

lemma rec_offset_append: "i < length rs \<Longrightarrow> rec_offset (rs @ [r]) i = rec_offset rs i"
  by (simp add: rec_offset_def)

lemma rec_offset_last: "rec_offset (rs @ [r]) (length rs) = 4096 - heap_size rs - rec_size r"
  by (simp add: rec_offset_def)

lemma slot_for_append: "i < length rs \<Longrightarrow> slot_for (rs @ [r]) i = slot_for rs i"
  by (simp add: slot_for_def rec_offset_append nth_append)

lemma slotted_empty: "length p = 4096 \<Longrightarrow> slotted p []"
  by (simp add: slotted_def used_def)

text \<open>Only the bytes from the first slot on matter to the records.\<close>

lemma slotted_mwrite_low:
  assumes "slotted p rs" and "off + length src \<le> 66"
  shows "slotted (mwrite p off src) rs"
proof -
  note d = slottedD [OF assms(1)]
  have "66 \<le> rec_offset rs i" if "i < length rs" for i
    using rec_offset_bounds(4) [OF d(2) that] by (simp add: slot_pos_def)
  moreover have "mread (mwrite p off src) a n = mread p a n" if "66 \<le> a" for a n
    using assms(2) that d(1) by (intro mread_mwrite_after) simp_all
  ultimately show ?thesis
    using assms d(1) by (simp add: slotted_def slot_pos_def)
qed

section \<open>Adding a record\<close>

text \<open>The record's bytes below the heap, the slot behind the last one.\<close>

definition add_record :: "bytes \<Rightarrow> kv list \<Rightarrow> kv \<Rightarrow> bytes" where
  "add_record p rs r =
     mwrite (mwrite p (4096 - heap_size rs - rec_size r) (record_image r))
       (slot_pos (length rs)) (slot_bytes (slot_for (rs @ [r]) (length rs)))"

lemma slotted_add_record:
  assumes s: "slotted p rs" and room: "has_room rs r"
  shows "slotted (add_record p rs r) (rs @ [r])"
proof -
  note d = slottedD [OF s]
  let ?off = "4096 - heap_size rs - rec_size r"
  let ?p1 = "mwrite p ?off (record_image r)"
  let ?p2 = "add_record p rs r"
  have sz: "66 + 4 * length rs + 4 + heap_size rs + rec_size r \<le> 4096"
    using room by (simp add: has_room_def used_def)
  have slot_end: "slot_pos (length rs) + 4 \<le> ?off" using sz by (simp add: slot_pos_def)
  have off_end: "?off + rec_size r = 4096 - heap_size rs" using sz by simp
  have len1: "length ?p1 = 4096" using d(1) sz by simp
  have len2: "length ?p2 = 4096"
    using len1 slot_end off_end by (simp add: add_record_def)
  have old: "mread ?p2 (slot_pos i) 4 = mread p (slot_pos i) 4 \<and>
      mread ?p2 (rec_offset rs i) (rec_size (rs ! i)) = mread p (rec_offset rs i) (rec_size (rs ! i))"
    if i: "i < length rs" for i
  proof
    have before: "slot_pos i + 4 \<le> slot_pos (length rs)" using i by (simp add: slot_pos_def)
    have "slot_pos (length rs) \<le> 4096" using slot_end by simp
    then show "mread ?p2 (slot_pos i) 4 = mread p (slot_pos i) 4"
      using before slot_end d(1) len1 by (simp add: add_record_def mread_mwrite_before)
    have "4096 - heap_size rs \<le> rec_offset rs i" using rec_offset_bounds(1) [OF d(2) i] .
    then show "mread ?p2 (rec_offset rs i) (rec_size (rs ! i)) = mread p (rec_offset rs i) (rec_size (rs ! i))"
      using slot_end off_end d(1) len1 by (simp add: add_record_def mread_mwrite_after)
  qed
  have new_slot: "mread ?p2 (slot_pos (length rs)) 4 = slot_bytes (slot_for (rs @ [r]) (length rs))"
    using slot_end len1 by (simp add: add_record_def)
  have "mread ?p2 ?off (rec_size r) = mread ?p1 ?off (rec_size r)"
    using slot_end off_end len1 unfolding add_record_def by (intro mread_mwrite_after) simp_all
  also have "\<dots> = record_image r" using d(1) by (intro mread_mwrite_same) simp_all
  finally have new_rec: "mread ?p2 ?off (rec_size r) = record_image r" .
  show ?thesis
    unfolding slotted_def
  proof (intro conjI allI impI)
    show "length ?p2 = PAGE_SIZE" using len2 by simp
    show "used (rs @ [r]) \<le> PAGE_SIZE" using room by (simp add: has_room_def used_snoc)
    fix i assume "i < length (rs @ [r])"
    then consider "i < length rs" | "i = length rs" by (auto simp: less_Suc_eq)
    then show "mread ?p2 (slot_pos i) SLOT_SIZE = slot_bytes (slot_for (rs @ [r]) i)"
      by cases (use old new_slot s in \<open>auto simp: slot_for_append slotted_def\<close>)
  next
    fix i assume "i < length (rs @ [r])"
    then consider "i < length rs" | "i = length rs" by (auto simp: less_Suc_eq)
    then show "mread ?p2 (rec_offset (rs @ [r]) i) (rec_size ((rs @ [r]) ! i)) = record_image ((rs @ [r]) ! i)"
      by cases (use old new_rec s in \<open>auto simp: rec_offset_append rec_offset_last nth_append slotted_def\<close>)
  qed
qed

lemma mread_add_record_low:
  assumes "slotted p rs" and "has_room rs r" and "a + n \<le> 66"
  shows "mread (add_record p rs r) a n = mread p a n"
proof -
  note d = slottedD [OF assms(1)]
  have sz: "66 + 4 * length rs + 4 + heap_size rs + rec_size r \<le> 4096"
    using assms(2) by (simp add: has_room_def used_def)
  then have "a + n \<le> slot_pos (length rs)" "a + n \<le> 4096 - heap_size rs - rec_size r"
    "slot_pos (length rs) \<le> 4096"
    using assms(3) by (simp_all add: slot_pos_def)
  then show ?thesis
    using d(1) sz by (simp add: add_record_def mread_mwrite_before)
qed

section \<open>Files of pages\<close>

text \<open>A file that consists of whole pages, each storing a list of records.\<close>

definition file_image :: "bytes \<Rightarrow> kv list list \<Rightarrow> bool" where
  "file_image f rss \<longleftrightarrow> length f = PAGE_SIZE * length rss \<and>
     (\<forall>i < length rss. page_image (page_at f i) (rss ! i))"

lemma file_image_Nil [simp]: "file_image [] []"
  by (simp add: file_image_def)

lemma file_image_snoc:
  assumes "file_image f rss" and "page_image p rs"
  shows "file_image (f @ p) (rss @ [rs])"
proof -
  have len: "length f = 4096 * length rss" "length p = 4096"
    using assms by (auto simp: file_image_def page_image_def slotted_def)
  have "page_image (page_at (f @ p) i) ((rss @ [rs]) ! i)" if "i < Suc (length rss)" for i
  proof (cases "i < length rss")
    case True
    then have "page_at (f @ p) i = page_at f i" using len by (intro page_at_append1) simp
    with True assms(1) show ?thesis by (simp add: file_image_def nth_append)
  next
    case False
    with that have "i = length rss" by simp
    with len assms(2) show ?thesis by (simp add: page_at_append2)
  qed
  with len show ?thesis by (simp add: file_image_def)
qed

end
