(* ===== verification/Storage_Writer.thy ===== *)
theory Storage_Writer
  imports Slotted_Page
begin

text \<open>
  \<open>src/src/storage/storage_writer.{h,cpp}\<close>: the append-only writer. It fills one slotted page in memory
  and appends it to the file when a record no longer fits, and when it is flushed or destroyed.
\<close>

section \<open>The writer\<close>

text \<open>
  \<open>sw_file\<close> is the content of the file behind \<open>out_stream_\<close>, to which every write is an append (the
  stream is opened with \<open>app\<close>, or on a file just truncated to nothing). Stream writes do not fail.
\<close>

record storage_writer =
  sw_file :: bytes
  current_page :: bytes
  current_page_id :: u32
  current_slot_count :: u16
  free_space_offset :: u16

text \<open>Subtraction of \<open>size_t\<close> values, which wraps.\<close>

definition size_sub :: "nat \<Rightarrow> nat \<Rightarrow> nat" where
  "size_sub a b = (a + 2 ^ 64 - b) mod 2 ^ 64"

definition reset_current_page :: "storage_writer \<Rightarrow> storage_writer" where
  "reset_current_page w =
     w\<lparr>current_page := set_next_page_id 0xFFFFFFFF (set_page_id (current_page_id w)
         (set_magic PAGE_MAGIC (replicate PAGE_SIZE 0))),
       current_slot_count := 0,
       free_space_offset := word_of_nat PAGE_SIZE\<rparr>"

definition write_page_to_disk :: "storage_writer \<Rightarrow> storage_writer" where
  "write_page_to_disk w =
     (let p = mwrite (current_page w) PAGE_HEADER_SIZE (put_u16 (current_slot_count w))
      in w\<lparr>current_page := p, sw_file := sw_file w @ p\<rparr>)"

definition writer_flush :: "storage_writer \<Rightarrow> storage_writer" where
  "writer_flush w = (if current_slot_count w > 0 \<or> current_page_id w = 0 then write_page_to_disk w else w)"

text \<open>
  \<open>try_insert_in_page\<close>: \<open>Inr None\<close> when it returns false, otherwise the slot id and the new state.
  The copies into the page are checked against its end.
\<close>

definition try_insert_in_page ::
  "bytes \<Rightarrow> bytes \<Rightarrow> storage_writer \<Rightarrow> (u16 \<times> storage_writer) option result" where
  "try_insert_in_page key val w =
     (let record_data_size = RECORD_HEADER_SIZE + length key + length val;
          slots_end_offset = 2 + unat (current_slot_count w) * SLOT_SIZE;
          required_space = SLOT_SIZE + record_data_size;
          free_space = size_sub (unat (free_space_offset w)) (PAGE_HEADER_SIZE + slots_end_offset)
      in if free_space < required_space then Inr None
         else
           let new_record_offset = (word_of_nat (size_sub (unat (free_space_offset w)) record_data_size) :: u16);
               rp = unat new_record_offset;
               header = \<lparr>rh_meta = 0, rh_key_len = word_of_nat (length key), rh_val_len = word_of_nat (length val)\<rparr>;
               slot = \<lparr>slot_offset = new_record_offset, slot_length = word_of_nat record_data_size\<rparr>
           in bind_result (memcpy (current_page w) rp (record_header_bytes header)) (\<lambda>p1.
              bind_result (memcpy p1 (rp + RECORD_HEADER_SIZE) key) (\<lambda>p2.
              bind_result (memcpy p2 (rp + RECORD_HEADER_SIZE + length key) val) (\<lambda>p3.
              bind_result (memcpy p3 (PAGE_HEADER_SIZE + slots_end_offset) (slot_bytes slot)) (\<lambda>p4.
                Inr (Some (current_slot_count w,
                  w\<lparr>current_page := p4,
                    current_slot_count := current_slot_count w + 1,
                    free_space_offset := new_record_offset\<rparr>)))))))"

text \<open>\<open>append\<close>: the record id or the exception, and the state it leaves either way.\<close>

definition writer_append :: "bytes \<Rightarrow> bytes \<Rightarrow> storage_writer \<Rightarrow> record_id result \<times> storage_writer" where
  "writer_append key val w =
     (case try_insert_in_page key val w of
        Inl e \<Rightarrow> (Inl e, w)
      | Inr (Some (slot_id, w')) \<Rightarrow> (Inr (RecordID (current_page_id w') slot_id), w')
      | Inr None \<Rightarrow>
          let w1 = write_page_to_disk w;
              w2 = reset_current_page (w1\<lparr>current_page_id := current_page_id w1 + 1\<rparr>)
          in case try_insert_in_page key val w2 of
               Inl e \<Rightarrow> (Inl e, w2)
             | Inr (Some (slot_id, w')) \<Rightarrow> (Inr (RecordID (current_page_id w') slot_id), w')
             | Inr None \<Rightarrow> (Inl RecordTooLarge, w2))"

text \<open>The constructor on the file at \<open>path\<close> (\<open>None\<close>: there is none), when the stream opens or not.\<close>

definition writer_open :: "bytes option \<Rightarrow> bool \<Rightarrow> storage_writer result" where
  "writer_open file opened =
     (let exists = (file \<noteq> None);
          file_size = (case file of None \<Rightarrow> 0 | Some f \<Rightarrow> length f);
          content = (if exists \<and> file_size > 0 then the file else []);
          page_id = (if exists \<and> file_size > 0 then word_of_nat (file_size div PAGE_SIZE) else 0)
      in if \<not> opened then Inl OpenFailed
         else Inr (reset_current_page
           \<lparr>sw_file = content, current_page = raw_page_reset, current_page_id = page_id,
            current_slot_count = 0, free_space_offset = 0\<rparr>))"

text \<open>The destructor flushes and closes: the file it leaves.\<close>

definition writer_close :: "storage_writer \<Rightarrow> bytes" where
  "writer_close w = sw_file (writer_flush w)"

section \<open>Invariant\<close>

text \<open>
  \<open>writer_ok w rs\<close>: the page in memory holds the records \<open>rs\<close> and the counters agree with it.
  \<open>log_ok w rss rs\<close>: moreover the file consists of the pages \<open>rss\<close> and the page id is the next one.
\<close>

definition writer_ok :: "storage_writer \<Rightarrow> kv list \<Rightarrow> bool" where
  "writer_ok w rs \<longleftrightarrow> slotted (current_page w) rs \<and> unat (current_slot_count w) = length rs \<and>
     unat (free_space_offset w) = PAGE_SIZE - heap_size rs \<and>
     get_header (current_page w) =
       \<lparr>hdr_magic = PAGE_MAGIC, hdr_page_id = current_page_id w, hdr_next_page_id = 0xFFFFFFFF,
        hdr_prev_page_id = 0, hdr_tuple_count = 0, hdr_free_space_start = 0, hdr_free_space_end = 0,
        hdr_flags = 0\<rparr>"

definition log_ok :: "storage_writer \<Rightarrow> kv list list \<Rightarrow> kv list \<Rightarrow> bool" where
  "log_ok w rss rs \<longleftrightarrow> writer_ok w rs \<and> file_image (sw_file w) rss \<and>
     unat (current_page_id w) = length rss"

lemma size_sub_eq: "b \<le> a \<Longrightarrow> a < 2 ^ 64 \<Longrightarrow> size_sub a b = a - b"
proof -
  assume "b \<le> a" "a < 2 ^ 64"
  then have "a + 2 ^ 64 - b = (a - b) + 2 ^ 64" "a - b < 2 ^ 64" by simp_all
  then show ?thesis unfolding size_sub_def by (simp only: mod_add_self2 mod_less)
qed

lemma get_header_cong:
  assumes "\<And>a n. a + n \<le> 24 \<Longrightarrow> mread p a n = mread q a n"
  shows "get_header p = get_header q"
  by (simp add: get_header_def assms)

lemma writer_ok_reset: "writer_ok (reset_current_page w) []"
proof -
  let ?z = "replicate 4096 0 :: bytes"
  have "get_header ?z = \<lparr>hdr_magic = 0, hdr_page_id = 0, hdr_next_page_id = 0, hdr_prev_page_id = 0,
      hdr_tuple_count = 0, hdr_free_space_start = 0, hdr_free_space_end = 0, hdr_flags = 0\<rparr>"
    by (simp add: get_header_def mread_replicate)
  then show ?thesis
    by (simp add: writer_ok_def reset_current_page_def slotted_empty)
qed

text \<open>Writing the four parts of a record one after the other is writing its image.\<close>

lemma try_insert_fits:
  assumes ok: "writer_ok w rs" and room: "has_room rs (key, val)"
  shows "\<exists>w'. try_insert_in_page key val w = Inr (Some (word_of_nat (length rs), w')) \<and>
    writer_ok w' (rs @ [(key, val)]) \<and> sw_file w' = sw_file w \<and> current_page_id w' = current_page_id w"
proof -
  let ?r = "(key, val)"
  let ?p = "current_page w"
  have s: "slotted ?p rs" and cnt: "unat (current_slot_count w) = length rs"
    and fso: "unat (free_space_offset w) = 4096 - heap_size rs"
    using ok by (simp_all add: writer_ok_def)
  note d = slottedD [OF s]
  have sz: "66 + 4 * length rs + 4 + heap_size rs + rec_size ?r \<le> 4096"
    using room by (simp add: has_room_def used_def)
  have rs_eq: "5 + length key + length val = rec_size ?r" by (simp add: rec_size_def)
  define off where "off = 4096 - heap_size rs - rec_size ?r"
  have off: "off < 65536" "off + rec_size ?r \<le> 4096" using sz by (simp_all add: off_def)
  have sub1: "size_sub (unat (free_space_offset w)) (64 + (2 + length rs * 4)) =
      4096 - heap_size rs - (66 + 4 * length rs)"
    using sz by (simp add: size_sub_eq fso)
  have sub2: "size_sub (unat (free_space_offset w)) (rec_size ?r) = off"
    using sz by (simp add: size_sub_eq fso off_def)
  have slot: "\<lparr>slot_offset = word_of_nat off, slot_length = word_of_nat (rec_size ?r)\<rparr> =
      slot_for (rs @ [?r]) (length rs)"
    by (simp add: slot_for_def rec_offset_last off_def)
  have image: "mwrite (mwrite (mwrite ?p off (record_header_bytes (live_header ?r))) (off + 5) key)
      (off + 5 + length key) val = mwrite ?p off (record_image ?r)"
    using mwrite_mwrite_adjacent [of off "record_header_bytes (live_header ?r)" key ?p]
      mwrite_mwrite_adjacent [of off "record_header_bytes (live_header ?r) @ key" val ?p] d(1) off(2) rs_eq
    by (simp add: record_image_def algebra_simps)
  let ?w' = "w\<lparr>current_page := add_record ?p rs ?r, current_slot_count := current_slot_count w + 1,
      free_space_offset := word_of_nat off\<rparr>"
  have added: "mwrite (mwrite ?p off (record_image ?r)) (66 + length rs * 4) (slot_bytes (slot_for (rs @ [?r]) (length rs))) =
      add_record ?p rs ?r"
    by (simp add: add_record_def off_def slot_pos_def mult.commute)
  have "try_insert_in_page key val w = Inr (Some (current_slot_count w, ?w'))"
    unfolding try_insert_in_page_def Let_def slot_consts page_consts cnt rs_eq sub1 sub2 slot
      live_header_def [of ?r, simplified, symmetric]
    using sz off d(1) rs_eq image added by (simp add: add.assoc)
  moreover have "writer_ok ?w' (rs @ [?r])"
  proof -
    have "get_header (add_record ?p rs ?r) = get_header ?p"
      by (rule get_header_cong) (use mread_add_record_low [OF s room] in auto)
    moreover have "unat (current_slot_count w + 1) = Suc (length rs)"
      using cnt sz by (simp add: unat_word_ariths)
    ultimately show ?thesis
      using ok slotted_add_record [OF s room] off by (simp add: writer_ok_def off_def)
  qed
  moreover have "current_slot_count w = word_of_nat (length rs)"
    by (simp add: cnt [symmetric])
  ultimately show ?thesis by simp
qed

lemma try_insert_full:
  assumes ok: "writer_ok w rs" and full: "\<not> has_room rs (key, val)"
  shows "try_insert_in_page key val w = Inr None"
proof -
  have s: "slotted (current_page w) rs" and cnt: "unat (current_slot_count w) = length rs"
    and fso: "unat (free_space_offset w) = 4096 - heap_size rs"
    using ok by (simp_all add: writer_ok_def)
  note d = slottedD [OF s]
  have "size_sub (unat (free_space_offset w)) (64 + (2 + length rs * 4)) = 4096 - heap_size rs - (66 + 4 * length rs)"
    using d(3) by (simp add: size_sub_eq fso)
  moreover have "4096 - heap_size rs - (66 + 4 * length rs) < 4 + (5 + length key + length val)"
    using full d(3) by (simp add: has_room_def used_def rec_size_def)
  ultimately show ?thesis by (simp add: try_insert_in_page_def Let_def cnt)
qed

lemma write_page_image:
  assumes "writer_ok w rs"
  shows "page_image (current_page (write_page_to_disk w)) rs"
    and "writer_ok (write_page_to_disk w) rs"
    and "sw_file (write_page_to_disk w) = sw_file w @ current_page (write_page_to_disk w)"
    and "current_page_id (write_page_to_disk w) = current_page_id w"
proof -
  have s: "slotted (current_page w) rs" and cnt: "current_slot_count w = word_of_nat (length rs)"
    using assms by (simp_all add: writer_ok_def word_of_unatD)
  let ?p = "mwrite (current_page w) 64 (put_u16 (current_slot_count w))"
  have "slotted ?p rs" using s by (rule slotted_mwrite_low) simp
  moreover have "mread ?p 64 2 = put_u16 (word_of_nat (length rs))"
    using slottedD(1) [OF s] by (simp add: cnt)
  ultimately show "page_image (current_page (write_page_to_disk w)) rs"
    by (simp add: page_image_def write_page_to_disk_def Let_def)
  have "get_header ?p = get_header (current_page w)"
    using slottedD(1) [OF s] by (intro get_header_cong) (simp add: mread_mwrite_before)
  with assms \<open>slotted ?p rs\<close> show "writer_ok (write_page_to_disk w) rs"
    by (simp add: writer_ok_def write_page_to_disk_def Let_def)
qed (simp_all add: write_page_to_disk_def Let_def)

section \<open>Appending to the log of records\<close>

text \<open>Where a record goes: on the page in memory when it has room, on a new page otherwise.\<close>

definition place :: "kv \<Rightarrow> kv list list \<times> kv list \<Rightarrow> kv list list \<times> kv list" where
  "place r log = (if has_room (snd log) r then (fst log, snd log @ [r]) else (fst log @ [snd log], [r]))"

definition rid_of_last :: "kv list list \<times> kv list \<Rightarrow> record_id" where
  "rid_of_last log = RecordID (word_of_nat (length (fst log))) (word_of_nat (length (snd log) - 1))"

lemma log_ok_new_page:
  assumes ok: "log_ok w rss rs" and few: "Suc (length rss) < 4294967296"
  defines "w1 \<equiv> write_page_to_disk w"
  shows "log_ok (reset_current_page (w1\<lparr>current_page_id := current_page_id w1 + 1\<rparr>)) (rss @ [rs]) []"
proof -
  have w: "writer_ok w rs" using ok by (simp add: log_ok_def)
  have "file_image (sw_file w1) (rss @ [rs])"
    unfolding w1_def write_page_image(3) [OF w]
    using ok write_page_image(1) [OF w] by (intro file_image_snoc) (simp_all add: log_ok_def)
  moreover have "unat (current_page_id w1 + 1) = Suc (length rss)"
    using ok few write_page_image(4) [OF w] by (simp add: log_ok_def w1_def unat_word_ariths)
  ultimately show ?thesis
    using writer_ok_reset by (simp add: log_ok_def) (simp add: reset_current_page_def)
qed

lemma writer_append_ok:
  assumes ok: "log_ok w rss rs" and fits: "fits_page (key, val)" and few: "Suc (length rss) < 4294967296"
  shows "\<exists>w'. writer_append key val w = (Inr (rid_of_last (place (key, val) (rss, rs))), w') \<and>
    log_ok w' (fst (place (key, val) (rss, rs))) (snd (place (key, val) (rss, rs)))"
proof (cases "has_room rs (key, val)")
  case True
  have w: "writer_ok w rs" using ok by (simp add: log_ok_def)
  have id: "current_page_id w = word_of_nat (length rss)" using ok by (simp add: log_ok_def word_of_unatD)
  obtain w' where w': "try_insert_in_page key val w = Inr (Some (word_of_nat (length rs), w'))"
    "writer_ok w' (rs @ [(key, val)])" "sw_file w' = sw_file w" "current_page_id w' = current_page_id w"
    using try_insert_fits [OF w True] by blast
  then show ?thesis
    using ok True id by (simp add: writer_append_def place_def rid_of_last_def log_ok_def)
next
  case False
  have w: "writer_ok w rs" using ok by (simp add: log_ok_def)
  let ?w1 = "write_page_to_disk w"
  let ?w2 = "reset_current_page (?w1\<lparr>current_page_id := current_page_id ?w1 + 1\<rparr>)"
  have ok2: "log_ok ?w2 (rss @ [rs]) []" by (rule log_ok_new_page [OF ok few])
  then have w2: "writer_ok ?w2 []" and id: "current_page_id ?w2 = word_of_nat (Suc (length rss))"
    using word_of_unatD [of "current_page_id ?w2"] by (simp_all add: log_ok_def)
  obtain w' where w': "try_insert_in_page key val ?w2 = Inr (Some (word_of_nat 0, w'))"
    "writer_ok w' ([] @ [(key, val)])" "sw_file w' = sw_file ?w2" "current_page_id w' = current_page_id ?w2"
    using try_insert_fits [OF w2] fits by (auto simp: fits_page_def)
  then show ?thesis
    using ok2 False id by (simp add: writer_append_def try_insert_full [OF w False] Let_def place_def
        rid_of_last_def log_ok_def)
qed

lemma writer_append_too_large:
  assumes ok: "log_ok w rss rs" and large: "\<not> fits_page (key, val)" and few: "Suc (length rss) < 4294967296"
  shows "\<exists>w'. writer_append key val w = (Inl RecordTooLarge, w') \<and> log_ok w' (rss @ [rs]) []"
proof -
  have w: "writer_ok w rs" using ok by (simp add: log_ok_def)
  have "used [] \<le> used rs" by (simp add: used_def)
  then have full: "\<not> has_room rs (key, val)" "\<not> has_room [] (key, val)"
    using large by (simp_all add: fits_page_def has_room_def)
  let ?w1 = "write_page_to_disk w"
  let ?w2 = "reset_current_page (?w1\<lparr>current_page_id := current_page_id ?w1 + 1\<rparr>)"
  have ok2: "log_ok ?w2 (rss @ [rs]) []" by (rule log_ok_new_page [OF ok few])
  then have "try_insert_in_page key val ?w2 = Inr None"
    using full(2) by (intro try_insert_full) (auto simp: log_ok_def)
  then show ?thesis
    using ok2 try_insert_full [OF w full(1)] by (simp add: writer_append_def Let_def)
qed

lemma log_ok_open:
  assumes "file_image f rss" and "length rss < 4294967296"
  shows "\<exists>w. writer_open (Some f) True = Inr w \<and> log_ok w rss []"
proof -
  have len: "length f = 4096 * length rss" using assms(1) by (simp add: file_image_def)
  have "f = [] \<Longrightarrow> rss = []" using len by simp
  then show ?thesis
    using assms len writer_ok_reset
    by (auto simp: writer_open_def log_ok_def Let_def) (simp_all add: reset_current_page_def)
qed

lemma log_ok_open_new: "\<exists>w. writer_open None True = Inr w \<and> log_ok w [] []"
  using writer_ok_reset by (simp add: writer_open_def log_ok_def Let_def) (simp add: reset_current_page_def)

lemma writer_close_image:
  assumes ok: "log_ok w rss rs"
  shows "file_image (writer_close w) (if rs \<noteq> [] \<or> rss = [] then rss @ [rs] else rss)"
proof -
  have w: "writer_ok w rs" using ok by (simp add: log_ok_def)
  have "current_slot_count w > 0 \<longleftrightarrow> rs \<noteq> []"
    using w by (auto simp: writer_ok_def word_gt_0 unat_eq_0 [symmetric])
  moreover have "current_page_id w = 0 \<longleftrightarrow> rss = []"
    using ok by (auto simp: log_ok_def unat_eq_0 [symmetric])
  moreover have "file_image (sw_file (write_page_to_disk w)) (rss @ [rs])"
    unfolding write_page_image(3) [OF w]
    using ok write_page_image(1) [OF w] by (intro file_image_snoc) (simp_all add: log_ok_def)
  ultimately show ?thesis
    using ok by (simp add: writer_close_def writer_flush_def log_ok_def)
qed

end
