(* ===== verification/Mapped_File.thy ===== *)
theory Mapped_File
  imports Raw_Page
begin

text \<open>
  \<open>src/src/storage/mapped_file.{h,cpp}\<close>: the file that the storage engine maps into memory. The
  operating system is a record of the files' contents and the open descriptors; the mapping is
  \<open>MAP_SHARED\<close>, so its bytes are the bytes of the file. Whether a system call succeeds is an argument.
\<close>

section \<open>The operating system\<close>

record os =
  os_files :: "string \<rightharpoonup> bytes"
  os_fds :: "int \<rightharpoonup> string"

definition os_content :: "os \<Rightarrow> string \<Rightarrow> bytes" where
  "os_content sys path = (case os_files sys path of None \<Rightarrow> [] | Some f \<Rightarrow> f)"

definition os_write :: "string \<Rightarrow> bytes \<Rightarrow> os \<Rightarrow> os" where
  "os_write path f sys = sys\<lparr>os_files := (os_files sys)(path \<mapsto> f)\<rparr>"

text \<open>\<open>close\<close> of a descriptor that is not open (\<open>-1\<close> is none) changes nothing.\<close>

definition os_close :: "int \<Rightarrow> os \<Rightarrow> os" where
  "os_close fd sys = sys\<lparr>os_fds := (os_fds sys)(fd := None)\<rparr>"

text \<open>\<open>std::filesystem::remove\<close>.\<close>

definition os_remove :: "string \<Rightarrow> os \<Rightarrow> os" where
  "os_remove path sys = sys\<lparr>os_files := (os_files sys)(path := None)\<rparr>"

lemma os_remove_files [simp]: "os_files (os_remove path sys) = (os_files sys)(path := None)"
  by (simp add: os_remove_def)

lemma os_content_remove [simp]: "os_content (os_remove path sys) p = (if p = path then [] else os_content sys p)"
  by (simp add: os_content_def)

text \<open>What \<open>ftruncate\<close> leaves of a file: cut, or extended with zeros.\<close>

definition resize :: "nat \<Rightarrow> bytes \<Rightarrow> bytes" where
  "resize n f = take n f @ replicate (n - length f) 0"

text \<open>A system without files.\<close>

definition no_files :: os where
  "no_files = \<lparr>os_files = Map.empty, os_fds = Map.empty\<rparr>"

section \<open>The class\<close>

text \<open>\<open>mf_data\<close> is \<open>None\<close> for a null \<open>data_\<close>, otherwise the length of the mapping.\<close>

record mapped_file =
  mf_path :: string
  mf_fd :: int
  mf_data :: "nat option"
  mf_file_size :: nat
  mf_page_count :: u32

definition map_memory :: "bool \<Rightarrow> mapped_file \<Rightarrow> unit result \<times> mapped_file" where
  "map_memory mmap_ok mf =
     (if mf_file_size mf = 0 then (Inr (), mf)
      else if mmap_ok then (Inr (), mf\<lparr>mf_data := Some (mf_file_size mf)\<rparr>)
      else (Inl MmapFailed, mf\<lparr>mf_data := None\<rparr>))"

definition unmap_memory :: "mapped_file \<Rightarrow> mapped_file" where
  "unmap_memory mf = (if mf_data mf \<noteq> None then mf\<lparr>mf_data := None\<rparr> else mf)"

text \<open>
  The constructor: \<open>fd\<close> is what \<open>open(O_RDWR | O_CREAT)\<close> returns. An exception leaves the
  constructor without running the destructor.
\<close>

definition mf_new :: "string \<Rightarrow> int \<Rightarrow> bool \<Rightarrow> bool \<Rightarrow> os \<Rightarrow> mapped_file result \<times> os" where
  "mf_new path fd stat_ok mmap_ok sys =
     (if fd = -1 then (Inl OpenFailed, sys)
      else
        let sys1 = (os_write path (os_content sys path) sys)\<lparr>os_fds := (os_fds sys)(fd \<mapsto> path)\<rparr>
        in if \<not> stat_ok then (Inl StatFailed, os_close fd sys1)
           else
             let size = length (os_content sys1 path);
                 mf = \<lparr>mf_path = path, mf_fd = fd, mf_data = None, mf_file_size = size,
                       mf_page_count = word_of_nat (size div PAGE_SIZE)\<rparr>
             in if size > 0 then
                  (case map_memory mmap_ok mf of
                     (Inl e, _) \<Rightarrow> (Inl e, sys1)
                   | (Inr _, mf') \<Rightarrow> (Inr mf', sys1))
                else (Inr mf, sys1))"

definition mf_destroy :: "mapped_file \<Rightarrow> os \<Rightarrow> os" where
  "mf_destroy mf sys = (if mf_fd mf \<noteq> -1 then os_close (mf_fd mf) sys else sys)"

text \<open>What a moved-from object holds; its path is unspecified (kept here).\<close>

definition mf_moved_from :: "mapped_file \<Rightarrow> mapped_file" where
  "mf_moved_from mf = mf\<lparr>mf_fd := -1, mf_data := None, mf_file_size := 0, mf_page_count := 0\<rparr>"

text \<open>The move constructor and the move assignment between two objects: (this, other).\<close>

definition mf_move_construct :: "mapped_file \<Rightarrow> mapped_file \<times> mapped_file" where
  "mf_move_construct other = (other, mf_moved_from other)"

definition mf_move_assign :: "mapped_file \<Rightarrow> mapped_file \<Rightarrow> os \<Rightarrow> mapped_file \<times> mapped_file \<times> os" where
  "mf_move_assign self other sys =
     (let this1 = unmap_memory self;
          sys1 = (if mf_fd this1 = -1 then os_close (mf_fd this1) sys else sys)
      in (other, mf_moved_from other, sys1))"

text \<open>
  \<open>get_page\<close>: a pointer, given by whether \<open>data_\<close> is its base and by its offset. The product
  \<open>page_id * PAGE_SIZE\<close> is one of two \<open>uint32_t\<close>, so the offset wraps at 4 GiB.
\<close>

type_synonym raw_ptr = "bool \<times> nat"

definition mf_get_page :: "mapped_file \<Rightarrow> u32 \<Rightarrow> raw_ptr" where
  "mf_get_page mf pid = (mf_data mf \<noteq> None, unat (pid * word_of_nat PAGE_SIZE))"

definition is_null :: "raw_ptr \<Rightarrow> bool" where
  "is_null p \<longleftrightarrow> p = (False, 0)"

text \<open>\<open>memcpy\<close> of a page out of and into the mapping, which must hold all of it.\<close>

definition in_mapping :: "mapped_file \<Rightarrow> raw_ptr \<Rightarrow> bool" where
  "in_mapping mf p \<longleftrightarrow> fst p \<and> (case mf_data mf of None \<Rightarrow> False | Some len \<Rightarrow> snd p + PAGE_SIZE \<le> len)"

definition mf_load :: "mapped_file \<Rightarrow> os \<Rightarrow> raw_ptr \<Rightarrow> bytes result" where
  "mf_load mf sys p =
     (if in_mapping mf p then load (os_content sys (mf_path mf)) (snd p) PAGE_SIZE else Inl Undefined)"

definition mf_store :: "mapped_file \<Rightarrow> os \<Rightarrow> raw_ptr \<Rightarrow> bytes \<Rightarrow> os result" where
  "mf_store mf sys p src =
     (if in_mapping mf p then
        bind_result (memcpy (os_content sys (mf_path mf)) (snd p) src)
          (\<lambda>f. Inr (os_write (mf_path mf) f sys))
      else Inl Undefined)"

definition mf_grow_file ::
  "u32 \<Rightarrow> bool \<Rightarrow> bool \<Rightarrow> mapped_file \<Rightarrow> os \<Rightarrow> unit result \<times> mapped_file \<times> os" where
  "mf_grow_file new_page_count truncate_ok mmap_ok mf sys =
     (if new_page_count \<le> mf_page_count mf then (Inr (), mf, sys)
      else
        let new_size = unat (new_page_count * word_of_nat PAGE_SIZE);
            mf1 = (if mf_data mf \<noteq> None then unmap_memory mf else mf)
        in if \<not> truncate_ok then (Inl ResizeFailed, mf1, sys)
           else
             let sys1 = os_write (mf_path mf1) (resize new_size (os_content sys (mf_path mf1))) sys;
                 mf2 = mf1\<lparr>mf_file_size := new_size, mf_page_count := new_page_count\<rparr>;
                 (r, mf3) = map_memory mmap_ok mf2
             in (r, mf3, sys1))"

definition mf_flush :: "bool \<Rightarrow> mapped_file \<Rightarrow> unit result" where
  "mf_flush msync_ok mf = (if mf_data mf \<noteq> None \<and> \<not> msync_ok then Inl MsyncFailed else Inr ())"

definition mf_get_page_count :: "mapped_file \<Rightarrow> u32" where
  "mf_get_page_count mf = mf_page_count mf"

definition mf_get_size :: "mapped_file \<Rightarrow> nat" where
  "mf_get_size mf = mf_file_size mf"

section \<open>Well-formed mapped files\<close>

text \<open>
  The file may have grown behind the mapping (the storage writer appends to it); it has fewer than
  \<open>2\<^sup>2\<^sup>0\<close> pages as far as it is mapped.
\<close>

definition mf_ok :: "mapped_file \<Rightarrow> os \<Rightarrow> bool" where
  "mf_ok mf sys \<longleftrightarrow> mf_fd mf \<noteq> -1 \<and> os_fds sys (mf_fd mf) = Some (mf_path mf) \<and>
     mf_file_size mf \<le> length (os_content sys (mf_path mf)) \<and>
     mf_data mf = (if mf_file_size mf = 0 then None else Some (mf_file_size mf)) \<and>
     unat (mf_page_count mf) = mf_file_size mf div PAGE_SIZE \<and> unat (mf_page_count mf) < 2 ^ 20"

lemma os_content_write [simp]:
  "os_content (os_write p f sys) q = (if p = q then f else os_content sys q)"
  by (simp add: os_content_def os_write_def)

lemma os_fds_write [simp]: "os_fds (os_write p f sys) = os_fds sys"
  by (simp add: os_write_def)

lemma os_content_fds [simp]: "os_content (sys\<lparr>os_fds := d\<rparr>) q = os_content sys q"
  by (simp add: os_content_def)

lemma os_content_destroy [simp]: "os_content (mf_destroy mf sys) p = os_content sys p"
  by (simp add: mf_destroy_def os_close_def)

lemma length_resize [simp]: "length (resize n f) = n"
  by (simp add: resize_def)

lemma mread_resize: "a + n \<le> length f \<Longrightarrow> a + n \<le> k \<Longrightarrow> mread (resize k f) a n = mread f a n"
  by (simp add: resize_def mread_def drop_take min_def)

lemma page_offset:
  assumes "unat (pid :: u32) < 2 ^ 20"
  shows "unat (pid * 4096) = 4096 * unat pid"
  using assms by (simp add: unat_word_ariths)

lemma mf_get_page_ok:
  assumes ok: "mf_ok mf sys" and pid: "pid < mf_page_count mf"
  shows "mf_get_page mf pid = (True, 4096 * unat pid)" "in_mapping mf (mf_get_page mf pid)"
    "4096 * Suc (unat pid) \<le> length (os_content sys (mf_path mf))"
proof -
  have lt: "unat pid < unat (mf_page_count mf)" using pid by (simp add: word_less_nat_alt)
  then have small: "unat pid < 2 ^ 20" using ok by (simp add: mf_ok_def)
  have "Suc (unat pid) \<le> mf_file_size mf div 4096" using lt ok by (simp add: mf_ok_def)
  then have size: "4096 * Suc (unat pid) \<le> mf_file_size mf"
    by (simp add: less_eq_div_iff_mult_less_eq)
  then have data: "mf_data mf = Some (mf_file_size mf)" using ok by (auto simp: mf_ok_def)
  show ptr: "mf_get_page mf pid = (True, 4096 * unat pid)"
    using data page_offset [OF small] by (simp add: mf_get_page_def)
  show "in_mapping mf (mf_get_page mf pid)"
    unfolding ptr in_mapping_def using data size by simp
  show "4096 * Suc (unat pid) \<le> length (os_content sys (mf_path mf))"
    using size ok by (simp add: mf_ok_def)
qed

lemma mf_load_page:
  assumes "mf_ok mf sys" and "pid < mf_page_count mf"
  shows "mf_load mf sys (mf_get_page mf pid) = Inr (page_at (os_content sys (mf_path mf)) (unat pid))"
  using mf_get_page_ok [OF assms] by (simp add: mf_load_def page_at_def)

lemma mf_store_page:
  assumes "mf_ok mf sys" and "pid < mf_page_count mf" and "length p = 4096"
  shows "mf_store mf sys (mf_get_page mf pid) p =
    Inr (os_write (mf_path mf) (mwrite (os_content sys (mf_path mf)) (4096 * unat pid) p) sys)"
  using mf_get_page_ok [OF assms(1,2)] assms(3) by (simp add: mf_store_def)

lemma mf_ok_write:
  assumes "mf_ok mf sys" and "mf_file_size mf \<le> length f"
  shows "mf_ok mf (os_write (mf_path mf) f sys)"
  using assms by (simp add: mf_ok_def)

lemma not_null_ok:
  "mf_ok mf sys \<Longrightarrow> pid < mf_page_count mf \<Longrightarrow> \<not> is_null (mf_get_page mf pid)"
  by (simp add: is_null_def mf_get_page_ok)

lemma mf_new_ok:
  assumes "fd \<noteq> -1" and "os_content sys path = f" and "length f = 4096 * n" and "n < 2 ^ 20"
  shows "\<exists>mf sys'. mf_new path fd True True sys = (Inr mf, sys') \<and> mf_ok mf sys' \<and> mf_path mf = path \<and>
    os_files sys' = (os_files sys)(path \<mapsto> f) \<and> unat (mf_page_count mf) = n"
  using assms by (auto simp: mf_new_def mf_ok_def map_memory_def Let_def os_content_def os_write_def)

section \<open>Properties\<close>

text \<open>
  On a well-formed mapped file, copying a page through \<open>get_page\<close> into the mapping and reading the
  pages back gives that page and leaves every other page of the file as it was.
\<close>

theorem mapped_pages_are_an_array:
  assumes "mf_ok mf sys" and "pid < mf_page_count mf" and "length p = 4096"
  shows "\<exists>sys'. mf_store mf sys (mf_get_page mf pid) p = Inr sys' \<and> mf_ok mf sys' \<and>
    (\<forall>q < mf_page_count mf. mf_load mf sys' (mf_get_page mf q) =
       (if q = pid then Inr p else mf_load mf sys (mf_get_page mf q)))"
proof -
  let ?f = "os_content sys (mf_path mf)"
  let ?s = "os_write (mf_path mf) (mwrite ?f (4096 * unat pid) p) sys"
  have size: "4096 * Suc (unat pid) \<le> length ?f" by (rule mf_get_page_ok(3) [OF assms(1,2)])
  have ok: "mf_ok mf ?s"
    using assms(1,3) size by (intro mf_ok_write) (simp_all add: mf_ok_def)
  have "mf_load mf ?s (mf_get_page mf q) = (if q = pid then Inr p else mf_load mf sys (mf_get_page mf q))"
    if "q < mf_page_count mf" for q
    using that assms size by (simp add: mf_load_page [OF ok] mf_load_page page_at_mwrite word_unat_eq_iff)
  with ok mf_store_page [OF assms] show ?thesis by blast
qed

definition two_pages :: mapped_file where
  "two_pages = \<lparr>mf_path = ''db'', mf_fd = 3, mf_data = Some 8192, mf_file_size = 8192, mf_page_count = 2\<rparr>"

definition two_pages_os :: os where
  "two_pages_os = \<lparr>os_files = [''db'' \<mapsto> replicate 8192 7], os_fds = [3 \<mapsto> ''db'']\<rparr>"

lemma two_pages_ok: "mf_ok two_pages two_pages_os"
  by (simp add: mf_ok_def two_pages_def two_pages_os_def os_content_def)

lemma mapped_pages_are_an_array_witness:
  "\<exists>sys'. mf_store two_pages two_pages_os (mf_get_page two_pages 1) (replicate 4096 9) = Inr sys' \<and>
     mf_ok two_pages sys' \<and>
     (\<forall>q < mf_page_count two_pages. mf_load two_pages sys' (mf_get_page two_pages q) =
        (if q = 1 then Inr (replicate 4096 9)
         else mf_load two_pages two_pages_os (mf_get_page two_pages q)))"
  by (rule mapped_pages_are_an_array [OF two_pages_ok]) (simp_all add: two_pages_def)

lemma grow_file_ok:
  assumes ok: "mf_ok mf sys" and more: "mf_page_count mf < n" and small: "unat n < 2 ^ 20"
  shows "\<exists>mf' sys'. mf_grow_file n True True mf sys = (Inr (), mf', sys') \<and> mf_ok mf' sys' \<and>
    mf_get_page_count mf' = n \<and> mf_path mf' = mf_path mf \<and>
    sys' = os_write (mf_path mf) (resize (4096 * unat n) (os_content sys (mf_path mf))) sys \<and>
    (\<forall>q < mf_page_count mf. mf_load mf' sys' (mf_get_page mf' q) = mf_load mf sys (mf_get_page mf q))"
proof -
  let ?f = "os_content sys (mf_path mf)"
  let ?size = "4096 * unat n"
  let ?s = "os_write (mf_path mf) (resize ?size ?f) sys"
  let ?m = "mf\<lparr>mf_data := Some ?size, mf_file_size := ?size, mf_page_count := n\<rparr>"
  have n0: "0 < unat n" and lt: "unat (mf_page_count mf) < unat n"
    using more by (auto simp: word_less_nat_alt)
  have call: "mf_grow_file n True True mf sys = (Inr (), ?m, ?s)"
    using more n0 page_offset [OF small] ok
    by (auto simp: mf_grow_file_def unmap_memory_def map_memory_def Let_def mf_ok_def not_le)
  have ok': "mf_ok ?m ?s"
    using ok n0 small by (simp add: mf_ok_def)
  have "mf_load ?m ?s (mf_get_page ?m q) = mf_load mf sys (mf_get_page mf q)"
    if q: "q < mf_page_count mf" for q
  proof -
    have "q < n" using q more by simp
    moreover have "4096 * Suc (unat q) \<le> ?size"
      using \<open>q < n\<close> by (simp add: word_less_nat_alt)
    ultimately show ?thesis
      using mf_load_page [OF ok', of q] mf_load_page [OF ok q] mf_get_page_ok(3) [OF ok q]
      by (simp add: page_at_def mread_resize)
  qed
  with call ok' show ?thesis by (auto simp: mf_get_page_count_def)
qed

text \<open>
  Growing a well-formed file below \<open>2\<^sup>2\<^sup>0\<close> pages, when the system calls succeed, gives a well-formed
  file with exactly that many pages whose old pages keep their content.
\<close>

theorem grow_file_keeps_pages:
  assumes ok: "mf_ok mf sys" and more: "mf_page_count mf < n" and small: "unat n < 2 ^ 20"
  shows "\<exists>mf' sys'. mf_grow_file n True True mf sys = (Inr (), mf', sys') \<and> mf_ok mf' sys' \<and>
    mf_get_page_count mf' = n \<and> mf_path mf' = mf_path mf \<and>
    (\<forall>q < mf_page_count mf. mf_load mf' sys' (mf_get_page mf' q) = mf_load mf sys (mf_get_page mf q))"
  using grow_file_ok [OF assms] by blast

lemma grow_file_keeps_pages_witness:
  "\<exists>mf' sys'. mf_grow_file 5 True True two_pages two_pages_os = (Inr (), mf', sys') \<and> mf_ok mf' sys' \<and>
    mf_get_page_count mf' = 5 \<and> mf_path mf' = mf_path two_pages \<and>
    (\<forall>q < mf_page_count two_pages. mf_load mf' sys' (mf_get_page mf' q) =
       mf_load two_pages two_pages_os (mf_get_page two_pages q))"
  by (rule grow_file_keeps_pages [OF two_pages_ok]) (simp_all add: two_pages_def)

text \<open>
  C40: At \<open>2\<^sup>2\<^sup>0\<close> pages the 32-bit products wrap: page \<open>2\<^sup>2\<^sup>0\<close> is page 0 again, and growing a smaller file to
  that many pages cuts it to length 0 and leaves it unmapped, with the page count at \<open>2\<^sup>2\<^sup>0\<close>.
\<close>

theorem mapped_file_wraps_at_4_GiB:
  "mf_get_page mf 0x100000 = mf_get_page mf 0 \<and>
   (mf_page_count mf < 0x100000 \<longrightarrow>
      (case mf_grow_file 0x100000 True mmap_ok mf sys of (r, mf', sys') \<Rightarrow>
         r = Inr () \<and> os_content sys' (mf_path mf') = [] \<and> mf_data mf' = None \<and>
         mf_get_page_count mf' = 0x100000))"
  by (auto simp: mf_get_page_def mf_grow_file_def unmap_memory_def map_memory_def resize_def
      mf_get_page_count_def Let_def)

lemma mapped_file_wraps_at_4_GiB_witness:
  "mf_get_page two_pages 0x100000 = mf_get_page two_pages 0 \<and>
   (case mf_grow_file 0x100000 True True two_pages two_pages_os of (r, mf', sys') \<Rightarrow>
      os_content two_pages_os ''db'' \<noteq> [] \<and> os_content sys' (mf_path mf') = [])"
  using mapped_file_wraps_at_4_GiB [of two_pages True two_pages_os]
  by (simp add: two_pages_def two_pages_os_def os_content_def split: prod.splits)

text \<open>
  The move assignment never closes the descriptor it overwrites: with the descriptor of the target
  open and different from the source's, it stays open after both objects are destroyed.
\<close>

theorem move_assign_leaks_descriptor:
  assumes "mf_ok self sys" and "mf_fd other \<noteq> mf_fd self"
  shows "case mf_move_assign self other sys of (self', other', sys') \<Rightarrow>
    os_fds (mf_destroy other' (mf_destroy self' sys')) (mf_fd self) = Some (mf_path self)"
  using assms
  by (auto simp: mf_ok_def mf_move_assign_def unmap_memory_def mf_destroy_def mf_moved_from_def
      os_close_def Let_def)

lemma move_assign_leaks_descriptor_witness:
  "case mf_move_assign two_pages (two_pages\<lparr>mf_fd := 4\<rparr>) two_pages_os of (self', other', sys') \<Rightarrow>
    os_fds (mf_destroy other' (mf_destroy self' sys')) (mf_fd two_pages) = Some (mf_path two_pages)"
  by (rule move_assign_leaks_descriptor [OF two_pages_ok]) (simp add: two_pages_def)

end
