(* ===== verification/Access_Observer.thy ===== *)
theory Access_Observer
  imports Raw_Page
begin

text \<open>
  \<open>src/src/observer/access_observer.{h,cpp}\<close>: the ring buffer of recent page accesses that feeds the
  eviction policies, with its per-page counts. The abstract view is the window of the last
  \<open>capacity\<close> events, oldest first; every query of the class is a function of that window.
\<close>

section \<open>The class\<close>

record page_access_event =
  ev_page_id :: u32
  ev_is_hit :: bool

text \<open>
  \<open>page_access_counts_\<close> holds \<open>uint64_t\<close> counters that never exceed the capacity
  (\<open>observer_count_le_capacity\<close>), so they are naturals here; \<open>total_recorded_\<close> only grows and is
  kept at its width. The mutex makes every method one atomic step.
\<close>

record access_observer =
  ao_capacity :: nat
  ao_ring :: "page_access_event list"
  ao_counts :: "u32 \<rightharpoonup> nat"
  ao_head :: nat
  ao_size :: nat
  ao_total_recorded :: u64

definition observer_new :: "nat \<Rightarrow> access_observer" where
  "observer_new ring_capacity =
     (let cap = (if ring_capacity > 0 then ring_capacity else 1) in
      \<lparr>ao_capacity = cap,
       ao_ring = replicate cap \<lparr>ev_page_id = 0, ev_is_hit = False\<rparr>,
       ao_counts = Map.empty, ao_head = 0, ao_size = 0, ao_total_recorded = 0\<rparr>)"

text \<open>The decrement of the count of the event that is about to be overwritten.\<close>

definition forget_oldest :: "access_observer \<Rightarrow> (u32 \<rightharpoonup> nat)" where
  "forget_oldest ob =
     (if ao_size ob = ao_capacity ob then
        (let old_id = ev_page_id (ao_ring ob ! ao_head ob) in
         case ao_counts ob old_id of
           None \<Rightarrow> ao_counts ob
         | Some c \<Rightarrow> if c \<le> 1 then (ao_counts ob)(old_id := None)
                     else (ao_counts ob)(old_id \<mapsto> c - 1))
      else ao_counts ob)"

definition count_of :: "(u32 \<rightharpoonup> nat) \<Rightarrow> u32 \<Rightarrow> nat" where
  "count_of m pid = (case m pid of None \<Rightarrow> 0 | Some c \<Rightarrow> c)"

definition record_page_access :: "u32 \<Rightarrow> bool \<Rightarrow> access_observer \<Rightarrow> access_observer" where
  "record_page_access pid hit ob =
     (let counts = forget_oldest ob in
      ob\<lparr>ao_ring := (ao_ring ob)[ao_head ob := \<lparr>ev_page_id = pid, ev_is_hit = hit\<rparr>],
         ao_head := (ao_head ob + 1) mod ao_capacity ob,
         ao_size := (if ao_size ob < ao_capacity ob then ao_size ob + 1 else ao_size ob),
         ao_total_recorded := ao_total_recorded ob + 1,
         ao_counts := counts(pid \<mapsto> count_of counts pid + 1)\<rparr>)"

definition record_record_access :: "record_id \<Rightarrow> access_observer \<Rightarrow> access_observer" where
  "record_record_access rid ob = record_page_access (rid_page_id rid) False ob"

primrec collect_from :: "page_access_event list \<Rightarrow> nat \<Rightarrow> nat \<Rightarrow> nat \<Rightarrow> page_access_event list" where
  "collect_from ring cap idx 0 = []"
| "collect_from ring cap idx (Suc n) = ring ! idx # collect_from ring cap ((idx + 1) mod cap) n"

definition get_recent_page_accesses :: "nat \<Rightarrow> access_observer \<Rightarrow> page_access_event list" where
  "get_recent_page_accesses n ob =
     (let n = min n (ao_size ob) in
      if n = 0 then []
      else collect_from (ao_ring ob) (ao_capacity ob)
             ((ao_head ob + ao_capacity ob - ao_size ob) mod ao_capacity ob) n)"

definition get_recent_page_ids :: "nat \<Rightarrow> access_observer \<Rightarrow> u32 list" where
  "get_recent_page_ids n ob = map ev_page_id (get_recent_page_accesses n ob)"

definition get_access_count :: "u32 \<Rightarrow> access_observer \<Rightarrow> nat" where
  "get_access_count pid ob = count_of (ao_counts ob) pid"

text \<open>The loop \<open>for (i = 0; i < size_; ++i)\<close>, with \<open>k\<close> iterations left.\<close>

primrec last_index_loop :: "u32 \<Rightarrow> access_observer \<Rightarrow> nat \<Rightarrow> nat" where
  "last_index_loop pid ob 0 = ao_capacity ob"
| "last_index_loop pid ob (Suc k) =
     (let i = ao_size ob - Suc k;
          idx = (ao_head ob + ao_capacity ob - 1 - i) mod ao_capacity ob
      in if ev_page_id (ao_ring ob ! idx) = pid then i else last_index_loop pid ob k)"

definition get_last_index_in_recent :: "u32 \<Rightarrow> access_observer \<Rightarrow> nat" where
  "get_last_index_in_recent pid ob =
     (if ao_size ob = 0 then ao_capacity ob else last_index_loop pid ob (ao_size ob))"

definition observer_get_size :: "access_observer \<Rightarrow> nat" where
  "observer_get_size ob = ao_size ob"

definition get_total_recorded :: "access_observer \<Rightarrow> u64" where
  "get_total_recorded ob = ao_total_recorded ob"

definition observer_get_capacity :: "access_observer \<Rightarrow> nat" where
  "observer_get_capacity ob = ao_capacity ob"

section \<open>The window of recent events\<close>

definition window :: "access_observer \<Rightarrow> page_access_event list" where
  "window ob = (if ao_size ob = ao_capacity ob then rotate (ao_head ob) (ao_ring ob)
                else take (ao_size ob) (ao_ring ob))"

abbreviation window_ids :: "access_observer \<Rightarrow> u32 list" where
  "window_ids ob \<equiv> map ev_page_id (window ob)"

definition counts_agree :: "access_observer \<Rightarrow> bool" where
  "counts_agree ob \<longleftrightarrow>
     (\<forall>pid. ao_counts ob pid =
        (let c = count_list (window_ids ob) pid in if c = 0 then None else Some c))"

definition observer_ok :: "access_observer \<Rightarrow> bool" where
  "observer_ok ob \<longleftrightarrow> 0 < ao_capacity ob \<and> length (ao_ring ob) = ao_capacity ob \<and>
     ao_size ob \<le> ao_capacity ob \<and> ao_head ob < ao_capacity ob \<and>
     (ao_size ob < ao_capacity ob \<longrightarrow> ao_head ob = ao_size ob) \<and> counts_agree ob"

lemma observer_okD:
  assumes "observer_ok ob"
  shows "0 < ao_capacity ob" "length (ao_ring ob) = ao_capacity ob"
    "ao_size ob \<le> ao_capacity ob" "ao_head ob < ao_capacity ob"
    "ao_size ob < ao_capacity ob \<Longrightarrow> ao_head ob = ao_size ob" "counts_agree ob"
  using assms by (auto simp: observer_ok_def)

lemma length_window: "observer_ok ob \<Longrightarrow> length (window ob) = ao_size ob"
  by (auto simp: window_def observer_ok_def)

lemma observer_ok_new: "observer_ok (observer_new n)"
  by (auto simp: observer_ok_def observer_new_def counts_agree_def window_def Let_def)

lemma window_new: "window (observer_new n) = []"
  by (auto simp: observer_new_def window_def Let_def)

text \<open>Position \<open>i\<close> of the window is cell \<open>(head + cap - size + i) mod cap\<close> of the ring.\<close>

lemma nth_window:
  assumes ok: "observer_ok ob" and i: "i < ao_size ob"
  shows "window ob ! i =
    ao_ring ob ! ((ao_head ob + ao_capacity ob - ao_size ob + i) mod ao_capacity ob)"
proof (cases "ao_size ob = ao_capacity ob")
  case True
  with ok i show ?thesis by (simp add: window_def observer_ok_def nth_rotate)
next
  case False
  with ok i show ?thesis by (auto simp: window_def observer_ok_def)
qed

lemma collect_from_nth:
  assumes "n > 0" and "idx < n"
  shows "collect_from ring n idx k = map (\<lambda>i. ring ! ((idx + i) mod n)) [0..<k]"
  using assms(2)
proof (induction k arbitrary: idx)
  case 0
  then show ?case by simp
next
  case (Suc k)
  have "map (\<lambda>i. ring ! (((idx + 1) mod n + i) mod n)) [0..<k] =
        map (\<lambda>i. ring ! ((idx + i) mod n)) [Suc 0..<Suc k]"
    by (simp add: map_Suc_upt [symmetric] mod_add_left_eq del: upt_Suc)
  with Suc assms(1) show ?case
    by (simp add: upt_conv_Cons del: upt_Suc)
qed

lemma recent_accesses_window:
  assumes ok: "observer_ok ob"
  shows "get_recent_page_accesses n ob = take n (window ob)"
proof -
  let ?k = "min n (ao_size ob)"
  let ?b = "(ao_head ob + ao_capacity ob - ao_size ob) mod ao_capacity ob"
  have cap: "0 < ao_capacity ob" and "ao_size ob \<le> ao_capacity ob" using ok by (auto simp: observer_ok_def)
  have "collect_from (ao_ring ob) (ao_capacity ob) ?b ?k = take n (window ob)"
    by (rule nth_equalityI)
       (use ok cap in \<open>auto simp: collect_from_nth length_window nth_window mod_add_left_eq\<close>)
  then show ?thesis
    by (auto simp: get_recent_page_accesses_def Let_def length_window [OF ok])
qed

subsection \<open>Recording an access slides the window\<close>

definition slide :: "nat \<Rightarrow> 'a \<Rightarrow> 'a list \<Rightarrow> 'a list" where
  "slide cap e w = (if length w < cap then w @ [e] else tl w @ [e])"

lemma record_fields [simp]:
  "ao_capacity (record_page_access pid hit ob) = ao_capacity ob"
  "ao_total_recorded (record_page_access pid hit ob) = ao_total_recorded ob + 1"
  by (simp_all add: record_page_access_def Let_def)

lemma rotate_update_head:
  assumes "h < length xs"
  shows "rotate ((h + 1) mod length xs) (xs[h := e]) = tl (rotate h xs) @ [e]"
proof (rule nth_equalityI)
  show "length (rotate ((h + 1) mod length xs) (xs[h := e])) = length (tl (rotate h xs) @ [e])"
    using assms by simp
next
  fix i assume "i < length (rotate ((h + 1) mod length xs) (xs[h := e]))"
  then have i: "i < length xs" by simp
  have eq: "rotate ((h + 1) mod length xs) (xs[h := e]) ! i = xs[h := e] ! ((h + Suc i) mod length xs)"
    using i by (simp add: nth_rotate mod_add_left_eq)
  show "rotate ((h + 1) mod length xs) (xs[h := e]) ! i = (tl (rotate h xs) @ [e]) ! i"
  proof (cases "Suc i = length xs")
    case True
    with assms have "(h + Suc i) mod length xs = h" by simp
    moreover have "i = length xs - 1" using True by simp
    ultimately show ?thesis using eq assms by (simp add: nth_append)
  next
    case False
    with i have lt: "Suc i < length xs" by simp
    have "(h + Suc i) mod length xs \<noteq> h"
    proof (cases "h + Suc i < length xs")
      case True
      then show ?thesis by simp
    next
      case False
      with assms lt have "(h + Suc i) mod length xs = h + Suc i - length xs"
        by (simp add: mod_if)
      with lt show ?thesis using False by linarith
    qed
    moreover have "i < length xs - 1" using lt by simp
    ultimately show ?thesis using eq lt by (simp add: nth_append nth_tl nth_rotate)
  qed
qed

lemma window_record:
  assumes ok: "observer_ok ob"
  shows "window (record_page_access pid hit ob) =
    slide (ao_capacity ob) \<lparr>ev_page_id = pid, ev_is_hit = hit\<rparr> (window ob)"
proof (cases "ao_size ob = ao_capacity ob")
  case True
  with ok show ?thesis
    using rotate_update_head [of "ao_head ob" "ao_ring ob"]
    by (simp add: window_def record_page_access_def Let_def slide_def observer_ok_def)
next
  case False
  with ok have lt: "ao_size ob < ao_capacity ob" and h: "ao_head ob = ao_size ob"
    by (auto simp: observer_ok_def)
  let ?e = "\<lparr>ev_page_id = pid, ev_is_hit = hit\<rparr>"
  have upd: "take (Suc (ao_size ob)) ((ao_ring ob)[ao_size ob := ?e]) = take (ao_size ob) (ao_ring ob) @ [?e]"
    using ok lt by (simp add: take_Suc_conv_app_nth observer_ok_def)
  have "window (record_page_access pid hit ob) = take (Suc (ao_size ob)) ((ao_ring ob)[ao_size ob := ?e])"
    using ok lt h
    by (cases "Suc (ao_size ob) = ao_capacity ob")
       (auto simp: window_def record_page_access_def Let_def observer_ok_def)
  with upd show ?thesis
    using lt length_window [OF ok] by (simp add: slide_def window_def)
qed

lemma slide_ids: "map f (slide cap e w) = slide cap (f e) (map f w)"
  by (simp add: slide_def map_tl)

lemma count_slide:
  "w \<noteq> [] \<Longrightarrow> count_list (tl w) p = count_list w p - (if hd w = p then 1 else 0)"
  by (cases w) auto

lemma count_list_hd: "w \<noteq> [] \<Longrightarrow> 0 < count_list w (hd w)"
  by (cases w) auto

lemma hd_window:
  assumes "observer_ok ob" and "ao_size ob = ao_capacity ob"
  shows "hd (window_ids ob) = ev_page_id (ao_ring ob ! ao_head ob)"
proof -
  have "ao_ring ob \<noteq> []" using assms by (auto simp: observer_ok_def)
  then show ?thesis using assms
    by (simp add: window_def observer_ok_def hd_map hd_rotate_conv_nth)
qed

lemma forget_oldest_count:
  assumes ok: "observer_ok ob"
  shows "forget_oldest ob pid =
    (let c = count_list (if ao_size ob < ao_capacity ob then window_ids ob else tl (window_ids ob)) pid
     in if c = 0 then None else Some c)"
proof (cases "ao_size ob = ao_capacity ob")
  case False
  with ok show ?thesis by (auto simp: forget_oldest_def observer_ok_def counts_agree_def)
next
  case True
  let ?w = "window_ids ob"
  let ?old = "ev_page_id (ao_ring ob ! ao_head ob)"
  have ne: "?w \<noteq> []" using ok True length_window [OF ok] by (auto simp: observer_ok_def)
  have hd: "hd ?w = ?old" by (rule hd_window [OF ok True])
  have pos: "0 < count_list ?w ?old" using count_list_hd [OF ne] hd by simp
  have cnt: "ao_counts ob p = (let c = count_list ?w p in if c = 0 then None else Some c)" for p
    using ok by (simp add: observer_ok_def counts_agree_def)
  show ?thesis
    using True pos hd by (auto simp: forget_oldest_def cnt Let_def count_slide [OF ne])
qed

lemma observer_ok_record:
  assumes ok: "observer_ok ob"
  shows "observer_ok (record_page_access pid hit ob)"
proof -
  let ?ob' = "record_page_access pid hit ob"
  let ?w = "if ao_size ob < ao_capacity ob then window_ids ob else tl (window_ids ob)"
  have ids: "window_ids ?ob' = ?w @ [pid]"
    using ok length_window [OF ok] by (simp add: window_record slide_def map_tl)
  have "ao_counts ?ob' p = (let c = count_list (window_ids ?ob') p in if c = 0 then None else Some c)" for p
    by (simp add: ids)
       (simp add: record_page_access_def count_of_def forget_oldest_count [OF ok] Let_def)
  then have "counts_agree ?ob'" by (simp add: counts_agree_def)
  with ok show ?thesis
    by (auto simp: observer_ok_def record_page_access_def Let_def)
qed

lemma access_count_window:
  "observer_ok ob \<Longrightarrow> get_access_count pid ob = count_list (window_ids ob) pid"
  by (simp add: get_access_count_def count_of_def observer_ok_def counts_agree_def Let_def)

lemma observer_count_le_capacity:
  "observer_ok ob \<Longrightarrow> get_access_count pid ob \<le> ao_capacity ob"
  using count_le_length [of "window_ids ob" pid]
  by (simp add: access_count_window length_window observer_ok_def)

subsection \<open>The position of the most recent access\<close>

primrec index_of :: "'a \<Rightarrow> 'a list \<Rightarrow> nat" where
  "index_of x [] = 0"
| "index_of x (y # ys) = (if y = x then 0 else Suc (index_of x ys))"

lemma index_of_less: "x \<in> set xs \<Longrightarrow> index_of x xs < length xs"
  by (induction xs) auto

lemma nth_rev_window:
  assumes ok: "observer_ok ob" and i: "i < ao_size ob"
  shows "rev (window_ids ob) ! i =
    ev_page_id (ao_ring ob ! ((ao_head ob + ao_capacity ob - 1 - i) mod ao_capacity ob))"
proof -
  have "ao_head ob + ao_capacity ob - ao_size ob + (ao_size ob - Suc i) = ao_head ob + ao_capacity ob - 1 - i"
    using observer_okD(3) [OF ok] i by simp
  then show ?thesis
    using i by (simp add: rev_nth length_window [OF ok] nth_window [OF ok])
qed

lemma last_index_loop_eq:
  assumes ok: "observer_ok ob" and "k \<le> ao_size ob"
  shows "last_index_loop pid ob k =
    (let xs = drop (ao_size ob - k) (rev (window_ids ob))
     in if pid \<in> set xs then ao_size ob - k + index_of pid xs else ao_capacity ob)"
  using assms(2)
proof (induction k)
  case 0
  then show ?case by (simp add: length_window [OF ok])
next
  case (Suc k)
  let ?r = "rev (window_ids ob)"
  let ?i = "ao_size ob - Suc k"
  have "?i < length ?r" using Suc.prems by (simp add: length_window [OF ok])
  then have "drop ?i ?r = ?r ! ?i # drop (ao_size ob - k) ?r"
    using Suc.prems by (simp add: Cons_nth_drop_Suc [symmetric] Suc_diff_Suc)
  moreover have "?r ! ?i = ev_page_id (ao_ring ob !
      ((ao_head ob + ao_capacity ob - 1 - ?i) mod ao_capacity ob))"
    using Suc.prems by (simp add: nth_rev_window [OF ok])
  ultimately show ?case
    using Suc by (auto simp: Let_def)
qed

lemma last_index_window:
  assumes ok: "observer_ok ob"
  shows "get_last_index_in_recent pid ob =
    (if pid \<in> set (window_ids ob) then index_of pid (rev (window_ids ob)) else ao_capacity ob)"
proof (cases "ao_size ob = 0")
  case True
  then have "window ob = []" using length_window [OF ok] by simp
  with True show ?thesis by (simp add: get_last_index_in_recent_def)
next
  case False
  then show ?thesis
    by (simp add: get_last_index_in_recent_def last_index_loop_eq [OF ok] Let_def)
qed

section \<open>The observer against the history of accesses\<close>

definition last_n :: "nat \<Rightarrow> 'a list \<Rightarrow> 'a list" where
  "last_n n xs = drop (length xs - n) xs"

lemma slide_last_n: "0 < n \<Longrightarrow> slide n e (last_n n xs) = last_n n (xs @ [e])"
  by (cases "length xs < n") (auto simp: slide_def last_n_def tl_drop Suc_diff_le drop_Suc)

lemma length_last_n [simp]: "length (last_n n xs) = min n (length xs)"
  by (simp add: last_n_def)

primrec observe_all :: "(u32 \<times> bool) list \<Rightarrow> access_observer \<Rightarrow> access_observer" where
  "observe_all [] ob = ob"
| "observe_all (a # as) ob = observe_all as (record_page_access (fst a) (snd a) ob)"

definition event_of :: "u32 \<times> bool \<Rightarrow> page_access_event" where
  "event_of a = \<lparr>ev_page_id = fst a, ev_is_hit = snd a\<rparr>"

lemma observe_all_append: "observe_all (as @ bs) ob = observe_all bs (observe_all as ob)"
  by (induction as arbitrary: ob) auto

lemma observe_all_inv:
  "observer_ok (observe_all as (observer_new n)) \<and>
   ao_capacity (observe_all as (observer_new n)) = max 1 n \<and>
   window (observe_all as (observer_new n)) = last_n (max 1 n) (map event_of as)"
proof (induction as rule: rev_induct)
  case Nil
  then show ?case
    by (simp add: observer_ok_new window_new last_n_def) (simp add: observer_new_def Let_def)
next
  case (snoc a as)
  then show ?case
    by (simp add: observe_all_append observer_ok_record window_record event_of_def slide_last_n [symmetric])
qed

lemmas observe_all_facts =
  observe_all_inv [THEN conjunct1]
  observe_all_inv [THEN conjunct2, THEN conjunct1]
  observe_all_inv [THEN conjunct2, THEN conjunct2]

lemma observe_all_total:
  "ao_total_recorded (observe_all as ob) = ao_total_recorded ob + word_of_nat (length as)"
  by (induction as arbitrary: ob) (simp_all add: record_page_access_def Let_def)

lemma map_last_n: "map f (last_n n xs) = last_n n (map f xs)"
  by (simp add: last_n_def drop_map)

lemma ev_page_id_event_of [simp]: "ev_page_id (event_of a) = fst a" "ev_page_id \<circ> event_of = fst"
  by (auto simp: event_of_def)

text \<open>
  C12: Whatever sequence of accesses has been recorded, a ring of capacity \<open>n\<close> (1 when \<open>n = 0\<close>)
  answers every query from exactly the last \<open>max 1 n\<close> accesses, and counts all of them: the size, the recent events
  (of which a request for \<open>k\<close> returns the \<open>k\<close> oldest, in order of arrival), the number of
  occurrences of a page, and the distance of its last occurrence from the newest event.
\<close>

theorem observer_answers_from_last_accesses:
  "let ob = observe_all as (observer_new n); recent = last_n (max 1 n) as in
    observer_get_size ob = min (max 1 n) (length as) \<and> observer_get_capacity ob = max 1 n \<and>
    get_total_recorded ob = word_of_nat (length as) \<and>
    get_recent_page_accesses k ob = take k (map event_of recent) \<and>
    get_recent_page_ids k ob = take k (map fst recent) \<and>
    get_access_count pid ob = count_list (map fst recent) pid \<and>
    get_last_index_in_recent pid ob =
      (if pid \<in> set (map fst recent) then index_of pid (rev (map fst recent)) else max 1 n)"
proof -
  define ob where "ob = observe_all as (observer_new n)"
  define recent where "recent = last_n (max 1 n) as"
  have ok: "observer_ok ob" and cap: "ao_capacity ob = max 1 n"
    and win: "window ob = map event_of recent"
    by (simp_all add: ob_def recent_def observe_all_facts map_last_n)
  have "get_recent_page_accesses k ob = take k (map event_of recent)"
    by (simp add: recent_accesses_window [OF ok] win)
  moreover have "ao_size ob = min (max 1 n) (length as)"
    using length_window [OF ok] by (simp add: win recent_def)
  moreover have "ao_total_recorded ob = word_of_nat (length as)"
    using observe_all_total [of as "observer_new n"] by (simp add: ob_def observer_new_def Let_def)
  ultimately show ?thesis
    unfolding Let_def ob_def [symmetric] recent_def [symmetric]
    by (simp add: observer_get_size_def observer_get_capacity_def get_total_recorded_def get_recent_page_ids_def access_count_window [OF ok] last_index_window [OF ok]
        win cap take_map)
qed

end
