(* ===== verification/Workload_Hint.thy ===== *)
theory Workload_Hint
  imports Main
begin

text \<open>
  \<open>src/src/workload_hint.{h,cpp}\<close>: the hint of the current thread, which the hint-aware eviction policy
  reads. The thread-local variable is a value of \<open>workload_hint\<close> that its users pass along.
\<close>

datatype workload_hint = PointLookup | Scan

definition initial_workload_hint :: workload_hint where
  "initial_workload_hint = PointLookup"

definition get_workload_hint :: "workload_hint \<Rightarrow> workload_hint" where
  "get_workload_hint g = g"

text \<open>A \<open>ScanScope\<close> object holds the previous hint: its constructor and its destructor.\<close>

record scan_scope =
  scope_previous :: workload_hint

definition scan_scope_enter :: "workload_hint \<Rightarrow> scan_scope \<times> workload_hint" where
  "scan_scope_enter g = (\<lparr>scope_previous = get_workload_hint g\<rparr>, Scan)"

definition scan_scope_leave :: "scan_scope \<Rightarrow> workload_hint \<Rightarrow> workload_hint" where
  "scan_scope_leave s g = scope_previous s"

text \<open>A block that declares a \<open>ScanScope\<close> runs its body under the hint \<open>Scan\<close> and then restores.\<close>

definition with_scan_scope :: "(workload_hint \<Rightarrow> 'a \<times> workload_hint) \<Rightarrow> workload_hint \<Rightarrow> 'a \<times> workload_hint" where
  "with_scan_scope body g =
     (let (s, g1) = scan_scope_enter g; (x, g2) = body g1 in (x, scan_scope_leave s g2))"

lemma with_scan_scope_restores: "with_scan_scope body g = (fst (body Scan), g)"
  by (simp add: with_scan_scope_def scan_scope_enter_def scan_scope_leave_def get_workload_hint_def split: prod.split)

end
