(* ===== verification/Eviction_Policy.thy ===== *)
theory Eviction_Policy
  imports Access_Observer Workload_Hint
begin

text \<open>
  \<open>src/src/cache/eviction_policy.{h,cpp}\<close>: the page eviction policies. A policy gets the unpinned pages,
  least recently used first, and names the page to evict. Policies point to an access observer (or to
  none); the observers live in a store, since the page cache updates the one the policies read.
\<close>

type_synonym observers = "nat \<Rightarrow> access_observer"
type_synonym observer_ptr = "nat option"

section \<open>Policies without state\<close>

definition lru_page_choose_victim :: "u32 list \<Rightarrow> u32" where
  "lru_page_choose_victim ids = (if ids = [] then 0 else hd ids)"

text \<open>\<open>recent_set\<close>, and the test whether a neighbour of the page was accessed; \<open>pid + 1\<close> wraps.\<close>

definition recent_set :: "access_observer \<Rightarrow> u32 set" where
  "recent_set ob = set (get_recent_page_ids (ao_capacity ob) ob)"

definition in_run :: "u32 set \<Rightarrow> u32 \<Rightarrow> bool" where
  "in_run recent pid \<longleftrightarrow> pid + 1 \<in> recent \<or> (pid > 0 \<and> pid - 1 \<in> recent)"

text \<open>The loop over the candidates that returns the first one in a run, and the front otherwise.\<close>

primrec first_in_run :: "u32 set \<Rightarrow> u32 list \<Rightarrow> u32 \<Rightarrow> u32" where
  "first_in_run recent [] front = front"
| "first_in_run recent (pid # pids) front =
     (if in_run recent pid then pid else first_in_run recent pids front)"

definition scan_resistant_choose_victim :: "observer_ptr \<Rightarrow> observers \<Rightarrow> u32 list \<Rightarrow> u32" where
  "scan_resistant_choose_victim observer obs ids =
     (if ids = [] then 0
      else case observer of None \<Rightarrow> hd ids
      | Some a \<Rightarrow> first_in_run (recent_set (obs a)) ids (hd ids))"

text \<open>The loop from index 1 that keeps the page whose measure is strictly smaller.\<close>

primrec least_loop :: "('m \<Rightarrow> 'm \<Rightarrow> bool) \<Rightarrow> (u32 \<Rightarrow> 'm) \<Rightarrow> u32 list \<Rightarrow> u32 \<times> 'm \<Rightarrow> u32 \<times> 'm" where
  "least_loop lt key_of [] best = best"
| "least_loop lt key_of (pid # pids) best =
     least_loop lt key_of pids
       (if lt (key_of pid) (snd best) then (pid, key_of pid) else best)"

definition least_count :: "access_observer \<Rightarrow> u32 list \<Rightarrow> u32" where
  "least_count ob ids =
     fst (least_loop (<) (\<lambda>pid. get_access_count pid ob) (tl ids) (hd ids, get_access_count (hd ids) ob))"

definition lfu_choose_victim :: "observer_ptr \<Rightarrow> observers \<Rightarrow> u32 list \<Rightarrow> u32" where
  "lfu_choose_victim observer obs ids =
     (if ids = [] then 0
      else case observer of None \<Rightarrow> hd ids | Some a \<Rightarrow> least_count (obs a) ids)"

definition scan_then_lfu_choose_victim :: "observer_ptr \<Rightarrow> observers \<Rightarrow> u32 list \<Rightarrow> u32" where
  "scan_then_lfu_choose_victim observer obs ids =
     (if ids = [] then 0
      else case observer of None \<Rightarrow> hd ids
      | Some a \<Rightarrow>
          let scan_candidates = filter (in_run (recent_set (obs a))) ids;
              candidates = (if scan_candidates = [] then ids else scan_candidates)
          in least_count (obs a) candidates)"

definition hint_aware_choose_victim :: "workload_hint \<Rightarrow> observer_ptr \<Rightarrow> observers \<Rightarrow> u32 list \<Rightarrow> u32" where
  "hint_aware_choose_victim hint observer obs ids =
     (if ids = [] then 0
      else if hint = Scan then
        (case observer of None \<Rightarrow> hd ids
         | Some a \<Rightarrow> first_in_run (recent_set (obs a)) ids (hd ids))
      else (case observer of None \<Rightarrow> hd ids | Some a \<Rightarrow> least_count (obs a) ids))"

section \<open>The learned policies\<close>

text \<open>
  The operations on \<open>double\<close> that the code uses are a parameter: the theorems hold for every
  rounding, and for infinities and NaNs. \<open>d_read3\<close> extracts three numbers from a line.
\<close>

record 'd double_ops =
  d_of_int :: "int \<Rightarrow> 'd"
  d_add :: "'d \<Rightarrow> 'd \<Rightarrow> 'd"
  d_mul :: "'d \<Rightarrow> 'd \<Rightarrow> 'd"
  d_div :: "'d \<Rightarrow> 'd \<Rightarrow> 'd"
  d_less :: "'d \<Rightarrow> 'd \<Rightarrow> bool"
  d_read3 :: "string \<Rightarrow> ('d \<times> 'd \<times> 'd) option"

record 'd features =
  ft_recency :: 'd
  ft_count :: 'd
  ft_scan :: 'd

record 'd weights =
  w_recency :: 'd
  w_count :: 'd
  w_scan :: 'd

record 'd learned_policy =
  lp_observer :: observer_ptr
  lp_feedback_horizon :: u64
  lp_learning_rate :: 'd
  lp_weights :: "'d weights"
  lp_last_evicted :: "u32 option"
  lp_last_features :: "'d features"
  lp_last_total :: u64

record 'd loaded_policy =
  ld_observer :: observer_ptr
  ld_weights :: "'d weights"

definition zero_features :: "'d double_ops \<Rightarrow> 'd features" where
  "zero_features D = \<lparr>ft_recency = d_of_int D 0, ft_count = d_of_int D 0, ft_scan = d_of_int D 0\<rparr>"

definition default_weights :: "'d double_ops \<Rightarrow> 'd weights" where
  "default_weights D = \<lparr>w_recency = d_of_int D 1, w_count = d_of_int D 1, w_scan = d_of_int D (-1)\<rparr>"

definition learned_new :: "'d double_ops \<Rightarrow> observer_ptr \<Rightarrow> u64 \<Rightarrow> 'd \<Rightarrow> 'd learned_policy" where
  "learned_new D observer horizon rate =
     \<lparr>lp_observer = observer, lp_feedback_horizon = horizon, lp_learning_rate = rate,
      lp_weights = default_weights D, lp_last_evicted = None, lp_last_features = zero_features D,
      lp_last_total = 0\<rparr>"

text \<open>Both classes have the same \<open>extract_features\<close> and \<open>score\<close>; \<open>std::min(1.0, x)\<close> is \<open>x < 1.0 ? x : 1.0\<close>.\<close>

definition extract_features :: "'d double_ops \<Rightarrow> observer_ptr \<Rightarrow> observers \<Rightarrow> u32 \<Rightarrow> 'd features" where
  "extract_features D observer obs pid =
     (case observer of None \<Rightarrow> zero_features D
      | Some a \<Rightarrow>
          let cap = ao_capacity (obs a);
              last_idx = get_last_index_in_recent pid (obs a);
              one = d_of_int D 1;
              ratio = d_div D (d_of_int D (int (get_access_count pid (obs a))))
                        (d_add D one (d_of_int D (int cap)))
          in \<lparr>ft_recency = d_div D one (d_add D one (d_of_int D (int last_idx))),
              ft_count = (if d_less D ratio one then ratio else one),
              ft_scan = (if in_run (recent_set (obs a)) pid then one else d_of_int D 0)\<rparr>)"

definition score :: "'d double_ops \<Rightarrow> 'd weights \<Rightarrow> 'd features \<Rightarrow> 'd" where
  "score D w f = d_add D (d_add D (d_mul D (w_recency w) (ft_recency f)) (d_mul D (w_count w) (ft_count f)))
     (d_mul D (w_scan w) (ft_scan f))"

definition update_weights :: "'d double_ops \<Rightarrow> 'd features \<Rightarrow> int \<Rightarrow> 'd learned_policy \<Rightarrow> 'd learned_policy" where
  "update_weights D f label lp =
     (let delta = d_mul D (lp_learning_rate lp) (d_of_int D (2 * label - 1));
          w = lp_weights lp
      in lp\<lparr>lp_weights := \<lparr>w_recency = d_add D (w_recency w) (d_mul D delta (ft_recency f)),
                           w_count = d_add D (w_count w) (d_mul D delta (ft_count f)),
                           w_scan = d_add D (w_scan w) (d_mul D delta (ft_scan f))\<rparr>\<rparr>)"

definition get_weights :: "'d learned_policy \<Rightarrow> 'd \<times> 'd \<times> 'd" where
  "get_weights lp = (w_recency (lp_weights lp), w_count (lp_weights lp), w_scan (lp_weights lp))"

text \<open>The feedback for the last evicted page, once the horizon has passed; the \<open>size_t\<close> sum wraps.\<close>

definition feedback :: "'d double_ops \<Rightarrow> access_observer \<Rightarrow> 'd learned_policy \<Rightarrow> 'd learned_policy" where
  "feedback D ob lp =
     (case lp_last_evicted lp of None \<Rightarrow> lp
      | Some pid \<Rightarrow>
          if ao_total_recorded ob \<ge> lp_last_total lp + lp_feedback_horizon lp then
            let label = (if get_last_index_in_recent pid ob < ao_capacity ob then 1 else 0)
            in (update_weights D (lp_last_features lp) label lp)\<lparr>lp_last_evicted := None\<rparr>
          else lp)"

primrec learned_loop ::
  "'d double_ops \<Rightarrow> (u32 \<Rightarrow> 'd features) \<Rightarrow> 'd weights \<Rightarrow> u32 list \<Rightarrow>
   u32 \<times> 'd features \<times> 'd \<Rightarrow> u32 \<times> 'd features \<times> 'd" where
  "learned_loop D feats w [] best = best"
| "learned_loop D feats w (pid # pids) best =
     learned_loop D feats w pids
       (let f = feats pid; s = score D w f in if d_less D s (snd (snd best)) then (pid, f, s) else best)"

definition learned_choose_victim ::
  "'d double_ops \<Rightarrow> observers \<Rightarrow> u32 list \<Rightarrow> 'd learned_policy \<Rightarrow> u32 \<times> 'd learned_policy" where
  "learned_choose_victim D obs ids lp =
     (if ids = [] then (0, lp)
      else case lp_observer lp of None \<Rightarrow> (hd ids, lp)
      | Some a \<Rightarrow>
          let lp1 = feedback D (obs a) lp;
              feats = extract_features D (lp_observer lp1) obs;
              f0 = feats (hd ids);
              (victim, f, s) = learned_loop D feats (lp_weights lp1) (tl ids)
                                 (hd ids, f0, score D (lp_weights lp1) f0)
          in (victim, lp1\<lparr>lp_last_evicted := Some victim, lp_last_features := f,
                          lp_last_total := ao_total_recorded (obs a)\<rparr>))"

text \<open>The policy file: the lines \<open>std::getline\<close> reads, the first that is neither empty nor a comment.\<close>

fun lines_of :: "string \<Rightarrow> string list" where
  "lines_of [] = []"
| "lines_of (c # cs) =
     (if c = CHR 0x0A then [] # lines_of cs
      else case lines_of cs of [] \<Rightarrow> [[c]] | l # ls \<Rightarrow> (c # l) # ls)"

primrec load_lines :: "'d double_ops \<Rightarrow> string list \<Rightarrow> ('d \<times> 'd \<times> 'd) option" where
  "load_lines D [] = None"
| "load_lines D (l # ls) =
     (if l = [] \<or> hd l = CHR ''#'' then load_lines D ls else d_read3 D l)"

definition load_weights_from_file :: "'d double_ops \<Rightarrow> string option \<Rightarrow> ('d \<times> 'd \<times> 'd) option" where
  "load_weights_from_file D file = (case file of None \<Rightarrow> None | Some s \<Rightarrow> load_lines D (lines_of s))"

definition loaded_new :: "'d double_ops \<Rightarrow> observer_ptr \<Rightarrow> string option \<Rightarrow> 'd loaded_policy" where
  "loaded_new D observer file =
     \<lparr>ld_observer = observer,
      ld_weights = (case load_weights_from_file D file of
          Some (r, c, s) \<Rightarrow> \<lparr>w_recency = r, w_count = c, w_scan = s\<rparr>
        | None \<Rightarrow> default_weights D)\<rparr>"

definition loaded_choose_victim :: "'d double_ops \<Rightarrow> observers \<Rightarrow> u32 list \<Rightarrow> 'd loaded_policy \<Rightarrow> u32" where
  "loaded_choose_victim D obs ids ld =
     (if ids = [] then 0
      else case ld_observer ld of None \<Rightarrow> hd ids
      | Some a \<Rightarrow>
          let m = (\<lambda>pid. score D (ld_weights ld) (extract_features D (ld_observer ld) obs pid))
          in fst (least_loop (d_less D) m (tl ids) (hd ids, m (hd ids))))"

section \<open>The virtual method\<close>

datatype 'd page_policy =
    LruPage
  | ScanResistant observer_ptr
  | Lfu observer_ptr
  | ScanResistantThenLfu observer_ptr
  | HintAware observer_ptr
  | Learned "'d learned_policy"
  | LoadedLearned "'d loaded_policy"

fun choose_victim ::
  "'d double_ops \<Rightarrow> workload_hint \<Rightarrow> observers \<Rightarrow> u32 list \<Rightarrow> 'd page_policy \<Rightarrow> u32 \<times> 'd page_policy" where
  "choose_victim D hint obs ids LruPage = (lru_page_choose_victim ids, LruPage)"
| "choose_victim D hint obs ids (ScanResistant p) = (scan_resistant_choose_victim p obs ids, ScanResistant p)"
| "choose_victim D hint obs ids (Lfu p) = (lfu_choose_victim p obs ids, Lfu p)"
| "choose_victim D hint obs ids (ScanResistantThenLfu p) =
     (scan_then_lfu_choose_victim p obs ids, ScanResistantThenLfu p)"
| "choose_victim D hint obs ids (HintAware p) = (hint_aware_choose_victim hint p obs ids, HintAware p)"
| "choose_victim D hint obs ids (Learned lp) =
     (let (v, lp') = learned_choose_victim D obs ids lp in (v, Learned lp'))"
| "choose_victim D hint obs ids (LoadedLearned ld) = (loaded_choose_victim D obs ids ld, LoadedLearned ld)"

text \<open>What the page cache relies on: the victim is one of the candidates.\<close>

locale page_eviction_policy =
  fixes pick :: "workload_hint \<Rightarrow> observers \<Rightarrow> u32 list \<Rightarrow> 'p \<Rightarrow> u32 \<times> 'p"
  assumes victim_is_candidate: "ids \<noteq> [] \<Longrightarrow> fst (pick hint obs ids p) \<in> set ids"
begin

lemma victim_only_candidate: "fst (pick hint obs [pid] p) = pid"
  using victim_is_candidate [of "[pid]"] by simp

end

lemma first_in_run_in: "front \<in> set ids \<Longrightarrow> set pids \<subseteq> set ids \<Longrightarrow> first_in_run r pids front \<in> set ids"
  by (induction pids) auto

lemma least_loop_in: "fst (least_loop lt m pids best) \<in> insert (fst best) (set pids)"
  by (induction pids arbitrary: best) (auto split: if_splits, (metis fst_conv insertE)+)

lemma least_loop_tl_in: "ids \<noteq> [] \<Longrightarrow> fst (least_loop lt m (tl ids) (hd ids, x)) \<in> set ids"
  using least_loop_in [of lt m "tl ids" "(hd ids, x)"] by (cases ids) auto

lemma learned_loop_in: "fst (learned_loop D feats w pids best) \<in> insert (fst best) (set pids)"
  by (induction pids arbitrary: best) (auto simp: Let_def split: if_splits, (metis fst_conv insertE)+)

lemma learned_loop_tl_in: "ids \<noteq> [] \<Longrightarrow> fst (learned_loop D feats w (tl ids) (hd ids, x)) \<in> set ids"
  using learned_loop_in [of D feats w "tl ids" "(hd ids, x)"] by (cases ids) auto

lemma least_count_in: "ids \<noteq> [] \<Longrightarrow> least_count ob ids \<in> set ids"
  by (simp add: least_count_def least_loop_tl_in)

lemma fst_in_split: "fst x \<in> A \<Longrightarrow> x = (a, b) \<Longrightarrow> a \<in> A"
  by simp

lemma choose_in_candidates: "ids \<noteq> [] \<Longrightarrow> fst (choose_victim D hint obs ids p) \<in> set ids"
proof (cases p)
  case (ScanResistantThenLfu a)
  assume "ids \<noteq> []"
  then show ?thesis
    using ScanResistantThenLfu least_count_in [of ids] least_count_in [of "filter (in_run r) ids" for r]
    by (auto simp: scan_then_lfu_choose_victim_def Let_def split: option.splits)
next
  case (Learned lp)
  assume "ids \<noteq> []"
  then show ?thesis
    using Learned learned_loop_tl_in [of ids, THEN fst_in_split]
    by (auto simp: learned_choose_victim_def Let_def split: option.splits prod.splits)
qed (auto simp: lru_page_choose_victim_def scan_resistant_choose_victim_def lfu_choose_victim_def
    hint_aware_choose_victim_def loaded_choose_victim_def Let_def first_in_run_in least_count_in
    least_loop_tl_in split: option.splits)

interpretation policy: page_eviction_policy "choose_victim D" for D :: "'d double_ops"
  by unfold_locales (rule choose_in_candidates)

section \<open>What the policies choose\<close>

text \<open>\<open>v\<close> has the least measure of the list and is the first such element.\<close>

definition is_first_least :: "(u32 \<Rightarrow> 'm::linorder) \<Rightarrow> u32 list \<Rightarrow> u32 \<Rightarrow> bool" where
  "is_first_least m ids v \<longleftrightarrow> (\<exists>pre post. ids = pre @ v # post \<and>
     (\<forall>x \<in> set pre. m v < m x) \<and> (\<forall>x \<in> set post. m v \<le> m x))"

lemma first_least_snoc:
  assumes "is_first_least m ids v"
  shows "is_first_least m (ids @ [x]) (if m x < m v then x else v)"
proof -
  obtain pre post where *: "ids = pre @ v # post" "\<forall>x \<in> set pre. m v < m x" "\<forall>x \<in> set post. m v \<le> m x"
    using assms by (auto simp: is_first_least_def)
  show ?thesis
  proof (cases "m x < m v")
    case True
    with * have "\<forall>y \<in> set ids. m x < m y" by fastforce
    with True show ?thesis
      unfolding is_first_least_def by (intro exI [of _ ids] exI [of _ "[]"]) simp
  next
    case False
    with * show ?thesis
      unfolding is_first_least_def by (intro exI [of _ pre] exI [of _ "post @ [x]"]) auto
  qed
qed

lemma least_loop_first_least:
  assumes "is_first_least m seen (fst best)" and "snd best = m (fst best)"
  shows "is_first_least m (seen @ pids) (fst (least_loop (<) m pids best))"
  using assms
proof (induction pids arbitrary: seen best)
  case Nil
  then show ?case by simp
next
  case (Cons pid pids)
  let ?best = "if m pid < snd best then (pid, m pid) else best"
  have "is_first_least m (seen @ [pid]) (fst ?best)"
    using first_least_snoc [OF Cons.prems(1), of pid] Cons.prems(2) by (simp split: if_splits)
  then show ?case
    using Cons.IH [of "seen @ [pid]" ?best] Cons.prems(2) by simp
qed

lemma first_least_single: "is_first_least m [v] v"
  unfolding is_first_least_def by (intro exI [of _ "[]"]) simp

lemma least_loop_tl:
  "ids \<noteq> [] \<Longrightarrow> is_first_least m ids (fst (least_loop (<) m (tl ids) (hd ids, m (hd ids))))"
  using least_loop_first_least [of m "[hd ids]" "(hd ids, m (hd ids))" "tl ids"]
  by (simp add: first_least_single)

lemma least_count_first_least:
  assumes "observer_ok ob" and "ids \<noteq> []"
  shows "is_first_least (count_list (window_ids ob)) ids (least_count ob ids)"
proof -
  have "get_access_count pid ob = count_list (window_ids ob) pid" for pid
    by (rule access_count_window [OF assms(1)])
  then show ?thesis
    using least_loop_tl [OF assms(2), of "count_list (window_ids ob)"] by (simp add: least_count_def)
qed

lemma recent_set_window: "observer_ok ob \<Longrightarrow> recent_set ob = set (window_ids ob)"
  by (simp add: recent_set_def get_recent_page_ids_def recent_accesses_window length_window observer_okD)

text \<open>The first candidate in a run, or the least recently used one when there is none.\<close>

definition is_first_in_run :: "u32 set \<Rightarrow> u32 list \<Rightarrow> u32 \<Rightarrow> bool" where
  "is_first_in_run recent ids v \<longleftrightarrow>
     (\<exists>pre post. ids = pre @ v # post \<and> in_run recent v \<and> (\<forall>x \<in> set pre. \<not> in_run recent x)) \<or>
     (v = hd ids \<and> (\<forall>x \<in> set ids. \<not> in_run recent x))"

lemma first_in_run_cases:
  "(\<exists>pre post. ids = pre @ first_in_run r ids fr # post \<and> in_run r (first_in_run r ids fr) \<and>
      (\<forall>x \<in> set pre. \<not> in_run r x)) \<or> (first_in_run r ids fr = fr \<and> (\<forall>x \<in> set ids. \<not> in_run r x))"
proof (induction ids)
  case Nil
  then show ?case by simp
next
  case (Cons i ids)
  show ?case
  proof (cases "in_run r i")
    case True
    then have "i # ids = [] @ first_in_run r (i # ids) fr # ids" by simp
    with True show ?thesis by (metis empty_iff first_in_run.simps(2) list.set(1))
  next
    case False
    then have step: "first_in_run r (i # ids) fr = first_in_run r ids fr" by simp
    from Cons show ?thesis
    proof (elim disjE exE conjE)
      fix pre post
      assume "ids = pre @ first_in_run r ids fr # post" "in_run r (first_in_run r ids fr)"
        "\<forall>x \<in> set pre. \<not> in_run r x"
      with False show ?thesis
        unfolding step by (intro disjI1 exI [of _ "i # pre"] exI [of _ post]) simp
    qed (use False in simp)
  qed
qed

lemma first_in_run_is: "is_first_in_run r ids (first_in_run r ids (hd ids))"
  using first_in_run_cases [of ids r "hd ids"] by (simp add: is_first_in_run_def)

lemma lfu_victim_least:
  assumes "observer_ok (obs a)" and "ids \<noteq> []"
  shows "is_first_least (count_list (window_ids (obs a))) ids (lfu_choose_victim (Some a) obs ids)"
  using least_count_first_least [OF assms] assms(2) by (simp add: lfu_choose_victim_def)

lemma scan_resistant_victim_in_run:
  assumes "observer_ok (obs a)" and "ids \<noteq> []"
  shows "is_first_in_run (set (window_ids (obs a))) ids (scan_resistant_choose_victim (Some a) obs ids)"
  using first_in_run_is recent_set_window [OF assms(1)] assms(2) by (simp add: scan_resistant_choose_victim_def)

lemma hint_aware_eq:
  "hint_aware_choose_victim hint p obs ids =
     (if hint = Scan then scan_resistant_choose_victim p obs ids else lfu_choose_victim p obs ids)"
  by (simp add: hint_aware_choose_victim_def scan_resistant_choose_victim_def lfu_choose_victim_def)

text \<open>
  Every policy, in any state, under any hint and whatever its observer recorded, chooses one of the
  candidates it is given.
\<close>

theorem every_policy_chooses_a_candidate:
  assumes "ids \<noteq> []"
  shows "fst (choose_victim D hint obs ids p) \<in> set ids"
  using assms by (rule policy.victim_is_candidate)

definition int_ops :: "int double_ops" where
  "int_ops = \<lparr>d_of_int = id, d_add = (+), d_mul = (*), d_div = (div), d_less = (<), d_read3 = (\<lambda>_. None)\<rparr>"

lemma every_policy_chooses_a_candidate_witness:
  "fst (choose_victim int_ops Scan (\<lambda>_. observer_new 4) [7, 9] (Learned (learned_new int_ops (Some 0) 2 1)))
     \<in> set [7, 9]"
  by (rule every_policy_chooses_a_candidate) simp

text \<open>
  C32: The hint-aware policy with an observer evicts, under the hint Scan, the first candidate in LRU order
  with a neighbour among the last accesses (the least recently used one if there is none) and, under
  PointLookup, the first candidate with the fewest occurrences among the last accesses: exactly what the
  scan-resistant and the LFU policy do.
\<close>

theorem hint_aware_follows_hint:
  assumes "observer_ok (obs a)" and "ids \<noteq> []"
  shows "is_first_in_run (set (window_ids (obs a))) ids (hint_aware_choose_victim Scan (Some a) obs ids) \<and>
    is_first_least (count_list (window_ids (obs a))) ids (hint_aware_choose_victim PointLookup (Some a) obs ids) \<and>
    hint_aware_choose_victim Scan p obs ids = scan_resistant_choose_victim p obs ids \<and>
    hint_aware_choose_victim PointLookup p obs ids = lfu_choose_victim p obs ids"
  using lfu_victim_least [of obs a ids] scan_resistant_victim_in_run [of obs a ids] assms
  by (simp add: hint_aware_eq)

definition four_seen :: access_observer where
  "four_seen = observe_all [(5, False), (6, False), (9, True), (9, True)] (observer_new 8)"

lemma four_seen_ok: "observer_ok four_seen"
  unfolding four_seen_def by (rule observe_all_facts)

lemma hint_aware_follows_hint_witness:
  "is_first_in_run (set (window_ids four_seen)) [9, 5] (hint_aware_choose_victim Scan (Some 0) (\<lambda>_. four_seen) [9, 5]) \<and>
    is_first_least (count_list (window_ids four_seen)) [9, 5]
      (hint_aware_choose_victim PointLookup (Some 0) (\<lambda>_. four_seen) [9, 5]) \<and>
    hint_aware_choose_victim Scan (Some 0) (\<lambda>_. four_seen) [9, 5] =
      scan_resistant_choose_victim (Some 0) (\<lambda>_. four_seen) [9, 5] \<and>
    hint_aware_choose_victim PointLookup (Some 0) (\<lambda>_. four_seen) [9, 5] =
      lfu_choose_victim (Some 0) (\<lambda>_. four_seen) [9, 5]"
  by (rule hint_aware_follows_hint) (simp_all add: four_seen_ok)

text \<open>
  The combined policy evicts the first least frequently used page among the candidates with a
  neighbour in the last accesses, or among all candidates when there is none.
\<close>

theorem scan_then_lfu_evicts_scan_pages_first:
  assumes "observer_ok (obs a)" and "ids \<noteq> []"
  shows "let scan_pages = filter (in_run (set (window_ids (obs a)))) ids in
    is_first_least (count_list (window_ids (obs a))) (if scan_pages = [] then ids else scan_pages)
      (scan_then_lfu_choose_victim (Some a) obs ids)"
proof -
  have "is_first_least (count_list (window_ids (obs a))) c (least_count (obs a) c)" if "c \<noteq> []" for c
    by (rule least_count_first_least [OF assms(1) that])
  then show ?thesis
    using assms(2) by (simp add: scan_then_lfu_choose_victim_def recent_set_window [OF assms(1)] Let_def)
qed

lemma scan_then_lfu_evicts_scan_pages_first_witness:
  "let scan_pages = filter (in_run (set (window_ids four_seen))) [9, 5, 6] in
    is_first_least (count_list (window_ids four_seen)) (if scan_pages = [] then [9, 5, 6] else scan_pages)
      (scan_then_lfu_choose_victim (Some 0) (\<lambda>_. four_seen) [9, 5, 6])"
  by (rule scan_then_lfu_evicts_scan_pages_first) (simp_all add: four_seen_ok)

section \<open>The learned policies\<close>

lemma learned_loop_least:
  assumes "fst (snd best) = feats (fst best)" and "snd (snd best) = score D w (feats (fst best))"
  shows "learned_loop D feats w pids best =
    (let v = fst (least_loop (d_less D) (\<lambda>pid. score D w (feats pid)) pids (fst best, snd (snd best)))
     in (v, feats v, score D w (feats v)))"
  using assms
proof (induction pids arbitrary: best)
  case Nil
  then show ?case by (cases best) simp
next
  case (Cons pid pids)
  let ?best = "let f = feats pid; s = score D w f in if d_less D s (snd (snd best)) then (pid, f, s) else best"
  have "learned_loop D feats w pids ?best =
    (let v = fst (least_loop (d_less D) (\<lambda>pid. score D w (feats pid)) pids (fst ?best, snd (snd ?best)))
     in (v, feats v, score D w (feats v)))"
    by (rule Cons.IH) (use Cons.prems in \<open>auto simp: Let_def\<close>)
  then show ?case by (auto simp: Let_def)
qed

text \<open>
  C33: When the numbers compared are totally ordered (no NaN), the learned policy evicts the first
  candidate of least score under the weights as its feedback step left them, and remembers that page, its
  features and the time; the loaded policy evicts the first candidate of least score and keeps its weights.
\<close>

theorem learned_policies_evict_least_score:
  fixes D :: "'d::linorder double_ops"
  assumes "d_less D = (<)" and "ids \<noteq> []" and "lp_observer lp = Some a" and "ld_observer ld = Some a"
  shows "(case learned_choose_victim D obs ids lp of (v, lp') \<Rightarrow>
      is_first_least (\<lambda>pid. score D (lp_weights lp') (extract_features D (Some a) obs pid)) ids v \<and>
      lp_weights lp' = lp_weights (feedback D (obs a) lp) \<and> lp_last_evicted lp' = Some v \<and>
      lp_last_features lp' = extract_features D (Some a) obs v \<and> lp_last_total lp' = ao_total_recorded (obs a)) \<and>
    is_first_least (\<lambda>pid. score D (ld_weights ld) (extract_features D (Some a) obs pid)) ids
      (loaded_choose_victim D obs ids ld)"
proof -
  have fb: "lp_observer (feedback D (obs a) lp) = lp_observer lp"
    by (simp add: feedback_def update_weights_def Let_def split: option.split)
  show ?thesis
    using assms
      least_loop_tl [OF assms(2), of "\<lambda>pid. score D (lp_weights (feedback D (obs a) lp)) (extract_features D (Some a) obs pid)"]
      least_loop_tl [OF assms(2), of "\<lambda>pid. score D (ld_weights ld) (extract_features D (Some a) obs pid)"]
    by (simp add: learned_choose_victim_def loaded_choose_victim_def learned_loop_least fb Let_def)
qed

lemma learned_policies_evict_least_score_witness:
  "(case learned_choose_victim int_ops (\<lambda>_. four_seen) [9, 5] (learned_new int_ops (Some 0) 2 1) of (v, lp') \<Rightarrow>
      is_first_least (\<lambda>pid. score int_ops (lp_weights lp') (extract_features int_ops (Some 0) (\<lambda>_. four_seen) pid)) [9, 5] v \<and>
      lp_weights lp' = lp_weights (feedback int_ops four_seen (learned_new int_ops (Some 0) 2 1)) \<and>
      lp_last_evicted lp' = Some v \<and>
      lp_last_features lp' = extract_features int_ops (Some 0) (\<lambda>_. four_seen) v \<and>
      lp_last_total lp' = ao_total_recorded four_seen) \<and>
    is_first_least (\<lambda>pid. score int_ops (ld_weights (loaded_new int_ops (Some 0) None))
        (extract_features int_ops (Some 0) (\<lambda>_. four_seen) pid)) [9, 5]
      (loaded_choose_victim int_ops (\<lambda>_. four_seen) [9, 5] (loaded_new int_ops (Some 0) None))"
  using learned_policies_evict_least_score [of int_ops "[9, 5]" "learned_new int_ops (Some 0) 2 1" 0
      "loaded_new int_ops (Some 0) None" "\<lambda>_. four_seen"]
  by (simp add: int_ops_def learned_new_def loaded_new_def)

text \<open>Arithmetic without rounding.\<close>

definition exact_ops :: "(string \<Rightarrow> ('d \<times> 'd \<times> 'd) option) \<Rightarrow> 'd::linordered_field double_ops" where
  "exact_ops rd = \<lparr>d_of_int = of_int, d_add = (+), d_mul = (*), d_div = (/), d_less = (<), d_read3 = rd\<rparr>"

text \<open>
  In exact arithmetic a feedback step adds the learning rate times the squared length of the features
  to the score of those features when the page was reused (label 1) and subtracts it when it was not
  (label 0); so with a positive rate reused kinds of pages become less likely victims.
\<close>

theorem learned_feedback_moves_score:
  "score (exact_ops rd) (lp_weights (update_weights (exact_ops rd) f (if reused then 1 else 0) lp)) f =
     score (exact_ops rd) (lp_weights lp) f +
     (if reused then 1 else -1) * lp_learning_rate lp *
       (ft_recency f * ft_recency f + ft_count f * ft_count f + ft_scan f * ft_scan f)"
  by (simp add: score_def update_weights_def exact_ops_def Let_def algebra_simps)

lemma feedback_after:
  assumes "lp_last_evicted lp = Some pid" and "lp_last_total lp = word_of_nat (length as)"
    and "unat (lp_feedback_horizon lp) \<le> length bs" and "length as + length bs < 2 ^ 64"
  shows "feedback D (observe_all (as @ bs) (observer_new n)) lp =
    (update_weights D (lp_last_features lp)
       (if pid \<in> set (map fst (last_n (max 1 n) (as @ bs))) then 1 else 0) lp)\<lparr>lp_last_evicted := None\<rparr>"
proof -
  let ?ob = "observe_all (as @ bs) (observer_new n)"
  have ok: "observer_ok ?ob" and cap: "ao_capacity ?ob = max 1 n"
    and win: "window ?ob = map event_of (last_n (max 1 n) (as @ bs))"
    by (simp_all add: observe_all_facts map_last_n)
  have ids: "window_ids ?ob = map fst (last_n (max 1 n) (as @ bs))" by (simp add: win)
  have total: "ao_total_recorded ?ob = word_of_nat (length as + length bs)"
    unfolding observe_all_total by (simp add: observer_new_def Let_def)
  have "unat (lp_last_total lp + lp_feedback_horizon lp) = length as + unat (lp_feedback_horizon lp)"
    using assms(2-4) by (simp add: unat_word_ariths unat_of_nat)
  moreover have "unat (ao_total_recorded ?ob) = length as + length bs"
    unfolding total using assms(4) by (simp add: unat_of_nat del: of_nat_add)
  ultimately have due: "lp_last_total lp + lp_feedback_horizon lp \<le> ao_total_recorded ?ob"
    using assms(3) by (simp add: word_le_nat_alt)
  have "get_last_index_in_recent pid ?ob < ao_capacity ?ob \<longleftrightarrow> pid \<in> set (window_ids ?ob)"
    using index_of_less [of pid "rev (window_ids ?ob)"] length_window [OF ok] observer_okD(3) [OF ok]
    by (auto simp: last_index_window [OF ok])
  then show ?thesis using due assms(1) by (simp add: feedback_def Let_def ids)
qed

text \<open>
  Once the horizon has passed, the evicted page is labelled as reused as soon as it occurs among the
  last \<open>n\<close> accesses, those before its eviction included: a page accessed just before it was evicted and
  never again is labelled as reused while fewer than \<open>n\<close> accesses followed.
\<close>

theorem learned_feedback_counts_accesses_before_eviction:
  assumes "lp_last_evicted lp = Some pid" and "lp_last_total lp = word_of_nat (length (as @ [(pid, hit)]))"
    and "unat (lp_feedback_horizon lp) \<le> length bs" and "length as + 1 + length bs < 2 ^ 64"
    and "pid \<notin> set (map fst bs)" and "length bs < n"
  shows "feedback D (observe_all ((as @ [(pid, hit)]) @ bs) (observer_new n)) lp =
    (update_weights D (lp_last_features lp) 1 lp)\<lparr>lp_last_evicted := None\<rparr>"
proof -
  have "drop (length as + 1 + length bs - n) (as @ (pid, hit) # bs) =
      drop (length as + 1 + length bs - n) as @ (pid, hit) # bs"
    using assms(6) by (auto simp: drop_append diff_Suc split: nat.split)
  then have "pid \<in> set (map fst (last_n (max 1 n) ((as @ [(pid, hit)]) @ bs)))"
    using assms(6) by (simp add: last_n_def max_def)
  then show ?thesis
    using feedback_after [of lp pid "as @ [(pid, hit)]" bs D n] assms by simp
qed

lemma learned_feedback_counts_accesses_before_eviction_witness:
  "feedback int_ops (observe_all (([] @ [(7, True)]) @ [(1, False), (2, False)]) (observer_new 4))
     ((learned_new int_ops (Some 0) 2 1)\<lparr>lp_last_evicted := Some 7, lp_last_total := 1\<rparr>) =
   (update_weights int_ops (zero_features int_ops) 1
     ((learned_new int_ops (Some 0) 2 1)\<lparr>lp_last_evicted := Some 7, lp_last_total := 1\<rparr>))\<lparr>lp_last_evicted := None\<rparr>"
  using learned_feedback_counts_accesses_before_eviction
    [of "(learned_new int_ops (Some 0) 2 1)\<lparr>lp_last_evicted := Some 7, lp_last_total := 1\<rparr>" 7 "[]" True
      "[(1, False), (2, False)]" 4 int_ops]
  by (simp add: learned_new_def)

end
