(* ===== verification/Linked_List.thy ===== *)
theory Linked_List
  imports Prelude
begin

text \<open>
  \<open>std::list\<close> as the two caches of the program use it: a doubly linked list whose iterators stay
  valid while other elements come and go. A node has an identity (a number never used again in the
  list's life), an iterator is that identity, and using an iterator whose node is gone is undefined
  behaviour.
\<close>

type_synonym iter = nat

record 'a dlist =
  dl_fresh :: nat
  dl_nodes :: "(iter \<times> 'a) list"

definition dl_empty :: "'a dlist" where
  "dl_empty = \<lparr>dl_fresh = 0, dl_nodes = []\<rparr>"

definition dl_size :: "'a dlist \<Rightarrow> nat" where
  "dl_size l = length (dl_nodes l)"

definition dl_values :: "'a dlist \<Rightarrow> 'a list" where
  "dl_values l = map snd (dl_nodes l)"

text \<open>\<open>push_front(x)\<close>; afterwards \<open>begin()\<close> is the new node.\<close>

definition dl_push_front :: "'a \<Rightarrow> 'a dlist \<Rightarrow> 'a dlist" where
  "dl_push_front x l = \<lparr>dl_fresh = Suc (dl_fresh l), dl_nodes = (dl_fresh l, x) # dl_nodes l\<rparr>"

definition dl_begin :: "'a dlist \<Rightarrow> iter" where
  "dl_begin l = (case dl_nodes l of [] \<Rightarrow> dl_fresh l | n # _ \<Rightarrow> fst n)"

text \<open>\<open>*it\<close>, \<open>erase(it)\<close>, \<open>splice(begin(), *this, it)\<close> and an assignment through \<open>it\<close>.\<close>

definition dl_deref :: "iter \<Rightarrow> 'a dlist \<Rightarrow> 'a result" where
  "dl_deref it l = (case map_of (dl_nodes l) it of None \<Rightarrow> Inl Undefined | Some x \<Rightarrow> Inr x)"

definition dl_without :: "iter \<Rightarrow> (iter \<times> 'a) list \<Rightarrow> (iter \<times> 'a) list" where
  "dl_without it ns = filter (\<lambda>n. fst n \<noteq> it) ns"

definition dl_erase :: "iter \<Rightarrow> 'a dlist \<Rightarrow> 'a dlist result" where
  "dl_erase it l = bind_result (dl_deref it l)
     (\<lambda>_. Inr (l\<lparr>dl_nodes := dl_without it (dl_nodes l)\<rparr>))"

definition dl_splice_front :: "iter \<Rightarrow> 'a dlist \<Rightarrow> 'a dlist result" where
  "dl_splice_front it l = bind_result (dl_deref it l)
     (\<lambda>x. Inr (l\<lparr>dl_nodes := (it, x) # dl_without it (dl_nodes l)\<rparr>))"

definition dl_assign :: "iter \<Rightarrow> 'a \<Rightarrow> 'a dlist \<Rightarrow> 'a dlist result" where
  "dl_assign it x l = bind_result (dl_deref it l)
     (\<lambda>_. Inr (l\<lparr>dl_nodes := map (\<lambda>n. if fst n = it then (it, x) else n) (dl_nodes l)\<rparr>))"

text \<open>\<open>std::find(begin(), end(), x)\<close>, \<open>None\<close> standing for \<open>end()\<close>.\<close>

definition dl_find :: "'a \<Rightarrow> 'a dlist \<Rightarrow> iter option" where
  "dl_find x l = map_option fst (find (\<lambda>n. snd n = x) (dl_nodes l))"

section \<open>Identities are distinct\<close>

definition dl_ok :: "'a dlist \<Rightarrow> bool" where
  "dl_ok l \<longleftrightarrow> distinct (map fst (dl_nodes l)) \<and> (\<forall>n \<in> set (dl_nodes l). fst n < dl_fresh l)"

lemma dl_ok_empty [simp]: "dl_ok dl_empty"
  by (simp add: dl_ok_def dl_empty_def)

lemma dl_ok_push_front [simp]: "dl_ok l \<Longrightarrow> dl_ok (dl_push_front x l)"
  by (fastforce simp: dl_ok_def dl_push_front_def)

lemma dl_begin_push_front [simp]: "dl_begin (dl_push_front x l) = dl_fresh l"
  by (simp add: dl_begin_def dl_push_front_def)

lemma dl_nodes_push_front [simp]: "dl_nodes (dl_push_front x l) = (dl_fresh l, x) # dl_nodes l"
  by (simp add: dl_push_front_def)

lemma dl_deref_eq: "dl_ok l \<Longrightarrow> dl_deref it l = Inr x \<longleftrightarrow> (it, x) \<in> set (dl_nodes l)"
proof -
  assume "dl_ok l"
  then have "(it, x) \<in> set (dl_nodes l) \<longleftrightarrow> map_of (dl_nodes l) it = Some x"
    by (simp add: dl_ok_def)
  then show ?thesis by (simp add: dl_deref_def split: option.split)
qed

lemma dl_deref_in: "dl_ok l \<Longrightarrow> (it, x) \<in> set (dl_nodes l) \<Longrightarrow> dl_deref it l = Inr x"
  by (simp add: dl_deref_eq)

lemma set_dl_without [simp]: "set (dl_without it ns) = {n \<in> set ns. fst n \<noteq> it}"
  by (simp add: dl_without_def)

lemma distinct_dl_without: "distinct (map fst ns) \<Longrightarrow> distinct (map fst (dl_without it ns))"
  by (simp add: dl_without_def distinct_map_filter)

lemma length_dl_without:
  "distinct (map fst ns) \<Longrightarrow> (it, x) \<in> set ns \<Longrightarrow> Suc (length (dl_without it ns)) = length ns"
proof (induction ns)
  case Nil
  then show ?case by simp
next
  case (Cons n ns)
  show ?case
  proof (cases "fst n = it")
    case True
    with Cons.prems(1) have "\<forall>m \<in> set ns. fst m \<noteq> it" by (auto simp: image_iff)
    then have "dl_without it ns = ns" by (simp add: dl_without_def)
    with True show ?thesis by (simp add: dl_without_def)
  next
    case False
    with Cons have "Suc (length (dl_without it ns)) = length ns" by auto
    with False show ?thesis by (simp add: dl_without_def)
  qed
qed

lemma dl_erase_ok:
  assumes "dl_ok l" and "(it, x) \<in> set (dl_nodes l)"
  shows "dl_erase it l = Inr (l\<lparr>dl_nodes := dl_without it (dl_nodes l)\<rparr>)"
    and "dl_ok (l\<lparr>dl_nodes := dl_without it (dl_nodes l)\<rparr>)"
  using assms by (auto simp: dl_erase_def dl_deref_in dl_ok_def distinct_dl_without)

lemma dl_splice_front_ok:
  assumes "dl_ok l" and "(it, x) \<in> set (dl_nodes l)"
  shows "dl_splice_front it l = Inr (l\<lparr>dl_nodes := (it, x) # dl_without it (dl_nodes l)\<rparr>)"
    and "dl_ok (l\<lparr>dl_nodes := (it, x) # dl_without it (dl_nodes l)\<rparr>)"
  using assms by (auto simp: dl_splice_front_def dl_deref_in dl_ok_def distinct_dl_without)

lemma dl_assign_ok:
  assumes "dl_ok l" and "(it, x) \<in> set (dl_nodes l)"
  shows "dl_assign it y l =
      Inr (l\<lparr>dl_nodes := map (\<lambda>n. if fst n = it then (it, y) else n) (dl_nodes l)\<rparr>)"
    and "dl_ok (l\<lparr>dl_nodes := map (\<lambda>n. if fst n = it then (it, y) else n) (dl_nodes l)\<rparr>)"
proof -
  have "fst \<circ> (\<lambda>n. if fst n = it then (it, y) else n) = fst" by auto
  with assms show "dl_ok (l\<lparr>dl_nodes := map (\<lambda>n. if fst n = it then (it, y) else n) (dl_nodes l)\<rparr>)"
    by (auto simp: dl_ok_def)
qed (use assms in \<open>simp add: dl_assign_def dl_deref_in\<close>)

lemma eq_value_imp_eq_key: "distinct (map snd ns) \<Longrightarrow> (i, x) \<in> set ns \<Longrightarrow> (j, x) \<in> set ns \<Longrightarrow> i = j"
  by (induction ns) (auto simp: image_iff)

lemma dl_find_eq:
  assumes "distinct (dl_values l)" and "(it, x) \<in> set (dl_nodes l)"
  shows "dl_find x l = Some it"
proof -
  have "(it', x) \<in> set ns \<Longrightarrow> distinct (map snd ns) \<Longrightarrow> find (\<lambda>n. snd n = x) ns = Some (it', x)"
    for ns :: "(iter \<times> 'a) list" and it'
    by (induction ns) (auto simp: image_iff)
  with assms show ?thesis by (simp add: dl_find_def dl_values_def)
qed

text \<open>Removing a node removes its value, when values are distinct too.\<close>

lemma dl_without_values:
  assumes "dl_ok l" and "distinct (dl_values l)" and "(it, x) \<in> set (dl_nodes l)"
  shows "map snd (dl_without it (dl_nodes l)) = filter (\<lambda>y. y \<noteq> x) (dl_values l)"
proof -
  have "fst n \<noteq> it \<longleftrightarrow> snd n \<noteq> x" if "n \<in> set (dl_nodes l)" for n
    using assms that unfolding dl_ok_def dl_values_def
    by (metis eq_key_imp_eq_value eq_value_imp_eq_key prod.collapse)
  then have "filter (\<lambda>n. fst n \<noteq> it) (dl_nodes l) = filter (\<lambda>n. snd n \<noteq> x) (dl_nodes l)"
    by (rule filter_cong [OF refl])
  then show ?thesis by (simp add: dl_without_def dl_values_def filter_map o_def)
qed

end
