(* ===== verification/Page_Cache.thy ===== *)
theory Page_Cache
  imports Mapped_File Eviction_Policy Linked_List
begin

text \<open>
  \<open>src/src/storage/page_cache.{h,cpp}\<close> and \<open>page_handle.h\<close>: the buffer pool. The record of the cache
  carries the objects it refers to: the mapped file with the operating system behind it, the store of
  access observers and the policy. Every method runs under the cache's mutex, so it is one atomic step.
\<close>

section \<open>The class\<close>

text \<open>
  \<open>pin_counts_\<close> are \<open>int\<close>s that start at 0 and are only decremented when positive; one would need
  \<open>2\<^sup>3\<^sup>1\<close> live handles to overflow, so they are naturals.
\<close>

record 'p page_cache =
  pc_file :: mapped_file
  pc_os :: os
  pc_observers :: observers
  pc_pool :: "bytes list"
  pc_pin_counts :: "nat list"
  pc_page_map :: "u32 \<rightharpoonup> nat"
  pc_lru_list :: "u32 dlist"
  pc_lru_iters :: "u32 \<rightharpoonup> iter"
  pc_free_frames :: "nat list"
  pc_hits :: nat
  pc_misses :: nat
  pc_observer :: observer_ptr
  pc_policy :: "'p option"

definition cache_new ::
  "mapped_file \<Rightarrow> os \<Rightarrow> observers \<Rightarrow> nat \<Rightarrow> observer_ptr \<Rightarrow> 'p option \<Rightarrow> 'p page_cache" where
  "cache_new file sys obs capacity observer policy =
     \<lparr>pc_file = file, pc_os = sys, pc_observers = obs,
      pc_pool = replicate capacity raw_page_reset, pc_pin_counts = replicate capacity 0,
      pc_page_map = Map.empty, pc_lru_list = dl_empty, pc_lru_iters = Map.empty,
      pc_free_frames = [0..<capacity], pc_hits = 0, pc_misses = 0,
      pc_observer = observer, pc_policy = policy\<rparr>"

text \<open>\<open>page_map_[k]\<close>: the operator inserts 0 for a missing key.\<close>

definition map_index :: "(u32 \<rightharpoonup> nat) \<Rightarrow> u32 \<Rightarrow> nat \<times> (u32 \<rightharpoonup> nat)" where
  "map_index m k = (case m k of Some v \<Rightarrow> (v, m) | None \<Rightarrow> (0, m(k \<mapsto> 0)))"

definition cache_observe :: "u32 \<Rightarrow> bool \<Rightarrow> 'p page_cache \<Rightarrow> 'p page_cache" where
  "cache_observe pid hit pc =
     (case pc_observer pc of None \<Rightarrow> pc
      | Some a \<Rightarrow> pc\<lparr>pc_observers := (pc_observers pc)(a := record_page_access pid hit (pc_observers pc a))\<rparr>)"

text \<open>A default-constructed iterator that is erased is undefined behaviour.\<close>

definition touch_page :: "u32 \<Rightarrow> 'p page_cache \<Rightarrow> 'p page_cache result" where
  "touch_page pid pc =
     (case pc_lru_iters pc pid of None \<Rightarrow> Inl Undefined
      | Some it \<Rightarrow> bind_result (dl_erase it (pc_lru_list pc)) (\<lambda>l.
          let l' = dl_push_front pid l
          in Inr (pc\<lparr>pc_lru_list := l', pc_lru_iters := (pc_lru_iters pc)(pid \<mapsto> dl_begin l')\<rparr>)))"

text \<open>\<open>memcpy\<close> of a frame to the page's place in the mapping.\<close>

definition copy_to_disk :: "u32 \<Rightarrow> nat \<Rightarrow> 'p page_cache \<Rightarrow> 'p page_cache result" where
  "copy_to_disk pid frame pc =
     (if frame < length (pc_pool pc) then
        bind_result (mf_store (pc_file pc) (pc_os pc) (mf_get_page (pc_file pc) pid) (pc_pool pc ! frame))
          (\<lambda>sys. Inr (pc\<lparr>pc_os := sys\<rparr>))
      else Inl Undefined)"

text \<open>The first loop of \<open>evict\<close>, over the list from its back.\<close>

primrec collect_unpinned :: "u32 list \<Rightarrow> nat list \<Rightarrow> (u32 \<rightharpoonup> nat) \<Rightarrow> (u32 list \<times> (u32 \<rightharpoonup> nat)) result" where
  "collect_unpinned [] pins m = Inr ([], m)"
| "collect_unpinned (pid # pids) pins m =
     (let (frame, m1) = map_index m pid
      in if frame < length pins then
           bind_result (collect_unpinned pids pins m1)
             (\<lambda>(us, m2). Inr (if pins ! frame = 0 then pid # us else us, m2))
         else Inl Undefined)"

definition evict ::
  "(workload_hint \<Rightarrow> observers \<Rightarrow> u32 list \<Rightarrow> 'p \<Rightarrow> u32 \<times> 'p) \<Rightarrow> workload_hint \<Rightarrow>
   'p page_cache \<Rightarrow> nat result \<times> 'p page_cache" where
  "evict pick hint pc =
     (case collect_unpinned (rev (dl_values (pc_lru_list pc))) (pc_pin_counts pc) (pc_page_map pc) of
        Inl e \<Rightarrow> (Inl e, pc)
      | Inr (unpinned_lru, m1) \<Rightarrow>
          let pc1 = pc\<lparr>pc_page_map := m1\<rparr>
          in if unpinned_lru = [] then (Inl BufferPoolFull, pc1)
             else
               let (victim, policy) =
                     (case pc_policy pc1 of None \<Rightarrow> (hd unpinned_lru, None)
                      | Some p \<Rightarrow> (let (v, p') = pick hint (pc_observers pc1) unpinned_lru p in (v, Some p')));
                   (frame, m2) = map_index (pc_page_map pc1) victim;
                   pc2 = pc1\<lparr>pc_policy := policy, pc_page_map := m2\<rparr>
               in case (if is_null (mf_get_page (pc_file pc2) victim) then Inr pc2
                        else copy_to_disk victim frame pc2) of
                    Inl e \<Rightarrow> (Inl e, pc2)
                  | Inr pc3 \<Rightarrow>
                      let pc4 = pc3\<lparr>pc_page_map := (pc_page_map pc3)(victim := None),
                                    pc_lru_iters := (pc_lru_iters pc3)(victim := None)\<rparr>
                      in case dl_find victim (pc_lru_list pc4) of
                           None \<Rightarrow> (Inr frame, pc4)
                         | Some it \<Rightarrow>
                             (case dl_erase it (pc_lru_list pc4) of
                                Inl e \<Rightarrow> (Inl e, pc4)
                              | Inr l \<Rightarrow> (Inr frame, pc4\<lparr>pc_lru_list := l\<rparr>)))"

text \<open>The end of \<open>get_page_internal\<close>: the page is read into the frame and entered with one pin.\<close>

definition install_page :: "u32 \<Rightarrow> nat \<Rightarrow> 'p page_cache \<Rightarrow> nat result \<times> 'p page_cache" where
  "install_page pid frame pc =
     (case mf_load (pc_file pc) (pc_os pc) (mf_get_page (pc_file pc) pid) of
        Inl e \<Rightarrow> (Inl e, pc)
      | Inr src \<Rightarrow>
          if frame < length (pc_pool pc) \<and> frame < length (pc_pin_counts pc) then
            let l = dl_push_front pid (pc_lru_list pc)
            in (Inr frame,
                pc\<lparr>pc_pool := (pc_pool pc)[frame := src],
                   pc_page_map := (pc_page_map pc)(pid \<mapsto> frame),
                   pc_lru_list := l, pc_lru_iters := (pc_lru_iters pc)(pid \<mapsto> dl_begin l),
                   pc_pin_counts := (pc_pin_counts pc)[frame := 1]\<rparr>)
          else (Inl Undefined, pc))"

definition get_page_internal ::
  "(workload_hint \<Rightarrow> observers \<Rightarrow> u32 list \<Rightarrow> 'p \<Rightarrow> u32 \<times> 'p) \<Rightarrow> workload_hint \<Rightarrow> u32 \<Rightarrow>
   'p page_cache \<Rightarrow> nat result \<times> 'p page_cache" where
  "get_page_internal pick hint pid pc =
     (if pc_page_map pc pid \<noteq> None then
        let pc1 = cache_observe pid True (pc\<lparr>pc_hits := pc_hits pc + 1\<rparr>)
        in case touch_page pid pc1 of
             Inl e \<Rightarrow> (Inl e, pc1)
           | Inr pc2 \<Rightarrow>
               let (frame, m) = map_index (pc_page_map pc2) pid
               in if frame < length (pc_pin_counts pc2) then
                    (Inr frame, pc2\<lparr>pc_page_map := m,
                       pc_pin_counts := (pc_pin_counts pc2)[frame := pc_pin_counts pc2 ! frame + 1]\<rparr>)
                  else (Inl Undefined, pc2)
      else
        let pc1 = cache_observe pid False (pc\<lparr>pc_misses := pc_misses pc + 1\<rparr>);
            (r, pc2) = (case pc_free_frames pc1 of
                f # fs \<Rightarrow> (Inr f, pc1\<lparr>pc_free_frames := fs\<rparr>)
              | [] \<Rightarrow> evict pick hint pc1)
        in case r of Inl e \<Rightarrow> (Inl e, pc2) | Inr frame_id \<Rightarrow> install_page pid frame_id pc2)"

section \<open>Page handles\<close>

text \<open>\<open>ph_cached\<close> says whether \<open>cache_\<close> is not null, \<open>ph_frame\<close> is the frame the \<open>Page\<close> points to.\<close>

record page_handle =
  ph_cached :: bool
  ph_frame :: nat
  ph_page_id :: u32

definition handle_new :: "nat \<Rightarrow> u32 \<Rightarrow> page_handle" where
  "handle_new frame pid = \<lparr>ph_cached = True, ph_frame = frame, ph_page_id = pid\<rparr>"

declare handle_new_def [simp]

definition handle_default :: "page_handle result" where
  "handle_default = bind_result (page_view (None :: nat option))
     (\<lambda>f. Inr \<lparr>ph_cached = False, ph_frame = f, ph_page_id = 0\<rparr>)"

definition handle_is_valid :: "page_handle \<Rightarrow> bool" where
  "handle_is_valid h = ph_cached h"

definition fetch_page ::
  "(workload_hint \<Rightarrow> observers \<Rightarrow> u32 list \<Rightarrow> 'p \<Rightarrow> u32 \<times> 'p) \<Rightarrow> workload_hint \<Rightarrow> u32 \<Rightarrow>
   'p page_cache \<Rightarrow> page_handle result \<times> 'p page_cache" where
  "fetch_page pick hint pid pc =
     (case get_page_internal pick hint pid pc of
        (Inl e, pc') \<Rightarrow> (Inl e, pc')
      | (Inr f, pc') \<Rightarrow> (Inr (handle_new f pid), pc'))"

definition unpin_page :: "u32 \<Rightarrow> 'p page_cache \<Rightarrow> 'p page_cache" where
  "unpin_page pid pc =
     (case pc_page_map pc pid of None \<Rightarrow> pc
      | Some frame \<Rightarrow>
          if pc_pin_counts pc ! frame > 0 then
            pc\<lparr>pc_pin_counts := (pc_pin_counts pc)[frame := pc_pin_counts pc ! frame - 1]\<rparr>
          else pc)"

text \<open>The destructor, the move constructor (new, other) and the move assignment (this, other).\<close>

definition handle_destroy :: "page_handle \<Rightarrow> 'p page_cache \<Rightarrow> 'p page_cache" where
  "handle_destroy h pc = (if ph_cached h then unpin_page (ph_page_id h) pc else pc)"

definition handle_move :: "page_handle \<Rightarrow> page_handle \<times> page_handle" where
  "handle_move other = (other, other\<lparr>ph_cached := False\<rparr>)"

definition handle_move_assign ::
  "page_handle \<Rightarrow> page_handle \<Rightarrow> 'p page_cache \<Rightarrow> page_handle \<times> page_handle \<times> 'p page_cache" where
  "handle_move_assign self other pc =
     (other, other\<lparr>ph_cached := False\<rparr>, if ph_cached self then unpin_page (ph_page_id self) pc else pc)"

text \<open>Reading and writing the bytes of the page through the handle's \<open>Page\<close>.\<close>

definition handle_read :: "page_handle \<Rightarrow> nat \<Rightarrow> nat \<Rightarrow> 'p page_cache \<Rightarrow> bytes result" where
  "handle_read h off n pc =
     (if ph_frame h < length (pc_pool pc) then load (pc_pool pc ! ph_frame h) off n else Inl Undefined)"

definition handle_write :: "page_handle \<Rightarrow> nat \<Rightarrow> bytes \<Rightarrow> 'p page_cache \<Rightarrow> 'p page_cache result" where
  "handle_write h off src pc =
     (if ph_frame h < length (pc_pool pc) then
        bind_result (memcpy (pc_pool pc ! ph_frame h) off src)
          (\<lambda>p. Inr (pc\<lparr>pc_pool := (pc_pool pc)[ph_frame h := p]\<rparr>))
      else Inl Undefined)"

section \<open>Flushing and counters\<close>

definition flush_page :: "u32 \<Rightarrow> 'p page_cache \<Rightarrow> unit result \<times> 'p page_cache" where
  "flush_page pid pc =
     (case pc_page_map pc pid of None \<Rightarrow> (Inr (), pc)
      | Some frame \<Rightarrow>
          (case copy_to_disk pid frame pc of Inl e \<Rightarrow> (Inl e, pc) | Inr pc' \<Rightarrow> (Inr (), pc')))"

text \<open>\<open>flush_all\<close> visits the entries in the order of the hash table, which is an argument.\<close>

primrec flush_pages :: "u32 list \<Rightarrow> 'p page_cache \<Rightarrow> unit result \<times> 'p page_cache" where
  "flush_pages [] pc = (Inr (), pc)"
| "flush_pages (pid # pids) pc =
     (case pc_page_map pc pid of None \<Rightarrow> flush_pages pids pc
      | Some frame \<Rightarrow>
          if is_null (mf_get_page (pc_file pc) pid) then flush_pages pids pc
          else (case copy_to_disk pid frame pc of
                  Inl e \<Rightarrow> (Inl e, pc)
                | Inr pc' \<Rightarrow> flush_pages pids pc'))"

definition flush_all :: "u32 list \<Rightarrow> bool \<Rightarrow> 'p page_cache \<Rightarrow> unit result \<times> 'p page_cache" where
  "flush_all order msync_ok pc =
     (case flush_pages order pc of
        (Inl e, pc') \<Rightarrow> (Inl e, pc')
      | (Inr _, pc') \<Rightarrow> (mf_flush msync_ok (pc_file pc'), pc'))"

definition get_pin_count_for_test :: "u32 \<Rightarrow> 'p page_cache \<Rightarrow> nat" where
  "get_pin_count_for_test pid pc =
     (case pc_page_map pc pid of None \<Rightarrow> 0 | Some frame \<Rightarrow> pc_pin_counts pc ! frame)"

definition get_hits :: "'p page_cache \<Rightarrow> nat" where
  "get_hits pc = pc_hits pc"

definition get_misses :: "'p page_cache \<Rightarrow> nat" where
  "get_misses pc = pc_misses pc"

definition get_capacity :: "'p page_cache \<Rightarrow> nat" where
  "get_capacity pc = length (pc_pool pc)"

definition cache_size :: "'p page_cache \<Rightarrow> nat" where
  "cache_size pc = card (dom (pc_page_map pc))"

section \<open>Invariant\<close>

text \<open>The recency list, its iterators and the page table name the same pages.\<close>

definition list_ok :: "u32 dlist \<Rightarrow> (u32 \<rightharpoonup> iter) \<Rightarrow> (u32 \<rightharpoonup> nat) \<Rightarrow> bool" where
  "list_ok l iters m \<longleftrightarrow> dl_ok l \<and> distinct (dl_values l) \<and> dom m = set (dl_values l) \<and>
     (\<forall>pid it. iters pid = Some it \<longleftrightarrow> (it, pid) \<in> set (dl_nodes l))"

text \<open>Every frame is either free or holds exactly one page.\<close>

definition frames_ok :: "(u32 \<rightharpoonup> nat) \<Rightarrow> nat list \<Rightarrow> nat \<Rightarrow> bool" where
  "frames_ok m free cap \<longleftrightarrow> distinct free \<and> inj_on m (dom m) \<and> set free \<inter> ran m = {} \<and>
     set free \<union> ran m = {..<cap}"

definition cache_ok :: "'p page_cache \<Rightarrow> bool" where
  "cache_ok pc \<longleftrightarrow> mf_ok (pc_file pc) (pc_os pc) \<and> length (pc_pin_counts pc) = length (pc_pool pc) \<and>
     (\<forall>p \<in> set (pc_pool pc). length p = PAGE_SIZE) \<and>
     list_ok (pc_lru_list pc) (pc_lru_iters pc) (pc_page_map pc) \<and>
     frames_ok (pc_page_map pc) (pc_free_frames pc) (length (pc_pool pc)) \<and>
     (\<forall>pid \<in> dom (pc_page_map pc). pid < mf_page_count (pc_file pc))"

text \<open>The content of a page as the cache's clients see it, whether it is cached or on disk.\<close>

definition disk_page :: "'p page_cache \<Rightarrow> u32 \<Rightarrow> bytes" where
  "disk_page pc pid = page_at (os_content (pc_os pc) (mf_path (pc_file pc))) (unat pid)"

definition cache_view :: "'p page_cache \<Rightarrow> u32 \<Rightarrow> bytes" where
  "cache_view pc pid = (case pc_page_map pc pid of Some f \<Rightarrow> pc_pool pc ! f | None \<Rightarrow> disk_page pc pid)"

text \<open>
  The file behind the pool may differ after an operation only where a page was written back: its length is
  the same, and every page of it is as before or as the clients see it.
\<close>

definition disk_bytes :: "'p page_cache \<Rightarrow> bytes" where
  "disk_bytes pc = os_content (pc_os pc) (mf_path (pc_file pc))"

definition same_disk :: "'p page_cache \<Rightarrow> 'p page_cache \<Rightarrow> bool" where
  "same_disk pc pc' \<longleftrightarrow> length (disk_bytes pc') = length (disk_bytes pc) \<and>
     (\<forall>i. page_at (disk_bytes pc') i = page_at (disk_bytes pc) i \<or>
        (i < unat (mf_page_count (pc_file pc)) \<and> page_at (disk_bytes pc') i = cache_view pc (word_of_nat i)))"

lemma same_disk_os: "pc_os pc' = pc_os pc \<Longrightarrow> pc_file pc' = pc_file pc \<Longrightarrow> same_disk pc pc'"
  by (simp add: same_disk_def disk_bytes_def)

lemma same_disk_os_right:
  "pc_os pc2 = pc_os pc1 \<Longrightarrow> pc_file pc2 = pc_file pc1 \<Longrightarrow> same_disk pc pc2 = same_disk pc pc1"
  by (simp add: same_disk_def disk_bytes_def)

lemma same_disk_trans:
  assumes "same_disk a b" and "same_disk b c" and "\<And>q. cache_view b q = cache_view a q"
    and "pc_file b = pc_file a"
  shows "same_disk a c"
  using assms unfolding same_disk_def by metis

abbreviation pins :: "'p page_cache \<Rightarrow> u32 \<Rightarrow> nat" where
  "pins pc pid \<equiv> get_pin_count_for_test pid pc"

lemma list_okD:
  assumes "list_ok l iters m"
  shows "dl_ok l" "distinct (dl_values l)" "dom m = set (dl_values l)"
    "iters pid = Some it \<longleftrightarrow> (it, pid) \<in> set (dl_nodes l)"
  using assms by (auto simp: list_ok_def)

lemma list_ok_find:
  assumes "list_ok l iters m" and "m pid = Some f"
  obtains it where "iters pid = Some it" "(it, pid) \<in> set (dl_nodes l)"
proof -
  have "pid \<in> set (dl_values l)" using assms list_okD(3) by blast
  then obtain it where "(it, pid) \<in> set (dl_nodes l)" by (auto simp: dl_values_def)
  with that list_okD(4) [OF assms(1)] show thesis by blast
qed

lemma list_ok_insert:
  assumes "list_ok l iters m" and "m pid = None"
  shows "list_ok (dl_push_front pid l) (iters(pid \<mapsto> dl_begin (dl_push_front pid l))) (m(pid \<mapsto> f))"
proof -
  note d = list_okD [OF assms(1)]
  have new: "pid \<notin> set (dl_values l)" using assms(2) d(3) by blast
  then have "(it, pid) \<notin> set (dl_nodes l)" for it by (force simp: dl_values_def)
  with new d show ?thesis
    by (auto simp: list_ok_def dl_values_def)
qed

lemma list_ok_remove:
  assumes "list_ok l iters m" and "(it, pid) \<in> set (dl_nodes l)"
  defines "l' \<equiv> l\<lparr>dl_nodes := dl_without it (dl_nodes l)\<rparr>"
  shows "dl_erase it l = Inr l'" and "list_ok l' (iters(pid := None)) (m(pid := None))"
    and "dl_values l' = filter (\<lambda>q. q \<noteq> pid) (dl_values l)"
proof -
  note d = list_okD [OF assms(1)]
  show "dl_erase it l = Inr l'" unfolding l'_def by (rule dl_erase_ok [OF d(1) assms(2)])
  show vals: "dl_values l' = filter (\<lambda>q. q \<noteq> pid) (dl_values l)"
    using dl_without_values [OF d(1,2) assms(2)] by (simp add: l'_def dl_values_def)
  have "dl_ok l'" unfolding l'_def by (rule dl_erase_ok(2) [OF d(1) assms(2)])
  moreover have "(j, q) \<in> set (dl_nodes l') \<longleftrightarrow> q \<noteq> pid \<and> (j, q) \<in> set (dl_nodes l)" for j q
    using d(1,2) assms(2) unfolding l'_def dl_ok_def dl_values_def
    by (auto dest: eq_value_imp_eq_key eq_key_imp_eq_value)
  ultimately show "list_ok l' (iters(pid := None)) (m(pid := None))"
    using d vals by (auto simp: list_ok_def)
qed

lemma frames_ok_release:
  assumes "frames_ok m free cap" and "m pid = Some f"
  shows "frames_ok (m(pid := None)) (f # free) cap"
proof -
  have "ran (m(pid := None)) = ran m - {f}"
    using assms by (auto simp: frames_ok_def ran_def inj_on_def dom_def) (metis option.inject)
  moreover have "f \<in> ran m" using assms(2) by (rule ranI)
  ultimately show ?thesis
    using assms by (auto simp: frames_ok_def inj_on_def)
qed

lemma frames_ok_occupy:
  assumes "frames_ok m (f # free) cap" and "m pid = None"
  shows "frames_ok (m(pid \<mapsto> f)) free cap"
proof -
  have "ran (m(pid \<mapsto> f)) = insert f (ran m)" using assms(2) by simp
  moreover have "f \<notin> ran m" using assms(1) by (auto simp: frames_ok_def)
  moreover have "inj_on (m(pid \<mapsto> f)) (dom (m(pid \<mapsto> f)))"
    using assms \<open>f \<notin> ran m\<close> by (auto simp: frames_ok_def inj_on_def ran_def)
  ultimately show ?thesis using assms by (auto simp: frames_ok_def)
qed

lemma frames_ok_less: "frames_ok m free cap \<Longrightarrow> m pid = Some f \<Longrightarrow> f < cap"
  by (auto simp: frames_ok_def dest: ranI)

lemma frames_ok_inj: "frames_ok m free cap \<Longrightarrow> m p = Some f \<Longrightarrow> m q = Some f \<Longrightarrow> p = q"
  by (auto simp: frames_ok_def inj_on_def dom_def)

lemma cache_okD:
  assumes "cache_ok pc"
  shows "mf_ok (pc_file pc) (pc_os pc)" "length (pc_pin_counts pc) = length (pc_pool pc)"
    "f < length (pc_pool pc) \<Longrightarrow> length (pc_pool pc ! f) = 4096"
    "list_ok (pc_lru_list pc) (pc_lru_iters pc) (pc_page_map pc)"
    "frames_ok (pc_page_map pc) (pc_free_frames pc) (length (pc_pool pc))"
    "pc_page_map pc pid = Some g \<Longrightarrow> pid < mf_page_count (pc_file pc)"
    "pc_page_map pc pid = Some g \<Longrightarrow> g < length (pc_pool pc)"
  using assms by (auto simp: cache_ok_def dest: frames_ok_less)

lemma cache_ok_new:
  assumes "mf_ok file sys"
  shows "cache_ok (cache_new file sys obs cap observer policy)"
    and "cache_view (cache_new file sys obs cap observer policy) pid = page_at (os_content sys (mf_path file)) (unat pid)"
    and "pins (cache_new file sys obs cap observer policy) pid = 0"
  using assms
  by (auto simp: cache_ok_def cache_new_def list_ok_def frames_ok_def dl_values_def dl_empty_def dl_ok_def
      cache_view_def disk_page_def get_pin_count_for_test_def)

section \<open>Taking a frame\<close>

lemma cache_observe_simps [simp]:
  "pc_file (cache_observe p h pc) = pc_file pc" "pc_os (cache_observe p h pc) = pc_os pc"
  "pc_pool (cache_observe p h pc) = pc_pool pc" "pc_pin_counts (cache_observe p h pc) = pc_pin_counts pc"
  "pc_page_map (cache_observe p h pc) = pc_page_map pc" "pc_lru_list (cache_observe p h pc) = pc_lru_list pc"
  "pc_lru_iters (cache_observe p h pc) = pc_lru_iters pc" "pc_free_frames (cache_observe p h pc) = pc_free_frames pc"
  "pc_hits (cache_observe p h pc) = pc_hits pc" "pc_misses (cache_observe p h pc) = pc_misses pc"
  "pc_observer (cache_observe p h pc) = pc_observer pc" "pc_policy (cache_observe p h pc) = pc_policy pc"
  by (simp_all add: cache_observe_def split: option.split)

definition unpinned :: "'p page_cache \<Rightarrow> u32 list" where
  "unpinned pc = filter (\<lambda>pid. pins pc pid = 0) (rev (dl_values (pc_lru_list pc)))"

lemma collect_unpinned_eq:
  assumes "\<forall>p \<in> set pids. \<exists>f. m p = Some f \<and> f < length ps"
  shows "collect_unpinned pids ps m = Inr (filter (\<lambda>p. ps ! the (m p) = 0) pids, m)"
  using assms by (induction pids) (auto simp: map_index_def)

lemma collect_unpinned_ok:
  assumes ok: "cache_ok pc"
  shows "collect_unpinned (rev (dl_values (pc_lru_list pc))) (pc_pin_counts pc) (pc_page_map pc) =
    Inr (unpinned pc, pc_page_map pc)"
proof -
  have cached: "\<exists>f. pc_page_map pc p = Some f \<and> f < length (pc_pin_counts pc)"
    if "p \<in> set (dl_values (pc_lru_list pc))" for p
    using that list_okD(3) [OF cache_okD(4) [OF ok]] cache_okD(2,7) [OF ok] by force
  have "filter (\<lambda>p. pc_pin_counts pc ! the (pc_page_map pc p) = 0) (rev (dl_values (pc_lru_list pc))) = unpinned pc"
    unfolding unpinned_def by (rule filter_cong) (use cached in \<open>force simp: get_pin_count_for_test_def\<close>)+
  then show ?thesis using cached by (simp add: collect_unpinned_eq)
qed

lemma unpinned_iff:
  assumes "cache_ok pc"
  shows "p \<in> set (unpinned pc) \<longleftrightarrow> pc_page_map pc p \<noteq> None \<and> pins pc p = 0"
  using list_okD(3) [OF cache_okD(4) [OF assms]] by (auto simp: unpinned_def)

lemma page_map_same [simp]: "pc\<lparr>pc_page_map := pc_page_map pc\<rparr> = pc"
  by simp

lemma copy_to_disk_ok:
  assumes ok: "cache_ok pc" and cached: "pc_page_map pc v = Some f"
  shows "copy_to_disk v f pc = Inr (pc\<lparr>pc_os := os_write (mf_path (pc_file pc))
      (mwrite (os_content (pc_os pc) (mf_path (pc_file pc))) (4096 * unat v) (pc_pool pc ! f)) (pc_os pc)\<rparr>)"
  using mf_store_page [OF cache_okD(1) [OF ok] cache_okD(6) [OF ok cached]] cache_okD(3,7) [OF ok] cached
  by (simp add: copy_to_disk_def)

lemma cache_ok_store:
  assumes ok: "cache_ok pc" and cached: "pc_page_map pc v = Some f"
  defines "pc' \<equiv> pc\<lparr>pc_os := os_write (mf_path (pc_file pc))
      (mwrite (os_content (pc_os pc) (mf_path (pc_file pc))) (4096 * unat v) (pc_pool pc ! f)) (pc_os pc)\<rparr>"
  shows "cache_ok pc'"
    and "disk_page pc' q = (if q = v then pc_pool pc ! f else disk_page pc q)"
    and "mf_ok (pc_file pc') (pc_os pc')"
proof -
  have v: "v < mf_page_count (pc_file pc)" and len: "length (pc_pool pc ! f) = 4096"
    using cache_okD(3,6,7) [OF ok] cached by auto
  have size: "4096 * Suc (unat v) \<le> length (os_content (pc_os pc) (mf_path (pc_file pc)))"
    by (rule mf_get_page_ok(3) [OF cache_okD(1) [OF ok] v])
  show mf: "mf_ok (pc_file pc') (pc_os pc')"
    unfolding pc'_def using cache_okD(1) [OF ok] len size by (simp add: mf_ok_def)
  with ok show "cache_ok pc'" by (simp add: cache_ok_def pc'_def)
  show "disk_page pc' q = (if q = v then pc_pool pc ! f else disk_page pc q)"
    unfolding pc'_def disk_page_def using len size by (simp add: page_at_mwrite word_unat_eq_iff)
qed

text \<open>A frame was taken: it is held by no page, no client sees a difference, pinned pages stay.\<close>

definition took_frame :: "'p page_cache \<Rightarrow> 'p page_cache \<Rightarrow> nat \<Rightarrow> bool" where
  "took_frame pc pc' frame \<longleftrightarrow> cache_ok (pc'\<lparr>pc_free_frames := frame # pc_free_frames pc'\<rparr>) \<and>
     pc_file pc' = pc_file pc \<and> pc_pool pc' = pc_pool pc \<and> pc_pin_counts pc' = pc_pin_counts pc \<and>
     (\<forall>q. cache_view pc' q = cache_view pc q) \<and> same_disk pc pc' \<and>
     (\<forall>q. pc_page_map pc' q = pc_page_map pc q \<or> (pc_page_map pc' q = None \<and> pins pc q = 0))"

lemma took_frame_pins: "took_frame pc pc' f \<Longrightarrow> pins pc' q = pins pc q"
proof -
  assume t: "took_frame pc pc' f"
  then have "pc_page_map pc' q = pc_page_map pc q \<or> (pc_page_map pc' q = None \<and> pins pc q = 0)"
    by (simp add: took_frame_def)
  moreover have "pc_pin_counts pc' = pc_pin_counts pc" using t by (simp add: took_frame_def)
  ultimately show ?thesis by (elim disjE) (auto simp: get_pin_count_for_test_def split: option.split)
qed

text \<open>The victim: the least recently used unpinned page, or the one the policy chose.\<close>

definition victim_of ::
  "(workload_hint \<Rightarrow> observers \<Rightarrow> u32 list \<Rightarrow> 'p \<Rightarrow> u32 \<times> 'p) \<Rightarrow> workload_hint \<Rightarrow>
   'p page_cache \<Rightarrow> u32 \<times> 'p option" where
  "victim_of pick hint pc = (case pc_policy pc of None \<Rightarrow> (hd (unpinned pc), None)
     | Some p \<Rightarrow> (let (v, p') = pick hint (pc_observers pc) (unpinned pc) p in (v, Some p')))"

context page_eviction_policy
begin

lemma evict_full:
  assumes ok: "cache_ok pc" and full: "unpinned pc = []"
  shows "evict pick hint pc = (Inl BufferPoolFull, pc)"
  by (simp add: evict_def collect_unpinned_ok [OF ok] full Let_def)

lemma victim_unpinned: "unpinned pc \<noteq> [] \<Longrightarrow> fst (victim_of pick hint pc) \<in> set (unpinned pc)"
  using victim_is_candidate [of "unpinned pc" hint "pc_observers pc"]
  by (auto simp: victim_of_def split: option.splits prod.splits) (metis fst_conv)

lemma evict_victim:
  fixes hint
  assumes ok: "cache_ok pc" and some: "unpinned pc \<noteq> []"
  defines "v \<equiv> fst (victim_of pick hint pc)"
  obtains f pc' where "evict pick hint pc = (Inr f, pc')" "pc_page_map pc v = Some f" "took_frame pc pc' f"
    "pc_page_map pc' = (pc_page_map pc)(v := None)"
    "dl_values (pc_lru_list pc') = filter (\<lambda>q. q \<noteq> v) (dl_values (pc_lru_list pc))"
    "pc_free_frames pc' = pc_free_frames pc" "pc_policy pc' = snd (victim_of pick hint pc)"
proof -
  have v: "v \<in> set (unpinned pc)" unfolding v_def by (rule victim_unpinned [OF some])
  then obtain f where f: "pc_page_map pc v = Some f" and pin: "pins pc v = 0"
    using unpinned_iff [OF ok] by auto
  obtain it where it: "pc_lru_iters pc v = Some it" "(it, v) \<in> set (dl_nodes (pc_lru_list pc))"
    using list_ok_find [OF cache_okD(4) [OF ok] f] by blast
  note rem = list_ok_remove [OF cache_okD(4) [OF ok] it(2)]
  have found: "dl_find v (pc_lru_list pc) = Some it"
    using list_okD(2) [OF cache_okD(4) [OF ok]] it(2) by (rule dl_find_eq)
  have nn: "\<not> is_null (mf_get_page (pc_file pc) v)"
    by (rule not_null_ok [OF cache_okD(1) [OF ok] cache_okD(6) [OF ok f]])
  let ?pol = "snd (victim_of pick hint pc)"
  let ?os = "os_write (mf_path (pc_file pc))
      (mwrite (os_content (pc_os pc) (mf_path (pc_file pc))) (4096 * unat v) (pc_pool pc ! f)) (pc_os pc)"
  let ?pc' = "pc\<lparr>pc_policy := ?pol, pc_os := ?os, pc_page_map := (pc_page_map pc)(v := None),
      pc_lru_iters := (pc_lru_iters pc)(v := None),
      pc_lru_list := (pc_lru_list pc)\<lparr>dl_nodes := dl_without it (dl_nodes (pc_lru_list pc))\<rparr>\<rparr>"
  have ok2: "cache_ok (pc\<lparr>pc_policy := ?pol\<rparr>)" using ok by (simp add: cache_ok_def)
  have chosen: "(case pc_policy pc of None \<Rightarrow> (hd (unpinned pc), None)
      | Some p \<Rightarrow> (let (v, p') = pick hint (pc_observers pc) (unpinned pc) p in (v, Some p'))) = (v, ?pol)"
    by (simp add: v_def victim_of_def)
  have "evict pick hint pc = (Inr f, ?pc')"
    using copy_to_disk_ok [OF ok2, of v f] rem(1) some f nn found
    by (simp add: evict_def collect_unpinned_ok [OF ok] chosen map_index_def Let_def [of pc]
        Let_def [of "fst x" for x] Let_def [of "snd x" for x] Let_def [of "x\<lparr>pc_policy := y\<rparr>" for x y]
        Let_def [of "x\<lparr>pc_lru_iters := y\<rparr>" for x y])
  moreover have "took_frame pc ?pc' f"
  proof -
    note st = cache_ok_store [OF ok f]
    have "frames_ok ((pc_page_map pc)(v := None)) (f # pc_free_frames pc) (length (pc_pool pc))"
      by (rule frames_ok_release [OF cache_okD(5) [OF ok] f])
    then have "cache_ok (?pc'\<lparr>pc_free_frames := f # pc_free_frames ?pc'\<rparr>)"
      using ok st(3) rem(2) by (auto simp: cache_ok_def)
    moreover have "cache_view ?pc' q = cache_view pc q" for q
      by (cases "q = v") (use st(2) [of q] f in \<open>simp_all add: cache_view_def disk_page_def split: option.split\<close>)
    moreover have "same_disk pc ?pc'"
    proof -
      have "v < mf_page_count (pc_file pc)" "length (pc_pool pc ! f) = 4096"
        using cache_okD(3,6,7) [OF ok] f by auto
      moreover from this(1) have "4096 * Suc (unat v) \<le> length (disk_bytes pc)"
        unfolding disk_bytes_def by (rule mf_get_page_ok(3) [OF cache_okD(1) [OF ok]])
      ultimately show ?thesis
        using f by (auto simp: same_disk_def disk_bytes_def page_at_mwrite cache_view_def word_less_nat_alt)
    qed
    ultimately show ?thesis using pin by (simp add: took_frame_def)
  qed
  ultimately show thesis
    by (intro that [of f ?pc']) (use f rem(3) in \<open>simp_all add: dl_values_def\<close>)
qed

end

section \<open>Fetching a page\<close>

lemma core_cong:
  assumes "pc_file pc' = pc_file pc" "pc_os pc' = pc_os pc" "pc_pool pc' = pc_pool pc"
    "pc_pin_counts pc' = pc_pin_counts pc" "pc_page_map pc' = pc_page_map pc"
    "pc_lru_list pc' = pc_lru_list pc" "pc_lru_iters pc' = pc_lru_iters pc"
    "pc_free_frames pc' = pc_free_frames pc"
  shows "cache_ok pc' = cache_ok pc" "cache_view pc' q = cache_view pc q" "pins pc' q = pins pc q"
    "unpinned pc' = unpinned pc" "disk_page pc' q = disk_page pc q"
  using assms
  by (simp_all add: cache_ok_def cache_view_def disk_page_def unpinned_def get_pin_count_for_test_def
      cong: option.case_cong)

lemma took_free_frame:
  assumes "cache_ok pc" and "pc_free_frames pc = f # fs"
  shows "took_frame pc (pc\<lparr>pc_free_frames := fs\<rparr>) f"
proof -
  have "pc\<lparr>pc_free_frames := f # fs\<rparr> = pc" using assms(2) by simp
  with assms(1) show ?thesis
    by (simp add: took_frame_def cache_view_def disk_page_def same_disk_os cong: option.case_cong)
qed

text \<open>
  A fetch: the page is in frame \<open>f\<close> with one more pin, no page has changed its content, and no pinned
  page has left its frame.
\<close>

definition fetched :: "'p page_cache \<Rightarrow> 'p page_cache \<Rightarrow> u32 \<Rightarrow> nat \<Rightarrow> bool" where
  "fetched pc pc' pid f \<longleftrightarrow> cache_ok pc' \<and> pc_file pc' = pc_file pc \<and>
     length (pc_pool pc') = length (pc_pool pc) \<and> pc_page_map pc' pid = Some f \<and>
     (\<forall>q. cache_view pc' q = cache_view pc q) \<and> same_disk pc pc' \<and>
     (\<forall>q. pins pc' q = pins pc q + (if q = pid then 1 else 0)) \<and>
     (\<forall>q. 0 < pins pc q \<longrightarrow> pc_page_map pc' q = pc_page_map pc q)"

text \<open>A fetch that finds every frame pinned changes nothing but the counters.\<close>

definition pool_full :: "'p page_cache \<Rightarrow> 'p page_cache \<Rightarrow> u32 \<Rightarrow> bool" where
  "pool_full pc pc' pid \<longleftrightarrow> cache_ok pc' \<and> pc_file pc' = pc_file pc \<and> pc_pool pc' = pc_pool pc \<and>
     pc_page_map pc' = pc_page_map pc \<and> pc_page_map pc pid = None \<and> pc_free_frames pc = [] \<and>
     unpinned pc = [] \<and> (\<forall>q. cache_view pc' q = cache_view pc q) \<and> (\<forall>q. pins pc' q = pins pc q) \<and>
     same_disk pc pc'"

lemma install_page_ok:
  assumes took: "took_frame pc pc1 f" and new: "pc_page_map pc pid = None"
    and pid: "pid < mf_page_count (pc_file pc)"
  shows "\<exists>pc'. install_page pid f pc1 = (Inr f, pc') \<and> fetched pc pc' pid f \<and>
    dl_values (pc_lru_list pc') = pid # dl_values (pc_lru_list pc1) \<and>
    pc_page_map pc' = (pc_page_map pc1)(pid \<mapsto> f) \<and> pc_policy pc' = pc_policy pc1"
proof -
  let ?r = "pc1\<lparr>pc_free_frames := f # pc_free_frames pc1\<rparr>"
  have ok: "cache_ok ?r" and fl: "pc_file pc1 = pc_file pc" and pool: "pc_pool pc1 = pc_pool pc"
    and pin: "pc_pin_counts pc1 = pc_pin_counts pc" and view: "\<And>q. cache_view pc1 q = cache_view pc q"
    and map1: "\<And>q. pc_page_map pc1 q = pc_page_map pc q \<or> (pc_page_map pc1 q = None \<and> pins pc q = 0)"
    using took by (auto simp: took_frame_def)
  have new1: "pc_page_map pc1 pid = None" using map1 [of pid] new by auto
  have fr: "frames_ok (pc_page_map pc1) (f # pc_free_frames pc1) (length (pc_pool pc1))"
    and li: "list_ok (pc_lru_list pc1) (pc_lru_iters pc1) (pc_page_map pc1)"
    and mf: "mf_ok (pc_file pc1) (pc_os pc1)"
    and len: "length (pc_pin_counts pc1) = length (pc_pool pc1)"
    using cache_okD [OF ok] by simp_all
  have f: "f < length (pc_pool pc1)" using fr by (auto simp: frames_ok_def)
  have other: "g \<noteq> f" if "pc_page_map pc1 q = Some g" for q g
    using fr that by (auto simp: frames_ok_def dest: ranI)
  let ?l = "dl_push_front pid (pc_lru_list pc1)"
  let ?pc' = "pc1\<lparr>pc_pool := (pc_pool pc1)[f := disk_page pc1 pid],
      pc_page_map := (pc_page_map pc1)(pid \<mapsto> f), pc_lru_list := ?l,
      pc_lru_iters := (pc_lru_iters pc1)(pid \<mapsto> dl_begin ?l),
      pc_pin_counts := (pc_pin_counts pc1)[f := 1]\<rparr>"
  have call: "install_page pid f pc1 = (Inr f, ?pc')"
    using mf_load_page [OF mf, of pid] pid fl f len
    by (simp add: install_page_def disk_page_def Let_def)
  have page: "length (disk_page pc1 pid) = 4096"
    unfolding disk_page_def using mf_get_page_ok(3) [OF mf, of pid] pid fl by (intro length_page_at) simp
  have "cache_ok ?pc'"
    using ok page pid fl frames_ok_occupy [OF fr new1] list_ok_insert [OF li new1, of f]
    by (auto simp: cache_ok_def dest!: set_update_subset_insert [THEN subsetD])
  moreover have "cache_view ?pc' q = cache_view pc q" for q
  proof (cases "q = pid")
    case True
    then show ?thesis using view [of pid] new1 f by (simp add: cache_view_def)
  next
    case False
    then show ?thesis
      using view [of q] other [of q] by (auto simp: cache_view_def disk_page_def split: option.splits)
  qed
  moreover have "pins ?pc' q = pins pc q + (if q = pid then 1 else 0)" for q
  proof (cases "q = pid")
    case True
    then show ?thesis using new f len by (simp add: get_pin_count_for_test_def)
  next
    case False
    then have "pins ?pc' q = pins pc1 q"
      using other [of q] by (auto simp: get_pin_count_for_test_def split: option.splits)
    with False took_frame_pins [OF took] show ?thesis by simp
  qed
  moreover have "pc_page_map ?pc' q = pc_page_map pc q" if "0 < pins pc q" for q
    using that map1 [of q] new by (auto simp: get_pin_count_for_test_def)
  moreover have "same_disk pc ?pc'"
    using took by (subst same_disk_os_right [of _ pc1]) (simp_all add: took_frame_def)
  ultimately have "fetched pc ?pc' pid f"
    by (simp add: fetched_def fl pool)
  with call show ?thesis
    by (intro exI [of _ ?pc']) (simp add: dl_values_def)
qed

lemma touch_page_ok:
  assumes ok: "cache_ok pc" and cached: "pc_page_map pc pid = Some f"
  shows "\<exists>pc'. touch_page pid pc = Inr pc' \<and> cache_ok pc' \<and>
    dl_values (pc_lru_list pc') = pid # filter (\<lambda>q. q \<noteq> pid) (dl_values (pc_lru_list pc)) \<and>
    pc' = pc\<lparr>pc_lru_list := pc_lru_list pc', pc_lru_iters := pc_lru_iters pc'\<rparr>"
proof -
  obtain it where it: "pc_lru_iters pc pid = Some it" "(it, pid) \<in> set (dl_nodes (pc_lru_list pc))"
    using list_ok_find [OF cache_okD(4) [OF ok] cached] by blast
  note rem = list_ok_remove [OF cache_okD(4) [OF ok] it(2)]
  let ?l = "(pc_lru_list pc)\<lparr>dl_nodes := dl_without it (dl_nodes (pc_lru_list pc))\<rparr>"
  let ?l' = "dl_push_front pid ?l"
  let ?pc' = "pc\<lparr>pc_lru_list := ?l', pc_lru_iters := (pc_lru_iters pc)(pid \<mapsto> dl_begin ?l')\<rparr>"
  have call: "touch_page pid pc = Inr ?pc'"
    using it(1) rem(1) by (simp add: touch_page_def Let_def)
  have "list_ok ?l' (((pc_lru_iters pc)(pid := None))(pid \<mapsto> dl_begin ?l')) (((pc_page_map pc)(pid := None))(pid \<mapsto> f))"
    by (rule list_ok_insert [OF rem(2)]) simp
  moreover have "(pc_page_map pc)(pid \<mapsto> f) = pc_page_map pc" using cached by (simp add: fun_upd_idem)
  ultimately have "list_ok ?l' ((pc_lru_iters pc)(pid \<mapsto> dl_begin ?l')) (pc_page_map pc)" by simp
  with ok have "cache_ok ?pc'" by (simp add: cache_ok_def)
  with call rem(3) show ?thesis by (intro exI [of _ ?pc']) (simp add: dl_values_def)
qed

lemma fetch_hit:
  assumes ok: "cache_ok pc" and cached: "pc_page_map pc pid = Some f"
  shows "\<exists>pc'. fetch_page pick hint pid pc = (Inr \<lparr>ph_cached = True, ph_frame = f, ph_page_id = pid\<rparr>, pc') \<and>
    fetched pc pc' pid f \<and> pc_page_map pc' = pc_page_map pc \<and>
    dl_values (pc_lru_list pc') = pid # filter (\<lambda>q. q \<noteq> pid) (dl_values (pc_lru_list pc)) \<and>
    pc_policy pc' = pc_policy pc"
proof -
  let ?pc1 = "cache_observe pid True (pc\<lparr>pc_hits := pc_hits pc + 1\<rparr>)"
  have ok1: "cache_ok ?pc1" using ok by (subst core_cong(1) [of _ pc]) simp_all
  obtain pc2 where t: "touch_page pid ?pc1 = Inr pc2" "cache_ok pc2"
    "dl_values (pc_lru_list pc2) = pid # filter (\<lambda>q. q \<noteq> pid) (dl_values (pc_lru_list pc))"
    "pc2 = ?pc1\<lparr>pc_lru_list := pc_lru_list pc2, pc_lru_iters := pc_lru_iters pc2\<rparr>"
    using touch_page_ok [OF ok1, of pid f] cached by auto
  have f: "f < length (pc_pool pc)" and len: "length (pc_pin_counts pc) = length (pc_pool pc)"
    using cache_okD(2,7) [OF ok] cached by auto
  have same: "pc_file pc2 = pc_file pc" "pc_os pc2 = pc_os pc" "pc_pool pc2 = pc_pool pc"
    "pc_pin_counts pc2 = pc_pin_counts pc" "pc_page_map pc2 = pc_page_map pc" "pc_policy pc2 = pc_policy pc"
    by (subst t(4), simp)+
  let ?pc' = "pc2\<lparr>pc_pin_counts := (pc_pin_counts pc)[f := pc_pin_counts pc ! f + 1]\<rparr>"
  have call: "fetch_page pick hint pid pc = (Inr \<lparr>ph_cached = True, ph_frame = f, ph_page_id = pid\<rparr>, ?pc')"
    using cached t(1) same f len by (simp add: fetch_page_def get_page_internal_def Let_def map_index_def)
  have "cache_ok ?pc'" using t(2) by (simp add: cache_ok_def same)
  moreover have "cache_view ?pc' q = cache_view pc q" for q
    by (simp add: cache_view_def disk_page_def same cong: option.case_cong)
  moreover have "pins ?pc' q = pins pc q + (if q = pid then 1 else 0)" for q
  proof -
    have "g \<noteq> f" if "pc_page_map pc q = Some g" "q \<noteq> pid" for g
      using frames_ok_inj [OF cache_okD(5) [OF ok] cached] that by blast
    then show ?thesis
      using cached f len by (cases "pc_page_map pc q") (auto simp: get_pin_count_for_test_def same nth_list_update)
  qed
  ultimately have "fetched pc ?pc' pid f" by (simp add: fetched_def same cached same_disk_os)
  with call t(3) same show ?thesis by (intro exI [of _ ?pc']) simp
qed

lemma fetch_miss_frame:
  assumes ok: "cache_ok pc" and new: "pc_page_map pc pid = None" and pid: "pid < mf_page_count (pc_file pc)"
    and taken: "(case pc_free_frames pc1 of f # fs \<Rightarrow> (Inr f, pc1\<lparr>pc_free_frames := fs\<rparr>)
       | [] \<Rightarrow> evict pick hint pc1) = (Inr f, pc2)"
    and pc1: "pc1 = cache_observe pid False (pc\<lparr>pc_misses := Suc (pc_misses pc)\<rparr>)"
    and took: "took_frame pc1 pc2 f"
  shows "\<exists>pc'. fetch_page pick hint pid pc = (Inr \<lparr>ph_cached = True, ph_frame = f, ph_page_id = pid\<rparr>, pc') \<and>
    fetched pc pc' pid f \<and> dl_values (pc_lru_list pc') = pid # dl_values (pc_lru_list pc2) \<and>
    pc_page_map pc' = (pc_page_map pc2)(pid \<mapsto> f) \<and> pc_policy pc' = pc_policy pc2"
proof -
  have same: "cache_view pc1 q = cache_view pc q" "pins pc1 q = pins pc q" for q
    unfolding pc1 by (subst core_cong [of _ pc], simp_all)+
  obtain pc' where i: "install_page pid f pc2 = (Inr f, pc')" "fetched pc1 pc' pid f"
    "dl_values (pc_lru_list pc') = pid # dl_values (pc_lru_list pc2)"
    "pc_page_map pc' = (pc_page_map pc2)(pid \<mapsto> f)" "pc_policy pc' = pc_policy pc2"
    using install_page_ok [OF took, of pid] new pid by (auto simp: pc1)
  have "get_page_internal pick hint pid pc = install_page pid f pc2"
    using new taken by (simp add: get_page_internal_def pc1 [symmetric] Let_def)
  then have "fetch_page pick hint pid pc = (Inr \<lparr>ph_cached = True, ph_frame = f, ph_page_id = pid\<rparr>, pc')"
    using i(1) by (simp add: fetch_page_def)
  moreover have "same_disk pc pc'"
  proof -
    have "same_disk pc1 pc'" using i(2) by (simp add: fetched_def)
    moreover have "same_disk pc pc1" "pc_file pc1 = pc_file pc" by (simp_all add: pc1 same_disk_os)
    ultimately show ?thesis using same(1) by (auto intro: same_disk_trans)
  qed
  then have "fetched pc pc' pid f"
    using i(2) same by (simp add: fetched_def) (simp add: pc1)
  ultimately show ?thesis using i by blast
qed

context page_eviction_policy
begin

lemma fetch_miss_full:
  assumes ok: "cache_ok pc" and new: "pc_page_map pc pid = None"
    and full: "pc_free_frames pc = []" "unpinned pc = []"
  shows "\<exists>pc'. fetch_page pick hint pid pc = (Inl BufferPoolFull, pc') \<and> pool_full pc pc' pid"
proof -
  let ?pc1 = "cache_observe pid False (pc\<lparr>pc_misses := Suc (pc_misses pc)\<rparr>)"
  have same: "cache_ok ?pc1 = cache_ok pc" "cache_view ?pc1 q = cache_view pc q" "pins ?pc1 q = pins pc q"
    "unpinned ?pc1 = unpinned pc" for q
    by (rule core_cong; simp)+
  have "evict pick hint ?pc1 = (Inl BufferPoolFull, ?pc1)"
    by (rule evict_full) (use same ok full in simp_all)
  then have "fetch_page pick hint pid pc = (Inl BufferPoolFull, ?pc1)"
    using new full by (simp add: fetch_page_def get_page_internal_def Let_def)
  moreover have "pool_full pc ?pc1 pid"
    using ok new full by (simp add: pool_full_def same same_disk_os)
  ultimately show ?thesis by blast
qed

lemma fetch_miss_evict:
  assumes ok: "cache_ok pc" and new: "pc_page_map pc pid = None" and pid: "pid < mf_page_count (pc_file pc)"
    and none: "pc_free_frames pc = []" and some: "unpinned pc \<noteq> []"
  shows "\<exists>f pc1 pc' v. fetch_page pick hint pid pc = (Inr \<lparr>ph_cached = True, ph_frame = f, ph_page_id = pid\<rparr>, pc') \<and>
    fetched pc pc' pid f \<and> unpinned pc1 = unpinned pc \<and> pc_policy pc1 = pc_policy pc \<and>
    v = fst (victim_of pick hint pc1) \<and>
    pc_page_map pc' = (pc_page_map pc)(v := None, pid \<mapsto> f) \<and>
    dl_values (pc_lru_list pc') = pid # filter (\<lambda>q. q \<noteq> v) (dl_values (pc_lru_list pc)) \<and>
    pc1 = cache_observe pid False (pc\<lparr>pc_misses := Suc (pc_misses pc)\<rparr>) \<and> pc_policy pc' = snd (victim_of pick hint pc1)"
proof -
  define pc1 where "pc1 = cache_observe pid False (pc\<lparr>pc_misses := Suc (pc_misses pc)\<rparr>)"
  have same: "cache_ok pc1 = cache_ok pc" "unpinned pc1 = unpinned pc"
    unfolding pc1_def by (rule core_cong; simp)+
  obtain f pc2 where e: "evict pick hint pc1 = (Inr f, pc2)" "took_frame pc1 pc2 f"
    "pc_page_map pc2 = (pc_page_map pc1)(fst (victim_of pick hint pc1) := None)"
    "dl_values (pc_lru_list pc2) = filter (\<lambda>q. q \<noteq> fst (victim_of pick hint pc1)) (dl_values (pc_lru_list pc1))"
    "pc_policy pc2 = snd (victim_of pick hint pc1)"
    using evict_victim [of pc1 hint] ok some unfolding same by blast
  have "(case pc_free_frames pc1 of f # fs \<Rightarrow> (Inr f, pc1\<lparr>pc_free_frames := fs\<rparr>)
       | [] \<Rightarrow> evict pick hint pc1) = (Inr f, pc2)"
    using none e(1) by (simp add: pc1_def)
  from fetch_miss_frame [OF ok new pid this pc1_def e(2)] obtain pc' where
    "fetch_page pick hint pid pc = (Inr \<lparr>ph_cached = True, ph_frame = f, ph_page_id = pid\<rparr>, pc')"
    "fetched pc pc' pid f" "dl_values (pc_lru_list pc') = pid # dl_values (pc_lru_list pc2)"
    "pc_page_map pc' = (pc_page_map pc2)(pid \<mapsto> f)" "pc_policy pc' = pc_policy pc2" by blast
  then show ?thesis
    using e(3-5) same(2)
    by (intro exI [of _ f] exI [of _ pc1] exI [of _ pc'] exI [of _ "fst (victim_of pick hint pc1)"])
       (simp add: pc1_def)
qed

lemma fetch_page_ok:
  assumes ok: "cache_ok pc" and pid: "pid < mf_page_count (pc_file pc)"
  shows "(\<exists>f pc'. fetch_page pick hint pid pc = (Inr \<lparr>ph_cached = True, ph_frame = f, ph_page_id = pid\<rparr>, pc') \<and>
      fetched pc pc' pid f) \<or>
    (\<exists>pc'. fetch_page pick hint pid pc = (Inl BufferPoolFull, pc') \<and> pool_full pc pc' pid)"
proof (cases "pc_page_map pc pid")
  case (Some f)
  then show ?thesis using fetch_hit [OF ok Some, of pick hint] by blast
next
  case None
  show ?thesis
  proof (cases "pc_free_frames pc")
    case Nil
    then show ?thesis
      using fetch_miss_full [OF ok None Nil, of hint] fetch_miss_evict [OF ok None pid Nil, of hint] by blast
  next
    case (Cons f fs)
    let ?pc1 = "cache_observe pid False (pc\<lparr>pc_misses := Suc (pc_misses pc)\<rparr>)"
    have "cache_ok ?pc1" using ok by (subst core_cong(1) [of _ pc]) simp_all
    then have "took_frame ?pc1 (?pc1\<lparr>pc_free_frames := fs\<rparr>) f"
      by (rule took_free_frame) (simp add: Cons)
    then show ?thesis
      using fetch_miss_frame [OF ok None pid _ refl, where f = f and ?pc2.0 = "?pc1\<lparr>pc_free_frames := fs\<rparr>" and pick = pick and hint = hint]
        Cons by auto
  qed
qed

end

text \<open>
  The observer sees the access before anything else happens, and nothing afterwards; the access is counted as a hit
  or a miss.
\<close>

definition counters :: "'p page_cache \<Rightarrow> observers \<times> observer_ptr \<times> nat \<times> nat" where
  "counters pc = (pc_observers pc, pc_observer pc, pc_hits pc, pc_misses pc)"

lemma counters_update [simp]:
  "counters (pc\<lparr>pc_page_map := m\<rparr>) = counters pc" "counters (pc\<lparr>pc_policy := p\<rparr>) = counters pc"
  "counters (pc\<lparr>pc_lru_list := l\<rparr>) = counters pc" "counters (pc\<lparr>pc_lru_iters := i\<rparr>) = counters pc"
  "counters (pc\<lparr>pc_os := sys\<rparr>) = counters pc"
  by (simp_all add: counters_def)

lemma touch_page_counters: "touch_page pid pc = Inr pc' \<Longrightarrow> counters pc' = counters pc"
  by (auto simp: touch_page_def bind_result_def Let_def split: option.splits sum.splits)

lemma copy_to_disk_counters: "copy_to_disk pid frame pc = Inr pc' \<Longrightarrow> counters pc' = counters pc"
  by (auto simp: copy_to_disk_def bind_result_def split: if_splits sum.splits)

lemma evict_counters: "counters (snd (evict pick hint pc)) = counters pc"
  by (simp add: evict_def Let_def split: sum.split prod.split option.split) (auto dest: copy_to_disk_counters split: if_splits)

lemma fetch_page_counters:
  "counters (snd (fetch_page pick hint pid pc)) =
     (let hit = (pc_page_map pc pid \<noteq> None)
      in counters (cache_observe pid hit (if hit then pc\<lparr>pc_hits := pc_hits pc + 1\<rparr> else pc\<lparr>pc_misses := pc_misses pc + 1\<rparr>)))"
proof -
  have install: "counters (snd (install_page pid f q)) = counters q" for f and q :: "'a page_cache"
    by (auto simp: install_page_def Let_def counters_def split: sum.split)
  have "counters (snd (get_page_internal pick hint pid pc)) =
     (let hit = (pc_page_map pc pid \<noteq> None)
      in counters (cache_observe pid hit (if hit then pc\<lparr>pc_hits := pc_hits pc + 1\<rparr> else pc\<lparr>pc_misses := pc_misses pc + 1\<rparr>)))"
  proof (cases "pc_page_map pc pid")
    case (Some f)
    let ?pc1 = "cache_observe pid True (pc\<lparr>pc_hits := pc_hits pc + 1\<rparr>)"
    show ?thesis
    proof (cases "touch_page pid ?pc1")
      case (Inl e)
      then show ?thesis using Some by (simp add: get_page_internal_def Let_def)
    next
      case (Inr pc2)
      have "counters (snd (get_page_internal pick hint pid pc)) = counters pc2"
        using Some Inr by (auto simp: get_page_internal_def Let_def counters_def split: prod.split)
      then show ?thesis using touch_page_counters [OF Inr] Some by simp
    qed
  next
    case None
    let ?pc1 = "cache_observe pid False (pc\<lparr>pc_misses := pc_misses pc + 1\<rparr>)"
    define x where "x = (case pc_free_frames ?pc1 of f # fs \<Rightarrow> (Inr f, ?pc1\<lparr>pc_free_frames := fs\<rparr>) | [] \<Rightarrow> evict pick hint ?pc1)"
    have "counters (snd x) = counters ?pc1"
      using evict_counters [of pick hint ?pc1] by (simp add: x_def counters_def split: list.split)
    moreover have "get_page_internal pick hint pid pc =
        (case fst x of Inl e \<Rightarrow> (Inl e, snd x) | Inr frame_id \<Rightarrow> install_page pid frame_id (snd x))"
      using None unfolding get_page_internal_def Let_def x_def [symmetric] by (simp add: case_prod_unfold)
    ultimately show ?thesis using None install by (auto split: sum.split)
  qed
  moreover have "snd (fetch_page pick hint pid pc) = snd (get_page_internal pick hint pid pc)"
    by (simp add: fetch_page_def split: prod.split sum.split)
  ultimately show ?thesis by simp
qed

text \<open>Every frame is free or holds a page of the recency list.\<close>

lemma free_frames_count:
  assumes "cache_ok pc"
  shows "length (pc_free_frames pc) + length (dl_values (pc_lru_list pc)) = length (pc_pool pc)"
proof -
  let ?m = "pc_page_map pc"
  have fr: "frames_ok ?m (pc_free_frames pc) (length (pc_pool pc))" and li: "distinct (dl_values (pc_lru_list pc))"
    "dom ?m = set (dl_values (pc_lru_list pc))"
    using cache_okD(5) [OF assms] list_okD(2,3) [OF cache_okD(4) [OF assms]] by simp_all
  have fin: "finite (dom ?m)" using li(2) by simp
  have "card (ran ?m) = card (dom ?m)"
  proof -
    have "ran ?m = (the \<circ> ?m) ` dom ?m" by (force simp: ran_def dom_def)
    moreover have "inj_on (the \<circ> ?m) (dom ?m)" using frames_ok_inj [OF fr] by (auto intro!: inj_onI)
    ultimately show ?thesis by (simp only: card_image)
  qed
  moreover have "card (set (pc_free_frames pc) \<union> ran ?m) = card (set (pc_free_frames pc)) + card (ran ?m)"
    using fr fin by (intro card_Un_disjoint) (auto simp: frames_ok_def finite_ran)
  moreover have "set (pc_free_frames pc) \<union> ran ?m = {..<length (pc_pool pc)}" "distinct (pc_free_frames pc)"
    using fr by (simp_all add: frames_ok_def)
  ultimately show ?thesis using li by (simp add: distinct_card)
qed

section \<open>Handles, writes and flushes\<close>

lemma unpin_page_ok:
  assumes ok: "cache_ok pc"
  shows "cache_ok (unpin_page pid pc)" "cache_view (unpin_page pid pc) q = cache_view pc q"
    "pins (unpin_page pid pc) q = (if q = pid then pins pc q - 1 else pins pc q)"
    "pc_page_map (unpin_page pid pc) = pc_page_map pc" "pc_file (unpin_page pid pc) = pc_file pc"
    "pc_pool (unpin_page pid pc) = pc_pool pc" "pc_os (unpin_page pid pc) = pc_os pc"
proof -
  show "cache_ok (unpin_page pid pc)"
    using ok by (auto simp: unpin_page_def cache_ok_def split: option.split)
  show "cache_view (unpin_page pid pc) q = cache_view pc q"
    by (auto simp: unpin_page_def cache_view_def disk_page_def split: option.split)
  show "pins (unpin_page pid pc) q = (if q = pid then pins pc q - 1 else pins pc q)"
  proof (cases "pc_page_map pc pid")
    case None
    then show ?thesis by (simp add: unpin_page_def get_pin_count_for_test_def)
  next
    case (Some f)
    have "f < length (pc_pin_counts pc)" using cache_okD(2,7) [OF ok] Some by simp
    moreover have "g \<noteq> f" if "pc_page_map pc q = Some g" "q \<noteq> pid" for g
      using frames_ok_inj [OF cache_okD(5) [OF ok] Some] that by blast
    ultimately show ?thesis
      using Some by (cases "pc_page_map pc q") (auto simp: unpin_page_def get_pin_count_for_test_def nth_list_update)
  qed
qed (auto simp: unpin_page_def split: option.split)

lemma handle_read_ok:
  assumes ok: "cache_ok pc" and at: "pc_page_map pc (ph_page_id h) = Some (ph_frame h)" and n: "off + n \<le> 4096"
  shows "handle_read h off n pc = Inr (mread (cache_view pc (ph_page_id h)) off n)"
  using cache_okD(3,7) [OF ok] at n by (simp add: handle_read_def cache_view_def)

lemma handle_write_ok:
  assumes ok: "cache_ok pc" and at: "pc_page_map pc (ph_page_id h) = Some (ph_frame h)"
    and n: "off + length src \<le> 4096"
  shows "\<exists>pc'. handle_write h off src pc = Inr pc' \<and> cache_ok pc' \<and> pc_file pc' = pc_file pc \<and>
    length (pc_pool pc') = length (pc_pool pc) \<and> pc_page_map pc' = pc_page_map pc \<and>
    (\<forall>q. pins pc' q = pins pc q) \<and>
    (\<forall>q. cache_view pc' q = (if q = ph_page_id h then mwrite (cache_view pc q) off src else cache_view pc q))"
proof -
  let ?f = "ph_frame h"
  let ?pc' = "pc\<lparr>pc_pool := (pc_pool pc)[?f := mwrite (pc_pool pc ! ?f) off src]\<rparr>"
  have f: "?f < length (pc_pool pc)" and len: "length (pc_pool pc ! ?f) = 4096"
    using cache_okD(3,7) [OF ok] at by auto
  have "cache_ok ?pc'"
    using ok len n by (auto simp: cache_ok_def dest!: set_update_subset_insert [THEN subsetD])
  moreover have "cache_view ?pc' q = (if q = ph_page_id h then mwrite (cache_view pc q) off src else cache_view pc q)" for q
  proof -
    have "g \<noteq> ?f" if "pc_page_map pc q = Some g" "q \<noteq> ph_page_id h" for g
      using frames_ok_inj [OF cache_okD(5) [OF ok] at] that by blast
    then show ?thesis
      using at f by (cases "pc_page_map pc q") (auto simp: cache_view_def disk_page_def)
  qed
  ultimately show ?thesis
    using f len n
    by (intro exI [of _ ?pc']) (simp add: handle_write_def get_pin_count_for_test_def cong: option.case_cong)
qed

text \<open>A flush changes the disk only.\<close>

definition disk_only :: "'p page_cache \<Rightarrow> 'p page_cache \<Rightarrow> bool" where
  "disk_only pc pc' \<longleftrightarrow> pc' = pc\<lparr>pc_os := pc_os pc'\<rparr> \<and> cache_ok pc' \<and>
     (\<forall>q. cache_view pc' q = cache_view pc q) \<and>
     (\<forall>q. disk_page pc' q = disk_page pc q \<or> disk_page pc' q = cache_view pc q)"

lemma disk_only_simps:
  assumes "disk_only pc pc'"
  shows "pc_file pc' = pc_file pc" "pc_pool pc' = pc_pool pc" "pc_page_map pc' = pc_page_map pc"
    "pc_pin_counts pc' = pc_pin_counts pc" "cache_view pc' q = cache_view pc q" "pins pc' q = pins pc q"
    "cache_ok pc'" "pc_lru_list pc' = pc_lru_list pc"
proof -
  have eq: "pc' = pc\<lparr>pc_os := pc_os pc'\<rparr>" using assms by (simp add: disk_only_def)
  show "pc_file pc' = pc_file pc" "pc_pool pc' = pc_pool pc" "pc_page_map pc' = pc_page_map pc"
    "pc_pin_counts pc' = pc_pin_counts pc" "pc_lru_list pc' = pc_lru_list pc"
    by (subst eq, simp)+
  then show "pins pc' q = pins pc q" by (simp add: get_pin_count_for_test_def cong: option.case_cong)
qed (use assms in \<open>unfold disk_only_def, blast+\<close>)

lemma disk_only_refl: "cache_ok pc \<Longrightarrow> disk_only pc pc"
  by (simp add: disk_only_def)

lemma disk_only_trans:
  assumes "disk_only a b" and "disk_only b c"
  shows "disk_only a c"
proof -
  obtain x where c: "c = b\<lparr>pc_os := x\<rparr>" using assms(2) unfolding disk_only_def by blast
  obtain y where b: "b = a\<lparr>pc_os := y\<rparr>" using assms(1) unfolding disk_only_def by blast
  have "c = a\<lparr>pc_os := pc_os c\<rparr>" by (simp add: c b)
  moreover have "cache_view c q = cache_view a q" for q
    using disk_only_simps(5) [OF assms(1)] disk_only_simps(5) [OF assms(2)] by simp
  moreover have "disk_page c q = disk_page a q \<or> disk_page c q = cache_view a q" for q
    using assms disk_only_simps(5) [OF assms(1)] unfolding disk_only_def by metis
  ultimately show ?thesis
    unfolding disk_only_def using disk_only_simps(7) [OF assms(2)] by blast
qed

lemma disk_only_settled:
  assumes "disk_only pc pc'" and "disk_page pc q = cache_view pc q"
  shows "disk_page pc' q = cache_view pc q"
  using assms unfolding disk_only_def by metis

lemma uncached_settled: "pc_page_map pc q = None \<Longrightarrow> disk_page pc q = cache_view pc q"
  by (simp add: cache_view_def)

lemma copy_to_disk_disk_only:
  assumes ok: "cache_ok pc" and cached: "pc_page_map pc pid = Some f"
  shows "\<exists>pc'. copy_to_disk pid f pc = Inr pc' \<and> disk_only pc pc' \<and> disk_page pc' pid = cache_view pc pid"
proof -
  note st = cache_ok_store [OF ok cached]
  let ?pc' = "pc\<lparr>pc_os := os_write (mf_path (pc_file pc))
      (mwrite (os_content (pc_os pc) (mf_path (pc_file pc))) (4096 * unat pid) (pc_pool pc ! f)) (pc_os pc)\<rparr>"
  have "cache_view ?pc' q = cache_view pc q" for q
    using st(2) [of q] cached by (cases "pc_page_map pc q") (auto simp: cache_view_def)
  moreover have page: "disk_page ?pc' q = (if q = pid then cache_view pc pid else disk_page pc q)" for q
    using st(2) [of q] cached by (simp add: cache_view_def)
  ultimately have "disk_only pc ?pc'"
    using st(1) unfolding disk_only_def by simp
  with copy_to_disk_ok [OF ok cached] page [of pid] show ?thesis by auto
qed

lemma flush_page_ok:
  assumes ok: "cache_ok pc"
  shows "\<exists>pc'. flush_page pid pc = (Inr (), pc') \<and> disk_only pc pc' \<and> disk_page pc' pid = cache_view pc pid"
proof (cases "pc_page_map pc pid")
  case None
  then show ?thesis using disk_only_refl [OF ok] uncached_settled [OF None] by (simp add: flush_page_def)
next
  case (Some f)
  then show ?thesis using copy_to_disk_disk_only [OF ok Some] by (auto simp: flush_page_def)
qed

lemma flush_pages_ok:
  assumes "cache_ok pc"
  shows "\<exists>pc'. flush_pages order pc = (Inr (), pc') \<and> disk_only pc pc' \<and>
    (\<forall>q \<in> set order. disk_page pc' q = cache_view pc q)"
  using assms
proof (induction order arbitrary: pc)
  case Nil
  then show ?case by (simp add: disk_only_refl)
next
  case (Cons pid pids)
  have "\<exists>pc1. flush_pages (pid # pids) pc = flush_pages pids pc1 \<and> disk_only pc pc1 \<and>
      disk_page pc1 pid = cache_view pc pid"
  proof (cases "pc_page_map pc pid")
    case None
    then show ?thesis using disk_only_refl [OF Cons.prems] uncached_settled [OF None] by auto
  next
    case (Some f)
    have "\<not> is_null (mf_get_page (pc_file pc) pid)"
      by (rule not_null_ok [OF cache_okD(1) [OF Cons.prems] cache_okD(6) [OF Cons.prems Some]])
    then show ?thesis using copy_to_disk_disk_only [OF Cons.prems Some] Some by auto
  qed
  then obtain pc1 where c: "flush_pages (pid # pids) pc = flush_pages pids pc1" "disk_only pc pc1"
    "disk_page pc1 pid = cache_view pc pid" by blast
  obtain pc2 where f: "flush_pages pids pc1 = (Inr (), pc2)" "disk_only pc1 pc2"
    "\<forall>q \<in> set pids. disk_page pc2 q = cache_view pc1 q"
    using Cons.IH [OF disk_only_simps(7) [OF c(2)]] by blast
  have "disk_page pc2 pid = cache_view pc pid"
    using disk_only_settled [OF f(2), of pid] c(3) disk_only_simps(5) [OF c(2)] by simp
  then show ?case
    using c(1) f disk_only_trans [OF c(2) f(2)] disk_only_simps(5) [OF c(2)] by auto
qed

text \<open>After \<open>flush_all\<close> every page of the file is on disk as the clients see it.\<close>

lemma flush_all_ok:
  assumes "cache_ok pc" and "set order = dom (pc_page_map pc)"
  shows "\<exists>pc'. flush_all order msync_ok pc = (mf_flush msync_ok (pc_file pc), pc') \<and> disk_only pc pc' \<and>
    (\<forall>q. disk_page pc' q = cache_view pc q)"
proof -
  obtain pc' where f: "flush_pages order pc = (Inr (), pc')" "disk_only pc pc'"
    "\<forall>q \<in> set order. disk_page pc' q = cache_view pc q"
    using flush_pages_ok [OF assms(1)] by blast
  have "disk_page pc' q = cache_view pc q" for q
  proof (cases "q \<in> set order")
    case False
    then have "pc_page_map pc q = None" using assms(2) by auto
    then show ?thesis using disk_only_settled [OF f(2)] uncached_settled by blast
  qed (use f(3) in blast)
  with f(1,2) show ?thesis by (simp add: flush_all_def disk_only_simps)
qed

end
