(* ===== verification/Page_Cache_Clients.thy ===== *)
theory Page_Cache_Clients
  imports Page_Cache
begin

text \<open>
  What the buffer pool promises its clients. A client program is a sequence of atomic operations, each
  by any thread: fetches, reads and writes through handles, moves and destructions of handles, flushes.
  The specification is an array of pages without any cache. Every trace of the cache, under every policy
  that chooses a candidate, is a trace of the array.
\<close>

section \<open>Operations and their visible outcomes\<close>

text \<open>
  Handles are named by their position in the list of all handles created so far. \<open>MoveAssign i j\<close> is
  \<open>handle i = std::move(handle j)\<close>; \<open>MoveNew j\<close> constructs a new handle from \<open>handle j\<close>.
\<close>

datatype cache_op =
    Fetch workload_hint u32
  | ReadAt nat nat nat
  | WriteAt nat nat bytes
  | Drop nat
  | MoveAssign nat nat
  | MoveNew nat
  | FlushPage u32
  | FlushAll bool

datatype cache_out = Done | Data bytes | Failed error

definition out_of :: "unit result \<Rightarrow> cache_out" where
  "out_of r = (case r of Inl e \<Rightarrow> Failed e | Inr _ \<Rightarrow> Done)"

text \<open>
  One step of the cache with its handles. Clients fetch pages of the file, use handles that are valid,
  and stay inside the page; \<open>flush_all\<close> visits the entries in any order.
\<close>

inductive cache_step ::
  "(workload_hint \<Rightarrow> observers \<Rightarrow> u32 list \<Rightarrow> 'p \<Rightarrow> u32 \<times> 'p) \<Rightarrow>
   'p page_cache \<times> page_handle list \<Rightarrow> cache_op \<Rightarrow> cache_out \<Rightarrow>
   'p page_cache \<times> page_handle list \<Rightarrow> bool" for pick where
  fetch: "pid < mf_page_count (pc_file pc) \<Longrightarrow> fetch_page pick hint pid pc = (Inr h, pc') \<Longrightarrow>
     cache_step pick (pc, hs) (Fetch hint pid) Done (pc', hs @ [h])"
| fetch_failed: "pid < mf_page_count (pc_file pc) \<Longrightarrow> fetch_page pick hint pid pc = (Inl e, pc') \<Longrightarrow>
     cache_step pick (pc, hs) (Fetch hint pid) (Failed e) (pc', hs)"
| read: "i < length hs \<Longrightarrow> ph_cached (hs ! i) \<Longrightarrow> off + n \<le> PAGE_SIZE \<Longrightarrow>
     handle_read (hs ! i) off n pc = r \<Longrightarrow>
     cache_step pick (pc, hs) (ReadAt i off n) (case r of Inl e \<Rightarrow> Failed e | Inr b \<Rightarrow> Data b) (pc, hs)"
| write_failed: "i < length hs \<Longrightarrow> ph_cached (hs ! i) \<Longrightarrow> off + length src \<le> PAGE_SIZE \<Longrightarrow>
     handle_write (hs ! i) off src pc = Inl e \<Longrightarrow>
     cache_step pick (pc, hs) (WriteAt i off src) (Failed e) (pc, hs)"
| write_ok: "i < length hs \<Longrightarrow> ph_cached (hs ! i) \<Longrightarrow> off + length src \<le> PAGE_SIZE \<Longrightarrow>
     handle_write (hs ! i) off src pc = Inr pc' \<Longrightarrow>
     cache_step pick (pc, hs) (WriteAt i off src) Done (pc', hs)"
| drop: "i < length hs \<Longrightarrow>
     cache_step pick (pc, hs) (Drop i) Done
       (handle_destroy (hs ! i) pc, hs[i := (hs ! i)\<lparr>ph_cached := False\<rparr>])"
| move_assign: "i < length hs \<Longrightarrow> j < length hs \<Longrightarrow> i \<noteq> j \<Longrightarrow>
     handle_move_assign (hs ! i) (hs ! j) pc = (a, b, pc') \<Longrightarrow>
     cache_step pick (pc, hs) (MoveAssign i j) Done (pc', hs[i := a, j := b])"
| move_new: "j < length hs \<Longrightarrow> handle_move (hs ! j) = (a, b) \<Longrightarrow>
     cache_step pick (pc, hs) (MoveNew j) Done (pc, hs[j := b] @ [a])"
| flush_page: "flush_page pid pc = (r, pc') \<Longrightarrow>
     cache_step pick (pc, hs) (FlushPage pid) (out_of r) (pc', hs)"
| flush_all: "set order = dom (pc_page_map pc) \<Longrightarrow> flush_all order msync_ok pc = (r, pc') \<Longrightarrow>
     cache_step pick (pc, hs) (FlushAll msync_ok) (out_of r) (pc', hs)"

text \<open>The array of pages; an open handle is its page id, a dead one is \<open>None\<close>.\<close>

inductive array_step ::
  "nat \<Rightarrow> (u32 \<Rightarrow> bytes) \<times> u32 option list \<Rightarrow> cache_op \<Rightarrow> cache_out \<Rightarrow>
   (u32 \<Rightarrow> bytes) \<times> u32 option list \<Rightarrow> bool" for cap where
  a_fetch: "array_step cap (pg, hs) (Fetch hint pid) Done (pg, hs @ [Some pid])"
| a_full: "Some pid \<notin> set hs \<Longrightarrow> cap \<le> card {q. Some q \<in> set hs} \<Longrightarrow>
     array_step cap (pg, hs) (Fetch hint pid) (Failed BufferPoolFull) (pg, hs)"
| a_read: "i < length hs \<Longrightarrow> hs ! i = Some q \<Longrightarrow>
     array_step cap (pg, hs) (ReadAt i off n) (Data (mread (pg q) off n)) (pg, hs)"
| a_write: "i < length hs \<Longrightarrow> hs ! i = Some q \<Longrightarrow>
     array_step cap (pg, hs) (WriteAt i off src) Done (pg(q := mwrite (pg q) off src), hs)"
| a_drop: "array_step cap (pg, hs) (Drop i) Done (pg, hs[i := None])"
| a_move_assign: "j < length hs \<Longrightarrow>
     array_step cap (pg, hs) (MoveAssign i j) Done (pg, hs[i := hs ! j, j := None])"
| a_move_new: "j < length hs \<Longrightarrow>
     array_step cap (pg, hs) (MoveNew j) Done (pg, hs[j := None] @ [hs ! j])"
| a_flush_page: "array_step cap (pg, hs) (FlushPage pid) Done (pg, hs)"
| a_flush_all: "out \<in> {Done, Failed MsyncFailed} \<Longrightarrow>
     array_step cap (pg, hs) (FlushAll msync_ok) out (pg, hs)"

inductive_cases cache_stepE: "cache_step pick (pc, hs) oper out s'"

text \<open>Runs with their traces of operations and outcomes.\<close>

inductive cache_run for pick where
  cache_run_nil: "cache_run pick s [] s"
| cache_run_step: "cache_run pick s tr s' \<Longrightarrow> cache_step pick s' oper out s'' \<Longrightarrow>
     cache_run pick s (tr @ [(oper, out)]) s''"

inductive array_run for cap where
  array_run_nil: "array_run cap s [] s"
| array_run_step: "array_run cap s tr s' \<Longrightarrow> array_step cap s' oper out s'' \<Longrightarrow>
     array_run cap s (tr @ [(oper, out)]) s''"

section \<open>The simulation\<close>

definition handle_page :: "page_handle \<Rightarrow> u32 option" where
  "handle_page h = (if ph_cached h then Some (ph_page_id h) else None)"

text \<open>
  The invariant: each live handle points to the frame of its page, and the pin count of a page is the
  number of its live handles.
\<close>

definition handles_ok :: "'p page_cache \<Rightarrow> page_handle list \<Rightarrow> bool" where
  "handles_ok pc hs \<longleftrightarrow> cache_ok pc \<and>
     (\<forall>h \<in> set hs. ph_cached h \<longrightarrow> pc_page_map pc (ph_page_id h) = Some (ph_frame h)) \<and>
     (\<forall>q. pins pc q = count_list (map handle_page hs) (Some q))"

definition sim :: "nat \<Rightarrow> 'p page_cache \<times> page_handle list \<Rightarrow> (u32 \<Rightarrow> bytes) \<times> u32 option list \<Rightarrow> bool" where
  "sim cap s a \<longleftrightarrow> handles_ok (fst s) (snd s) \<and> length (pc_pool (fst s)) = cap \<and>
     fst a = cache_view (fst s) \<and> snd a = map handle_page (snd s)"

lemma count_list_update:
  "i < length xs \<Longrightarrow> count_list (xs[i := y]) z + (if xs ! i = z then 1 else 0) =
     count_list xs z + (if y = z then 1 else 0)"
proof (induction xs arbitrary: i)
  case Nil
  then show ?case by simp
next
  case (Cons x xs)
  show ?case
  proof (cases i)
    case (Suc k)
    then show ?thesis using Cons.IH [of k] Cons.prems by auto
  qed (use Cons in auto)
qed

lemma count_update_None:
  "i < length xs \<Longrightarrow> count_list (xs[i := None]) (Some q) = count_list xs (Some q) - (if xs ! i = Some q then 1 else 0)"
  using count_list_update [of i xs None "Some q"] by (auto split: if_splits)

lemma set_update_at: "x \<in> set (xs[i := y]) \<Longrightarrow> x = y \<or> x \<in> set xs"
  using set_update_subset_insert [of xs i y] by blast

lemma handles_okD:
  assumes "handles_ok pc hs"
  shows "cache_ok pc" "pins pc q = count_list (map handle_page hs) (Some q)"
    "i < length hs \<Longrightarrow> ph_cached (hs ! i) \<Longrightarrow> pc_page_map pc (ph_page_id (hs ! i)) = Some (ph_frame (hs ! i))"
  using assms by (auto simp: handles_ok_def)

lemma live_handle_pins:
  assumes "handles_ok pc hs" and "h \<in> set hs" and "ph_cached h"
  shows "0 < pins pc (ph_page_id h)"
proof -
  have "Some (ph_page_id h) \<in> set (map handle_page hs)"
    using assms(2,3) by (force simp: handle_page_def)
  then have "count_list (map handle_page hs) (Some (ph_page_id h)) \<noteq> 0" by (simp add: count_list_0_iff)
  then show ?thesis using handles_okD(2) [OF assms(1)] by simp
qed

lemma fetched_handles:
  assumes ok: "handles_ok pc hs" and f: "fetched pc pc' pid f"
  shows "handles_ok pc' (hs @ [\<lparr>ph_cached = True, ph_frame = f, ph_page_id = pid\<rparr>])"
proof -
  have "pc_page_map pc' (ph_page_id h) = Some (ph_frame h)" if "h \<in> set hs" "ph_cached h" for h
    using live_handle_pins [OF ok that] f ok that by (auto simp: fetched_def handles_ok_def)
  then show ?thesis
    using f handles_okD(2) [OF ok] by (auto simp: handles_ok_def fetched_def handle_page_def)
qed

lemma pool_full_open:
  assumes ok: "handles_ok pc hs" and full: "pool_full pc pc' pid"
  shows "Some pid \<notin> set (map handle_page hs)"
    and "length (pc_pool pc) \<le> card {q. Some q \<in> set (map handle_page hs)}"
proof -
  let ?opn = "{q. Some q \<in> set (map handle_page hs)}"
  have c: "cache_ok pc" by (rule handles_okD(1) [OF ok])
  have open_iff: "q \<in> ?opn \<longleftrightarrow> 0 < pins pc q" for q
    by (metis count_list_0_iff gr0I handles_okD(2) [OF ok] mem_Collect_eq not_gr_zero)
  have new: "pc_page_map pc pid = None" using full by (simp add: pool_full_def)
  then have "pins pc pid = 0" by (simp add: get_pin_count_for_test_def)
  then show "Some pid \<notin> set (map handle_page hs)" using open_iff [of pid] by auto
  have "ran (pc_page_map pc) = {..<length (pc_pool pc)}" and inj: "inj_on (pc_page_map pc) (dom (pc_page_map pc))"
    using cache_okD(5) [OF c] full by (auto simp: frames_ok_def pool_full_def)
  moreover have "Some ` ran (pc_page_map pc) = pc_page_map pc ` dom (pc_page_map pc)"
    by (force simp: ran_def)
  then have "card (ran (pc_page_map pc)) = card (dom (pc_page_map pc))"
    using card_image [OF inj] card_image [of Some "ran (pc_page_map pc)"] by simp
  moreover have "dom (pc_page_map pc) \<subseteq> ?opn"
  proof
    fix q assume "q \<in> dom (pc_page_map pc)"
    moreover have "q \<notin> set (unpinned pc)" using full by (simp add: pool_full_def)
    ultimately show "q \<in> ?opn" using unpinned_iff [OF c, of q] open_iff [of q] by auto
  qed
  moreover have "finite ?opn"
    by (rule finite_subset [of _ "the ` set (map handle_page hs)"])
       (auto intro: image_eqI [of _ the "Some _"] simp del: set_map)
  ultimately show "length (pc_pool pc) \<le> card ?opn"
    by (metis card_lessThan card_mono)
qed

lemma drop_handles:
  assumes ok: "handles_ok pc hs" and i: "i < length hs"
  shows "handles_ok (handle_destroy (hs ! i) pc) (hs[i := (hs ! i)\<lparr>ph_cached := False\<rparr>])"
proof -
  note c = handles_okD(1) [OF ok]
  have pages: "map handle_page (hs[i := (hs ! i)\<lparr>ph_cached := False\<rparr>]) = (map handle_page hs)[i := None]"
    by (simp add: map_update handle_page_def)
  have "cache_ok (handle_destroy (hs ! i) pc)"
    using c unpin_page_ok(1) [OF c] by (simp add: handle_destroy_def)
  moreover have "pins (handle_destroy (hs ! i) pc) q =
      count_list (map handle_page (hs[i := (hs ! i)\<lparr>ph_cached := False\<rparr>])) (Some q)" for q
    unfolding pages
    using i handles_okD(2) [OF ok, of q] unpin_page_ok(3) [OF c, where pid = "ph_page_id (hs ! i)" and q = q]
    by (auto simp: count_update_None handle_destroy_def handle_page_def)
  moreover have "pc_page_map (handle_destroy (hs ! i) pc) = pc_page_map pc"
    using unpin_page_ok(4) [OF c] by (simp add: handle_destroy_def)
  ultimately show ?thesis
    using ok by (auto simp: handles_ok_def dest!: set_update_at)
qed

lemma destroy_view: "cache_ok pc \<Longrightarrow> cache_view (handle_destroy h pc) q = cache_view pc q"
  by (simp add: handle_destroy_def unpin_page_ok)

lemma destroy_pool: "cache_ok pc \<Longrightarrow> pc_pool (handle_destroy h pc) = pc_pool pc"
  by (simp add: handle_destroy_def unpin_page_ok)

text \<open>Moving a handle changes neither the pins nor the live handles.\<close>

lemma move_handles:
  assumes ok: "handles_ok pc hs" and i: "i < length hs" "j < length hs" "i \<noteq> j" and dead: "\<not> ph_cached (hs ! i)"
  shows "handles_ok pc (hs[i := hs ! j, j := (hs ! j)\<lparr>ph_cached := False\<rparr>])"
proof -
  let ?hs' = "hs[i := hs ! j, j := (hs ! j)\<lparr>ph_cached := False\<rparr>]"
  let ?ps = "map handle_page hs"
  have pages: "map handle_page ?hs' = ?ps[i := ?ps ! j, j := None]"
    using i by (simp add: map_update handle_page_def)
  have "count_list (map handle_page ?hs') (Some q) = count_list ?ps (Some q)" for q
    unfolding pages
    using i dead count_list_update [of i ?ps "?ps ! j" "Some q"]
    by (auto simp: count_update_None handle_page_def split: if_splits)
  then show ?thesis
    using ok i by (auto simp: handles_ok_def dest!: set_update_at)
qed

lemma move_new_handles:
  assumes ok: "handles_ok pc hs" and j: "j < length hs"
  shows "handles_ok pc (hs[j := (hs ! j)\<lparr>ph_cached := False\<rparr>] @ [hs ! j])"
proof -
  let ?ps = "map handle_page hs"
  have pages: "map handle_page (hs[j := (hs ! j)\<lparr>ph_cached := False\<rparr>]) = ?ps[j := None]"
    by (simp add: map_update handle_page_def)
  have "count_list (map handle_page (hs[j := (hs ! j)\<lparr>ph_cached := False\<rparr>] @ [hs ! j])) (Some q) =
      count_list ?ps (Some q)" for q
    unfolding map_append pages
    using j count_list_update [of j ?ps None "Some q"] by (auto split: if_splits)
  then show ?thesis
    using ok j by (auto simp: handles_ok_def dest!: set_update_at)
qed

lemma write_handles:
  assumes ok: "handles_ok pc hs" and i: "i < length hs" "ph_cached (hs ! i)" and n: "off + length src \<le> 4096"
  shows "\<exists>pc'. handle_write (hs ! i) off src pc = Inr pc' \<and> handles_ok pc' hs \<and>
    length (pc_pool pc') = length (pc_pool pc) \<and>
    cache_view pc' = (cache_view pc)(ph_page_id (hs ! i) := mwrite (cache_view pc (ph_page_id (hs ! i))) off src)"
proof -
  obtain pc' where "handle_write (hs ! i) off src pc = Inr pc'" "cache_ok pc'"
    "length (pc_pool pc') = length (pc_pool pc)" "pc_page_map pc' = pc_page_map pc" "\<forall>q. pins pc' q = pins pc q"
    "\<forall>q. cache_view pc' q = (if q = ph_page_id (hs ! i) then mwrite (cache_view pc q) off src else cache_view pc q)"
    using handle_write_ok [OF handles_okD(1) [OF ok] handles_okD(3) [OF ok i] n] by blast
  with ok show ?thesis by (auto simp: handles_ok_def)
qed

lemma disk_only_handles: "handles_ok pc hs \<Longrightarrow> disk_only pc pc' \<Longrightarrow> handles_ok pc' hs"
  by (simp add: handles_ok_def disk_only_simps)

lemma sim_disk_only: "sim cap (pc, hs) a \<Longrightarrow> disk_only pc pc' \<Longrightarrow> sim cap (pc', hs) a"
  by (auto simp: sim_def disk_only_handles disk_only_simps)

context page_eviction_policy
begin

lemma fetch_simulation:
  assumes sim: "sim cap (pc, hs) a" and pid: "pid < mf_page_count (pc_file pc)"
    and f: "fetch_page pick hint pid pc = (r, pc')"
  shows "(\<exists>h a'. r = Inr h \<and> sim cap (pc', hs @ [h]) a' \<and> array_step cap a (Fetch hint pid) Done a') \<or>
    (r = Inl BufferPoolFull \<and> sim cap (pc', hs) a \<and> array_step cap a (Fetch hint pid) (Failed BufferPoolFull) a)"
proof -
  obtain pg os where a: "a = (pg, os)" by (cases a)
  have ok: "handles_ok pc hs" and pg: "pg = cache_view pc" and os: "os = map handle_page hs"
    and cap: "length (pc_pool pc) = cap"
    using sim by (simp_all add: sim_def a)
  from fetch_page_ok [OF handles_okD(1) [OF ok] pid, of hint] f show ?thesis
  proof (elim disjE exE conjE)
    fix fr pc1
    assume "fetch_page pick hint pid pc = (Inr \<lparr>ph_cached = True, ph_frame = fr, ph_page_id = pid\<rparr>, pc1)"
      and fe: "fetched pc pc1 pid fr"
    with f have r: "r = Inr \<lparr>ph_cached = True, ph_frame = fr, ph_page_id = pid\<rparr>" "pc' = pc1" by simp_all
    have "sim cap (pc', hs @ [\<lparr>ph_cached = True, ph_frame = fr, ph_page_id = pid\<rparr>]) (pg, os @ [Some pid])"
      using fetched_handles [OF ok fe] fe cap by (auto simp: sim_def r pg os fetched_def handle_page_def)
    with r show ?thesis unfolding a by (auto intro: array_step.intros)
  next
    fix pc1
    assume "fetch_page pick hint pid pc = (Inl BufferPoolFull, pc1)" and fu: "pool_full pc pc1 pid"
    with f have r: "r = Inl BufferPoolFull" "pc' = pc1" by simp_all
    have "handles_ok pc1 hs" "cache_view pc1 = cache_view pc" "pc_pool pc1 = pc_pool pc"
      using ok fu by (auto simp: handles_ok_def pool_full_def)
    then have "sim cap (pc', hs) a" using sim by (simp add: sim_def r a)
    moreover have "array_step cap a (Fetch hint pid) (Failed BufferPoolFull) a"
      unfolding a os using pool_full_open [OF ok fu] cap by (intro a_full) simp_all
    ultimately show ?thesis by (simp add: r)
  qed
qed

lemma write_simulation:
  assumes sim: "sim cap (pc, hs) a" and h: "i < length hs" "ph_cached (hs ! i)" and n: "off + length src \<le> PAGE_SIZE"
    and w: "handle_write (hs ! i) off src pc = Inr pc'"
  shows "\<exists>a'. array_step cap a (WriteAt i off src) Done a' \<and> sim cap (pc', hs) a'"
proof -
  let ?q = "ph_page_id (hs ! i)"
  have ok: "handles_ok pc hs" and a: "a = (cache_view pc, map handle_page hs)" using sim by (cases a, simp add: sim_def)+
  have w': "handles_ok pc' hs" "length (pc_pool pc') = length (pc_pool pc)"
    "cache_view pc' = (cache_view pc)(?q := mwrite (cache_view pc ?q) off src)"
    using write_handles [OF ok h, of off src] n w by auto
  have "array_step cap a (WriteAt i off src) Done (cache_view pc', map handle_page hs)"
    unfolding a w'(3) by (rule a_write) (use h in \<open>simp_all add: handle_page_def\<close>)
  with w' sim show ?thesis by (auto simp: sim_def)
qed

lemma drop_simulation:
  assumes sim: "sim cap (pc, hs) a" and i: "i < length hs"
  shows "\<exists>a'. array_step cap a (Drop i) Done a' \<and>
    sim cap (handle_destroy (hs ! i) pc, hs[i := (hs ! i)\<lparr>ph_cached := False\<rparr>]) a'"
proof -
  have ok: "handles_ok pc hs" using sim by (simp add: sim_def)
  note c = handles_okD(1) [OF ok]
  have "sim cap (handle_destroy (hs ! i) pc, hs[i := (hs ! i)\<lparr>ph_cached := False\<rparr>]) (fst a, (snd a)[i := None])"
    using sim i drop_handles [OF ok, of i]
    by (auto simp: sim_def destroy_view [OF c] destroy_pool [OF c] map_update handle_page_def)
  moreover have "array_step cap a (Drop i) Done (fst a, (snd a)[i := None])"
    by (cases a) (simp add: a_drop)
  ultimately show ?thesis by blast
qed

lemma move_assign_simulation:
  assumes sim: "sim cap (pc, hs) a" and ij: "i < length hs" "j < length hs" "i \<noteq> j"
    and m: "handle_move_assign (hs ! i) (hs ! j) pc = (x, y, pc')"
  shows "\<exists>a'. array_step cap a (MoveAssign i j) Done a' \<and> sim cap (pc', hs[i := x, j := y]) a'"
proof -
  have ok: "handles_ok pc hs" using sim by (simp add: sim_def)
  note c = handles_okD(1) [OF ok]
  have res: "x = hs ! j" "y = (hs ! j)\<lparr>ph_cached := False\<rparr>" "pc' = handle_destroy (hs ! i) pc"
    using m by (auto simp: handle_move_assign_def handle_destroy_def)
  let ?hs1 = "hs[i := (hs ! i)\<lparr>ph_cached := False\<rparr>]"
  have "handles_ok pc' (?hs1[i := ?hs1 ! j, j := (?hs1 ! j)\<lparr>ph_cached := False\<rparr>])"
    unfolding res using drop_handles [OF ok, of i] ij by (intro move_handles) simp_all
  then have "handles_ok pc' (hs[i := x, j := y])" using ij res by simp
  moreover have "map handle_page (hs[i := x, j := y]) = (map handle_page hs)[i := map handle_page hs ! j, j := None]"
    using ij(2) by (simp add: res map_update handle_page_def)
  ultimately have "sim cap (pc', hs[i := x, j := y]) (fst a, (snd a)[i := snd a ! j, j := None])"
    using sim by (auto simp: sim_def res destroy_view [OF c] destroy_pool [OF c])
  moreover have "j < length (snd a)" using ij(2) sim by (simp add: sim_def)
  then have "array_step cap a (MoveAssign i j) Done (fst a, (snd a)[i := snd a ! j, j := None])"
    by (cases a) (simp add: a_move_assign)
  ultimately show ?thesis by blast
qed

lemma move_new_simulation:
  assumes sim: "sim cap (pc, hs) a" and j: "j < length hs" and m: "handle_move (hs ! j) = (x, y)"
  shows "\<exists>a'. array_step cap a (MoveNew j) Done a' \<and> sim cap (pc, hs[j := y] @ [x]) a'"
proof -
  have ok: "handles_ok pc hs" using sim by (simp add: sim_def)
  have res: "x = hs ! j" "y = (hs ! j)\<lparr>ph_cached := False\<rparr>" using m by (auto simp: handle_move_def)
  have "sim cap (pc, hs[j := y] @ [x]) (fst a, (snd a)[j := None] @ [snd a ! j])"
    using sim j move_new_handles [OF ok, of j] by (auto simp: sim_def res map_update handle_page_def)
  moreover have "j < length (snd a)" using j sim by (simp add: sim_def)
  then have "array_step cap a (MoveNew j) Done (fst a, (snd a)[j := None] @ [snd a ! j])"
    by (cases a) (simp add: a_move_new)
  ultimately show ?thesis by blast
qed

lemma step_simulation:
  assumes "cache_step pick s oper out s'" and "sim cap s a"
  shows "\<exists>a'. array_step cap a oper out a' \<and> sim cap s' a'"
  using assms
proof (induction arbitrary: a)
  case (fetch pid pc hint h pc' hs)
  then show ?case using fetch_simulation [OF fetch.prems fetch.hyps] by auto
next
  case (fetch_failed pid pc hint e pc' hs)
  then show ?case using fetch_simulation [OF fetch_failed.prems fetch_failed.hyps] by blast
next
  case (read i hs off n pc r)
  have ok: "handles_ok pc hs" using read.prems by (simp add: sim_def)
  have "r = Inr (mread (cache_view pc (ph_page_id (hs ! i))) off n)"
    using read.hyps handle_read_ok [OF handles_okD(1) [OF ok] handles_okD(3) [OF ok], of i off n] by simp
  with read show ?case
    by (cases a) (auto simp: sim_def handle_page_def intro!: array_step.intros)
next
  case (write_failed i hs off src pc e)
  then have "handles_ok pc hs" by (simp add: sim_def)
  from write_handles [OF this write_failed.hyps(1,2), of off src] write_failed.hyps(3,4) show ?case by auto
next
  case write_ok
  show ?case by (rule write_simulation [OF write_ok.prems write_ok.hyps])
next
  case drop
  show ?case by (rule drop_simulation [OF drop.prems drop.hyps])
next
  case move_assign
  show ?case by (rule move_assign_simulation [OF move_assign.prems move_assign.hyps])
next
  case move_new
  show ?case by (rule move_new_simulation [OF move_new.prems move_new.hyps])
next
  case (flush_page pid pc r pc' hs)
  have c: "cache_ok pc" using flush_page.prems by (simp add: sim_def handles_ok_def)
  have "r = Inr ()" "disk_only pc pc'"
    using flush_page_ok [OF c, of pid] flush_page.hyps by auto
  with sim_disk_only [OF flush_page.prems] show ?case
    by (cases a) (auto simp: out_of_def intro: a_flush_page)
next
  case (flush_all order pc msync_ok r pc' hs)
  have c: "cache_ok pc" using flush_all.prems by (simp add: sim_def handles_ok_def)
  have "r = mf_flush msync_ok (pc_file pc)" "disk_only pc pc'"
    using flush_all_ok [OF c flush_all.hyps(1), of msync_ok] flush_all.hyps(2) by auto
  with sim_disk_only [OF flush_all.prems] show ?case
    by (cases a) (auto simp: out_of_def mf_flush_def intro!: a_flush_all)
qed

lemma run_simulation:
  assumes "cache_run pick s tr s'" and "sim cap s a"
  shows "\<exists>a'. array_run cap a tr a' \<and> sim cap s' a'"
  using assms
proof (induction)
  case cache_run_nil
  then show ?case by (blast intro: array_run.intros)
next
  case (cache_run_step s tr s' oper out s'')
  then obtain a' where "array_run cap a tr a'" "sim cap s' a'" by blast
  moreover obtain a'' where "array_step cap a' oper out a''" "sim cap s'' a''"
    using step_simulation [OF cache_run_step.hyps(2) \<open>sim cap s' a'\<close>] by blast
  ultimately show ?case by (blast intro: array_run.intros)
qed

end

lemma sim_new:
  assumes "mf_ok file sys"
  shows "sim cap (cache_new file sys obs cap observer policy, [])
    (\<lambda>q. page_at (os_content sys (mf_path file)) (unat q), [])"
proof -
  let ?pc = "cache_new file sys obs cap observer policy"
  have "handles_ok ?pc []" by (simp add: handles_ok_def cache_ok_new [OF assms])
  moreover have "length (pc_pool ?pc) = cap" by (simp add: cache_new_def)
  ultimately show ?thesis by (auto simp: sim_def fun_eq_iff cache_ok_new(2) [OF assms])
qed

text \<open>A pool of one frame: page 0 is fetched, then page 1 cannot be.\<close>

definition small_cache :: "int page_policy page_cache" where
  "small_cache = cache_new two_pages two_pages_os (\<lambda>_. observer_new 4) 1 (Some 0) (Some (Lfu (Some 0)))"

lemma small_fetch:
  "\<exists>pc. fetch_page (choose_victim int_ops) PointLookup 0 small_cache =
      (Inr \<lparr>ph_cached = True, ph_frame = 0, ph_page_id = 0\<rparr>, pc) \<and>
    pc_file pc = two_pages \<and> pc_free_frames pc = [] \<and> pc_page_map pc = [0 \<mapsto> 0] \<and> pc_pin_counts pc = [1] \<and>
    dl_values (pc_lru_list pc) = [0]"
  by (simp add: fetch_page_def get_page_internal_def small_cache_def cache_new_def cache_observe_def
      install_page_def Let_def mf_load_def in_mapping_def mf_get_page_def two_pages_def two_pages_os_def
      os_content_def dl_values_def dl_empty_def)

lemma small_run:
  "\<exists>pc. cache_run (choose_victim int_ops) (small_cache, [])
     [(Fetch PointLookup 0, Done), (Fetch PointLookup 1, Failed BufferPoolFull)]
     (pc, [\<lparr>ph_cached = True, ph_frame = 0, ph_page_id = 0\<rparr>])"
proof -
  let ?h = "\<lparr>ph_cached = True, ph_frame = 0, ph_page_id = 0\<rparr>"
  have ok: "cache_ok small_cache" unfolding small_cache_def by (rule cache_ok_new [OF two_pages_ok])
  have fl: "pc_file small_cache = two_pages" by (simp add: small_cache_def cache_new_def)
  obtain pc where pc: "fetch_page (choose_victim int_ops) PointLookup 0 small_cache = (Inr ?h, pc)"
    "pc_file pc = two_pages" "pc_free_frames pc = []" "pc_page_map pc = [0 \<mapsto> 0]" "pc_pin_counts pc = [1]"
    "dl_values (pc_lru_list pc) = [0]"
    using small_fetch by blast
  have count: "mf_page_count two_pages = 2" by (simp add: two_pages_def)
  have "cache_ok pc"
    using policy.fetch_page_ok [OF ok, of 0 int_ops PointLookup] pc(1) by (auto simp: fl count fetched_def)
  moreover have "unpinned pc = []"
    using pc by (simp add: unpinned_def get_pin_count_for_test_def)
  ultimately obtain pc' where pc': "fetch_page (choose_victim int_ops) PointLookup 1 pc = (Inl BufferPoolFull, pc')"
    using policy.fetch_miss_full [of pc 1 int_ops PointLookup] pc by auto
  have "cache_run (choose_victim int_ops) (small_cache, []) ([] @ [(Fetch PointLookup 0, Done)]) (pc, [] @ [?h])"
    by (rule cache_run_step [OF cache_run_nil]) (rule fetch, use pc count in \<open>simp_all add: fl\<close>)
  then have "cache_run (choose_victim int_ops) (small_cache, [])
      (([] @ [(Fetch PointLookup 0, Done)]) @ [(Fetch PointLookup 1, Failed BufferPoolFull)]) (pc', [] @ [?h])"
    by (rule cache_run_step) (rule fetch_failed, use pc pc' count in \<open>simp_all\<close>)
  then show ?thesis by auto
qed

text \<open>
  C6: Whatever the capacity, the eviction policy and the interleaving of operations, the buffer pool on a
  well-formed file is indistinguishable from the array of the file's pages: reads through a handle give the
  last content written to the page, a fetch fails only with a full pool and only when as many different
  pages are held by handles as there are frames, and a later \<open>flush_all\<close> leaves on disk exactly the array.
\<close>

theorem page_cache_refines_page_array:
  assumes "mf_ok file sys"
    and "cache_run (choose_victim D) (cache_new file sys obs cap observer policy, []) tr (pc, hs)"
  shows "\<exists>pages opened.
    array_run cap (\<lambda>q. page_at (os_content sys (mf_path file)) (unat q), []) tr (pages, opened) \<and>
    (\<forall>order. set order = dom (pc_page_map pc) \<longrightarrow>
      (\<exists>pc'. flush_all order True pc = (Inr (), pc') \<and> (\<forall>q. disk_page pc' q = pages q)))"
proof -
  obtain a where a: "array_run cap (\<lambda>q. page_at (os_content sys (mf_path file)) (unat q), []) tr a"
    "sim cap (pc, hs) a"
    using policy.run_simulation [OF assms(2) sim_new [OF assms(1)]] by blast
  have "cache_ok pc" "fst a = cache_view pc" using a(2) by (simp_all add: sim_def handles_ok_def)
  then have "\<exists>pc'. flush_all order True pc = (Inr (), pc') \<and> (\<forall>q. disk_page pc' q = fst a q)"
    if "set order = dom (pc_page_map pc)" for order
    using flush_all_ok [OF \<open>cache_ok pc\<close> that, of True] by (auto simp: mf_flush_def)
  with a(1) show ?thesis by (intro exI [of _ "fst a"] exI [of _ "snd a"]) simp
qed

lemma page_cache_refines_page_array_witness:
  "\<exists>pc pages opened.
    cache_run (choose_victim int_ops) (small_cache, [])
      [(Fetch PointLookup 0, Done), (Fetch PointLookup 1, Failed BufferPoolFull)]
      (pc, [\<lparr>ph_cached = True, ph_frame = 0, ph_page_id = 0\<rparr>]) \<and>
    array_run 1 (\<lambda>q. page_at (os_content two_pages_os ''db'') (unat q), [])
      [(Fetch PointLookup 0, Done), (Fetch PointLookup 1, Failed BufferPoolFull)] (pages, opened)"
proof -
  obtain pc where run: "cache_run (choose_victim int_ops) (small_cache, [])
      [(Fetch PointLookup 0, Done), (Fetch PointLookup 1, Failed BufferPoolFull)]
      (pc, [\<lparr>ph_cached = True, ph_frame = 0, ph_page_id = 0\<rparr>])"
    using small_run by blast
  from page_cache_refines_page_array [OF two_pages_ok run [unfolded small_cache_def]]
  show ?thesis using run by (auto simp: two_pages_def)
qed

text \<open>
  C8: In every reachable state of the pool, each live handle points to the frame that holds its page, and
  the pin count of every page is the number of its live handles; so no page is evicted under a live handle.
\<close>

theorem live_handles_are_pinned:
  assumes "mf_ok file sys"
    and "cache_run (choose_victim D) (cache_new file sys obs cap observer policy, []) tr (pc, hs)"
  shows "(\<forall>h \<in> set hs. ph_cached h \<longrightarrow> pc_page_map pc (ph_page_id h) = Some (ph_frame h)) \<and>
    (\<forall>q. get_pin_count_for_test q pc = length (filter (\<lambda>h. ph_cached h \<and> ph_page_id h = q) hs))"
proof -
  have ok: "handles_ok pc hs"
    using policy.run_simulation [OF assms(2) sim_new [OF assms(1)]] by (auto simp: sim_def)
  have "count_list (map handle_page xs) (Some q) = length (filter (\<lambda>h. ph_cached h \<and> ph_page_id h = q) xs)" for q xs
    by (induction xs) (auto simp: handle_page_def)
  with ok show ?thesis by (simp add: handles_ok_def)
qed

lemma live_handles_are_pinned_witness:
  "\<exists>pc. pc_page_map pc 0 = Some 0 \<and> get_pin_count_for_test 0 pc = 1 \<and>
    cache_run (choose_victim int_ops) (small_cache, [])
      [(Fetch PointLookup 0, Done), (Fetch PointLookup 1, Failed BufferPoolFull)]
      (pc, [\<lparr>ph_cached = True, ph_frame = 0, ph_page_id = 0\<rparr>])"
proof -
  obtain pc where run: "cache_run (choose_victim int_ops) (small_cache, [])
      [(Fetch PointLookup 0, Done), (Fetch PointLookup 1, Failed BufferPoolFull)]
      (pc, [\<lparr>ph_cached = True, ph_frame = 0, ph_page_id = 0\<rparr>])"
    using small_run by blast
  from live_handles_are_pinned [OF two_pages_ok run [unfolded small_cache_def]] run show ?thesis by auto
qed

text \<open>
  Without a policy a fetch that needs a frame evicts the least recently fetched page that is not
  pinned; the fetched page becomes the most recent one, as it does when it is found in the pool.
\<close>

theorem default_eviction_is_lru:
  assumes "cache_ok pc" and "pid < mf_page_count (pc_file pc)" and "pc_policy pc = None"
  shows "(pc_page_map pc pid \<noteq> None \<longrightarrow>
      (\<exists>h pc'. fetch_page pick hint pid pc = (Inr h, pc') \<and> pc_page_map pc' = pc_page_map pc \<and>
        dl_values (pc_lru_list pc') = pid # filter (\<lambda>q. q \<noteq> pid) (dl_values (pc_lru_list pc)))) \<and>
    (pc_page_map pc pid = None \<and> pc_free_frames pc = [] \<and> unpinned pc \<noteq> [] \<longrightarrow>
      (\<exists>h pc'. fetch_page (choose_victim D) hint pid pc = (Inr h, pc') \<and>
        pc_page_map pc' = (pc_page_map pc)(hd (unpinned pc) := None, pid \<mapsto> ph_frame h) \<and>
        dl_values (pc_lru_list pc') = pid # filter (\<lambda>q. q \<noteq> hd (unpinned pc)) (dl_values (pc_lru_list pc))))"
proof (intro conjI impI)
  assume "pc_page_map pc pid \<noteq> None"
  then obtain f where "pc_page_map pc pid = Some f" by blast
  from fetch_hit [OF assms(1) this, of pick hint]
  show "\<exists>h pc'. fetch_page pick hint pid pc = (Inr h, pc') \<and> pc_page_map pc' = pc_page_map pc \<and>
      dl_values (pc_lru_list pc') = pid # filter (\<lambda>q. q \<noteq> pid) (dl_values (pc_lru_list pc))" by blast
next
  assume m: "pc_page_map pc pid = None \<and> pc_free_frames pc = [] \<and> unpinned pc \<noteq> []"
  obtain f pc1 pc' where "fetch_page (choose_victim D) hint pid pc =
      (Inr \<lparr>ph_cached = True, ph_frame = f, ph_page_id = pid\<rparr>, pc')"
    "unpinned pc1 = unpinned pc" "pc_policy pc1 = pc_policy pc"
    "pc_page_map pc' = (pc_page_map pc)(fst (victim_of (choose_victim D) hint pc1) := None, pid \<mapsto> f)"
    "dl_values (pc_lru_list pc') =
      pid # filter (\<lambda>q. q \<noteq> fst (victim_of (choose_victim D) hint pc1)) (dl_values (pc_lru_list pc))"
    using policy.fetch_miss_evict [OF assms(1) _ assms(2), of D hint] m by metis
  moreover have "fst (victim_of (choose_victim D) hint pc1) = hd (unpinned pc)"
    using calculation(2,3) assms(3) by (simp add: victim_of_def)
  ultimately show "\<exists>h pc'. fetch_page (choose_victim D) hint pid pc = (Inr h, pc') \<and>
      pc_page_map pc' = (pc_page_map pc)(hd (unpinned pc) := None, pid \<mapsto> ph_frame h) \<and>
      dl_values (pc_lru_list pc') = pid # filter (\<lambda>q. q \<noteq> hd (unpinned pc)) (dl_values (pc_lru_list pc))"
    by auto
qed

definition lru_cache_of_one :: "int page_policy page_cache" where
  "lru_cache_of_one = cache_new two_pages two_pages_os (\<lambda>_. observer_new 4) 1 None None"

definition page_0_dropped :: "int page_policy page_cache" where
  "page_0_dropped = unpin_page 0 (snd (fetch_page (choose_victim int_ops) Scan 0 lru_cache_of_one))"

lemma page_0_dropped_state:
  "pc_file page_0_dropped = two_pages \<and> pc_free_frames page_0_dropped = [] \<and> pc_policy page_0_dropped = None \<and>
    pc_page_map page_0_dropped = [0 \<mapsto> 0] \<and> unpinned page_0_dropped = [0] \<and>
    dl_values (pc_lru_list page_0_dropped) = [0]"
  by (simp add: page_0_dropped_def unpin_page_def fetch_page_def get_page_internal_def lru_cache_of_one_def
      cache_new_def cache_observe_def install_page_def Let_def mf_load_def in_mapping_def mf_get_page_def
      two_pages_def two_pages_os_def os_content_def dl_values_def dl_empty_def unpinned_def
      get_pin_count_for_test_def)

lemma page_0_dropped_ok: "cache_ok page_0_dropped"
proof -
  have ok: "cache_ok lru_cache_of_one"
    unfolding lru_cache_of_one_def by (rule cache_ok_new [OF two_pages_ok])
  have "0 < mf_page_count (pc_file lru_cache_of_one)"
    by (simp add: lru_cache_of_one_def cache_new_def two_pages_def)
  then have "cache_ok (snd (fetch_page (choose_victim int_ops) Scan 0 lru_cache_of_one))"
    using policy.fetch_page_ok [OF ok, of 0 int_ops Scan] by (auto simp: fetched_def pool_full_def)
  then show ?thesis unfolding page_0_dropped_def by (rule unpin_page_ok)
qed

lemma default_eviction_is_lru_witness:
  "\<exists>h pc'. fetch_page (choose_victim int_ops) Scan 1 page_0_dropped = (Inr h, pc') \<and>
    pc_page_map pc' = [1 \<mapsto> ph_frame h] \<and> dl_values (pc_lru_list pc') = [1]"
  using default_eviction_is_lru [OF page_0_dropped_ok, of 1 undefined Scan int_ops] page_0_dropped_state
  by (simp add: two_pages_def)

end
