(* ===== verification/Storage_Engine.thy ===== *)
theory Storage_Engine
  imports Page_Cache_Clients "HOL-Library.Multiset"
begin

text \<open>
  \<open>src/src/storage/storage_engine.{h,cpp}\<close>: a mapped file with a buffer pool on top, and prefetch threads.
  A prefetch thread runs in two atomic steps, the fetch and the release of its handle; which threads step
  before each cache operation of the main thread is given by a schedule.
\<close>

section \<open>The class\<close>

datatype prefetch_thread =
    PfStart u32
  | PfHolding page_handle
  | PfDone

text \<open>
  \<open>en_schedule\<close> lists, for each cache operation of the main thread to come, the threads that step just
  before it (none when it is exhausted). \<open>en_hint\<close> is the main thread's workload hint. The engine gives
  its cache no policy.
\<close>

record engine =
  en_cache :: "unit page_cache"
  en_hint :: workload_hint
  en_threads :: "prefetch_thread list"
  en_schedule :: "nat list list"

definition no_policy :: "workload_hint \<Rightarrow> observers \<Rightarrow> u32 list \<Rightarrow> unit \<Rightarrow> u32 \<times> unit" where
  "no_policy hint obs ids p = (hd ids, ())"

text \<open>The page count is read before the cache is locked; a failed bounds check throws.\<close>

definition bounded_fetch :: "workload_hint \<Rightarrow> u32 \<Rightarrow> unit page_cache \<Rightarrow> page_handle result \<times> unit page_cache" where
  "bounded_fetch hint pid pc =
     (if pid \<ge> mf_get_page_count (pc_file pc) then (Inl (PageOutOfBounds pid), pc)
      else fetch_page no_policy hint pid pc)"

text \<open>One atomic step of a prefetch thread, which starts with the initial hint and swallows exceptions.\<close>

definition thread_step :: "nat \<Rightarrow> engine \<Rightarrow> engine" where
  "thread_step k en =
     (if k < length (en_threads en) then
        (case en_threads en ! k of
           PfStart pid \<Rightarrow>
             (case bounded_fetch initial_workload_hint pid (en_cache en) of
                (Inr h, pc) \<Rightarrow> en\<lparr>en_cache := pc, en_threads := (en_threads en)[k := PfHolding h]\<rparr>
              | (Inl e, pc) \<Rightarrow> en\<lparr>en_cache := pc, en_threads := (en_threads en)[k := PfDone]\<rparr>)
         | PfHolding h \<Rightarrow> en\<lparr>en_cache := handle_destroy h (en_cache en),
                            en_threads := (en_threads en)[k := PfDone]\<rparr>
         | PfDone \<Rightarrow> en)
      else en)"

definition run_scheduled :: "engine \<Rightarrow> engine" where
  "run_scheduled en =
     (case en_schedule en of [] \<Rightarrow> en
      | ks # rest \<Rightarrow> fold thread_step ks (en\<lparr>en_schedule := rest\<rparr>))"

definition engine_new ::
  "string \<Rightarrow> int \<Rightarrow> bool \<Rightarrow> bool \<Rightarrow> os \<Rightarrow> observers \<Rightarrow> nat \<Rightarrow> observer_ptr \<Rightarrow> nat list list \<Rightarrow>
   engine result \<times> os" where
  "engine_new path fd stat_ok mmap_ok sys obs capacity observer schedule =
     (case mf_new path fd stat_ok mmap_ok sys of
        (Inl e, sys') \<Rightarrow> (Inl e, sys')
      | (Inr file, sys') \<Rightarrow>
          (Inr \<lparr>en_cache = cache_new file sys' obs capacity observer None, en_hint = initial_workload_hint,
                en_threads = [], en_schedule = schedule\<rparr>, sys'))"

definition engine_fetch_page :: "u32 \<Rightarrow> engine \<Rightarrow> page_handle result \<times> engine" where
  "engine_fetch_page pid en =
     (let en1 = run_scheduled en;
          (r, pc) = bounded_fetch (en_hint en1) pid (en_cache en1)
      in (r, en1\<lparr>en_cache := pc\<rparr>))"

text \<open>The end of the scope of a handle in the main thread.\<close>

definition engine_release :: "page_handle \<Rightarrow> engine \<Rightarrow> engine" where
  "engine_release h en =
     (let en1 = run_scheduled en in en1\<lparr>en_cache := handle_destroy h (en_cache en1)\<rparr>)"

definition prefetch_page :: "u32 \<Rightarrow> engine \<Rightarrow> engine" where
  "prefetch_page pid en =
     (if pid \<ge> mf_get_page_count (pc_file (en_cache en)) then en
      else en\<lparr>en_threads := en_threads en @ [PfStart pid]\<rparr>)"

definition get_total_pages :: "engine \<Rightarrow> u32" where
  "get_total_pages en = mf_get_page_count (pc_file (en_cache en))"

definition engine_get_cache_hits :: "engine \<Rightarrow> nat" where
  "engine_get_cache_hits en = get_hits (en_cache en)"

definition engine_get_cache_misses :: "engine \<Rightarrow> nat" where
  "engine_get_cache_misses en = get_misses (en_cache en)"

text \<open>\<open>page_handle->get_raw_data()\<close>: the frame's bytes.\<close>

definition raw_data :: "page_handle \<Rightarrow> engine \<Rightarrow> bytes result" where
  "raw_data h en = handle_read h 0 PAGE_SIZE (en_cache en)"

text \<open>
  \<open>allocate_page\<close> grows the file by a page, fetches it past the bounds check and writes its header. A
  handle that an exception leaves behind does not occur: the header writes cannot throw.
\<close>

definition write_header :: "page_handle \<Rightarrow> u32 \<Rightarrow> unit page_cache \<Rightarrow> unit page_cache result" where
  "write_header h new_page_id pc =
     bind_result (handle_write h 4 (put_u32 new_page_id) pc) (\<lambda>pc1.
     bind_result (handle_write h 0 (put_u32 PAGE_MAGIC) pc1) (\<lambda>pc2.
     handle_write h 8 (put_u32 0xFFFFFFFF) pc2))"

definition allocate_page :: "bool \<Rightarrow> bool \<Rightarrow> engine \<Rightarrow> page_handle result \<times> engine" where
  "allocate_page truncate_ok mmap_ok en =
     (let new_page_id = mf_get_page_count (pc_file (en_cache en));
          (r, file, sys) = mf_grow_file (new_page_id + 1) truncate_ok mmap_ok
                             (pc_file (en_cache en)) (pc_os (en_cache en));
          en1 = en\<lparr>en_cache := (en_cache en)\<lparr>pc_file := file, pc_os := sys\<rparr>\<rparr>
      in case r of Inl e \<Rightarrow> (Inl e, en1)
         | Inr _ \<Rightarrow>
             let en2 = run_scheduled en1;
                 (r2, pc) = fetch_page no_policy (en_hint en2) new_page_id (en_cache en2)
             in case r2 of Inl e \<Rightarrow> (Inl e, en2\<lparr>en_cache := pc\<rparr>)
                | Inr h \<Rightarrow>
                    (case write_header h new_page_id pc of
                       Inl e \<Rightarrow> (Inl e, en2\<lparr>en_cache := pc\<rparr>)
                     | Inr pc' \<Rightarrow> (Inr h, en2\<lparr>en_cache := pc'\<rparr>)))"

definition engine_flush_all :: "u32 list \<Rightarrow> bool \<Rightarrow> engine \<Rightarrow> unit result \<times> engine" where
  "engine_flush_all order msync_ok en =
     (let en1 = run_scheduled en;
          (r, pc) = flush_all order msync_ok (en_cache en1)
      in (r, en1\<lparr>en_cache := pc\<rparr>))"

interpretation no_policy: page_eviction_policy no_policy
  by unfold_locales (simp add: no_policy_def)

section \<open>Invariant\<close>

text \<open>\<open>hs\<close> are the live handles of the main thread; the threads hold theirs.\<close>

definition thread_handles :: "prefetch_thread list \<Rightarrow> page_handle list" where
  "thread_handles ts = concat (map (\<lambda>t. case t of PfHolding h \<Rightarrow> [h] | _ \<Rightarrow> []) ts)"

definition engine_ok :: "page_handle list \<Rightarrow> engine \<Rightarrow> bool" where
  "engine_ok hs en \<longleftrightarrow> handles_ok (en_cache en) (hs @ thread_handles (en_threads en)) \<and>
     (\<forall>h \<in> set hs \<union> set (thread_handles (en_threads en)). ph_cached h)"

definition engine_view :: "engine \<Rightarrow> u32 \<Rightarrow> bytes" where
  "engine_view en pid = cache_view (en_cache en) pid"

text \<open>Same file, same pages, same capacity.\<close>

definition same_store :: "engine \<Rightarrow> engine \<Rightarrow> bool" where
  "same_store en en' \<longleftrightarrow> pc_file (en_cache en') = pc_file (en_cache en) \<and>
     (\<forall>q. engine_view en' q = engine_view en q) \<and>
     length (pc_pool (en_cache en')) = length (pc_pool (en_cache en)) \<and> en_hint en' = en_hint en \<and>
     same_disk (en_cache en) (en_cache en')"

lemma same_store_refl [simp]: "same_store en en"
  by (simp add: same_store_def same_disk_os)

lemma same_store_trans:
  assumes "same_store a b" and "same_store b c"
  shows "same_store a c"
  using assms same_disk_trans [of "en_cache a" "en_cache b" "en_cache c"]
  by (simp add: same_store_def engine_view_def)

lemma same_store_total: "same_store en en' \<Longrightarrow> get_total_pages en' = get_total_pages en"
  by (simp add: same_store_def get_total_pages_def)

text \<open>The order in which the handles are listed does not matter.\<close>

lemma handles_ok_mset:
  assumes "mset hs = mset hs'"
  shows "handles_ok pc hs \<longleftrightarrow> handles_ok pc hs'"
proof -
  have "set hs = set hs'" using assms by (metis set_mset_mset)
  moreover have "mset (map handle_page hs) = mset (map handle_page hs')" using assms by simp
  then have "count_list (map handle_page hs) x = count_list (map handle_page hs') x" for x
    by (metis count_mset)
  ultimately show ?thesis by (simp add: handles_ok_def)
qed

lemma handles_ok_snoc_iff: "handles_ok pc (hs @ [h]) \<longleftrightarrow> handles_ok pc (h # hs)"
  by (rule handles_ok_mset) simp

lemma destroy_handles:
  assumes ok: "handles_ok pc (h # hs)" and cached: "ph_cached h"
  shows "handles_ok (handle_destroy h pc) hs"
proof -
  have "handles_ok (handle_destroy h pc) (h\<lparr>ph_cached := False\<rparr> # hs)"
    using drop_handles [OF ok, of 0] by simp
  then show ?thesis by (auto simp: handles_ok_def handle_page_def)
qed

lemma bounded_fetch_cases:
  assumes ok: "handles_ok pc hs" and f: "bounded_fetch hint pid pc = (r, pc')"
  shows "pc_file pc' = pc_file pc \<and> length (pc_pool pc') = length (pc_pool pc) \<and>
    (\<forall>q. cache_view pc' q = cache_view pc q) \<and> same_disk pc pc' \<and>
    ((\<exists>f. r = Inr \<lparr>ph_cached = True, ph_frame = f, ph_page_id = pid\<rparr> \<and> pid < mf_page_count (pc_file pc) \<and>
        handles_ok pc' (\<lparr>ph_cached = True, ph_frame = f, ph_page_id = pid\<rparr> # hs)) \<or>
     (r = Inl (PageOutOfBounds pid) \<and> mf_page_count (pc_file pc) \<le> pid \<and> pc' = pc \<and> handles_ok pc' hs) \<or>
     (r = Inl BufferPoolFull \<and> pool_full pc pc' pid \<and> pid < mf_page_count (pc_file pc) \<and> handles_ok pc' hs))"
proof (cases "mf_page_count (pc_file pc) \<le> pid")
  case True
  with f ok show ?thesis by (auto simp: bounded_fetch_def mf_get_page_count_def same_disk_os)
next
  case False
  then have pid: "pid < mf_page_count (pc_file pc)" by simp
  then have fp: "fetch_page no_policy hint pid pc = (r, pc')"
    using f False by (simp add: bounded_fetch_def mf_get_page_count_def)
  from no_policy.fetch_page_ok [OF handles_okD(1) [OF ok] pid, of hint] fp show ?thesis
  proof (elim disjE exE conjE)
    fix fr pc1
    assume "fetch_page no_policy hint pid pc = (Inr \<lparr>ph_cached = True, ph_frame = fr, ph_page_id = pid\<rparr>, pc1)"
      and fe: "fetched pc pc1 pid fr"
    with fp have "r = Inr \<lparr>ph_cached = True, ph_frame = fr, ph_page_id = pid\<rparr>" "pc' = pc1" by simp_all
    with fetched_handles [OF ok fe] fe pid show ?thesis
      by (simp add: handles_ok_snoc_iff fetched_def)
  next
    fix pc1
    assume "fetch_page no_policy hint pid pc = (Inl BufferPoolFull, pc1)" and fu: "pool_full pc pc1 pid"
    with fp have "r = Inl BufferPoolFull" "pc' = pc1" by simp_all
    with fu ok pid show ?thesis by (auto simp: handles_ok_def pool_full_def)
  qed
qed

lemma thread_handles_update:
  assumes "k < length ts"
  shows "mset (thread_handles (ts[k := PfHolding h])) = mset (thread_handles (ts[k := PfDone])) + {#h#}"
    and "ts ! k = PfHolding h \<Longrightarrow> mset (thread_handles ts) = mset (thread_handles (ts[k := PfDone])) + {#h#}"
    and "(\<And>h. ts ! k \<noteq> PfHolding h) \<Longrightarrow> thread_handles (ts[k := PfDone]) = thread_handles ts"
proof -
  have split: "ts = take k ts @ ts ! k # drop (Suc k) ts" using assms by (rule id_take_nth_drop)
  have upd: "ts[k := x] = take k ts @ x # drop (Suc k) ts" for x by (rule upd_conv_take_nth_drop [OF assms])
  show "mset (thread_handles (ts[k := PfHolding h])) = mset (thread_handles (ts[k := PfDone])) + {#h#}"
    by (simp add: thread_handles_def upd)
  show "mset (thread_handles ts) = mset (thread_handles (ts[k := PfDone])) + {#h#}" if "ts ! k = PfHolding h"
    by (subst split) (simp add: thread_handles_def upd that)
  show "thread_handles (ts[k := PfDone]) = thread_handles ts" if "\<And>h. ts ! k \<noteq> PfHolding h"
    by (subst (2) split, cases "ts ! k") (use that in \<open>simp_all add: thread_handles_def upd\<close>)
qed

lemma handles_ok_perm:
  "handles_ok pc hs \<Longrightarrow> mset hs = mset hs' \<Longrightarrow> handles_ok pc hs'"
  using handles_ok_mset by blast

lemma set_from_mset: "mset xs = mset ys \<Longrightarrow> set xs = set ys"
  by (metis set_mset_mset)

lemma thread_step_ok:
  assumes ok: "engine_ok hs en"
  shows "engine_ok hs (thread_step k en) \<and> same_store en (thread_step k en)"
proof (cases "k < length (en_threads en)")
  case False
  with ok show ?thesis by (simp add: thread_step_def)
next
  case k: True
  let ?ts = "en_threads en"
  have h: "handles_ok (en_cache en) (hs @ thread_handles ?ts)" and live: "\<forall>h \<in> set hs \<union> set (thread_handles ?ts). ph_cached h"
    using ok by (simp_all add: engine_ok_def)
  show ?thesis
  proof (cases "?ts ! k")
    case (PfStart pid)
    then have same: "thread_handles (?ts[k := PfDone]) = thread_handles ?ts"
      by (intro thread_handles_update(3) [OF k]) simp
    obtain r pc where f: "bounded_fetch initial_workload_hint pid (en_cache en) = (r, pc)" by fastforce
    note c = bounded_fetch_cases [OF h f]
    show ?thesis
    proof (cases r)
      case (Inl e)
      then have "handles_ok pc (hs @ thread_handles ?ts)" using c by auto
      then show ?thesis
        using k PfStart f Inl c live by (auto simp: thread_step_def engine_ok_def same_store_def same engine_view_def)
    next
      case (Inr h')
      then have "handles_ok pc (h' # hs @ thread_handles ?ts)" "ph_cached h'" using c by auto
      moreover have m: "mset (thread_handles (?ts[k := PfHolding h'])) = mset (thread_handles ?ts) + {#h'#}"
        using thread_handles_update(1) [OF k, of h'] same by simp
      ultimately have "handles_ok pc (hs @ thread_handles (?ts[k := PfHolding h']))"
        by (elim handles_ok_perm) simp
      moreover have "set (thread_handles (?ts[k := PfHolding h'])) = insert h' (set (thread_handles ?ts))"
        using set_from_mset [of _ "h' # thread_handles ?ts"] m by simp
      ultimately show ?thesis
        using k PfStart f Inr c live \<open>ph_cached h'\<close>
        by (auto simp: thread_step_def engine_ok_def same_store_def engine_view_def)
    qed
  next
    case (PfHolding h')
    have m: "mset (thread_handles ?ts) = mset (h' # thread_handles (?ts[k := PfDone]))"
      using thread_handles_update(2) [OF k PfHolding] by simp
    then have st: "set (thread_handles ?ts) = insert h' (set (thread_handles (?ts[k := PfDone])))"
      using set_from_mset [OF m] by simp
    then have "ph_cached h'" using live by simp
    moreover have "handles_ok (en_cache en) (h' # hs @ thread_handles (?ts[k := PfDone]))"
      by (rule handles_ok_perm [OF h]) (simp add: m)
    ultimately have d: "handles_ok (handle_destroy h' (en_cache en)) (hs @ thread_handles (?ts[k := PfDone]))"
      by (intro destroy_handles)
    have c: "cache_ok (en_cache en)" by (rule handles_okD(1) [OF h])
    show ?thesis
      using k PfHolding d live st destroy_view [OF c] destroy_pool [OF c]
      by (auto simp: thread_step_def engine_ok_def same_store_def engine_view_def handle_destroy_def
          unpin_page_ok [OF c] same_disk_os)
  next
    case PfDone
    with ok show ?thesis by (simp add: thread_step_def)
  qed
qed

lemma run_scheduled_ok:
  assumes ok: "engine_ok hs en"
  shows "engine_ok hs (run_scheduled en) \<and> same_store en (run_scheduled en)"
proof -
  have "engine_ok hs en' \<Longrightarrow> engine_ok hs (fold thread_step ks en') \<and> same_store en' (fold thread_step ks en')"
    for ks en'
  proof (induction ks arbitrary: en')
    case Nil
    then show ?case by simp
  next
    case (Cons k ks)
    note t = thread_step_ok [OF Cons.prems, of k]
    have "engine_ok hs (fold thread_step ks (thread_step k en'))"
      "same_store (thread_step k en') (fold thread_step ks (thread_step k en'))"
      using Cons.IH [of "thread_step k en'"] t by simp_all
    with t same_store_trans [of en' "thread_step k en'"] show ?case by simp
  qed
  from this [of "en\<lparr>en_schedule := tl (en_schedule en)\<rparr>" "hd (en_schedule en)"] ok
  show ?thesis
    by (cases "en_schedule en") (auto simp: run_scheduled_def engine_ok_def same_store_def engine_view_def)
qed

section \<open>The engine as a source of pages\<close>

text \<open>
  The contract that readers of pages rely on. \<open>ok hs s\<close>: \<open>hs\<close> are the handles held; \<open>same s s'\<close>: the pages
  and their number have not changed; \<open>roomy s\<close>: fetches cannot fail.
\<close>

locale page_source =
  fixes ok :: "'h list \<Rightarrow> 's \<Rightarrow> bool" and same :: "'s \<Rightarrow> 's \<Rightarrow> bool"
    and total :: "'s \<Rightarrow> u32" and view :: "'s \<Rightarrow> u32 \<Rightarrow> bytes" and roomy :: "'s \<Rightarrow> bool"
    and fetch :: "u32 \<Rightarrow> 's \<Rightarrow> 'h result \<times> 's" and data :: "'h \<Rightarrow> 's \<Rightarrow> bytes result"
    and release :: "'h \<Rightarrow> 's \<Rightarrow> 's" and prefetch :: "u32 \<Rightarrow> 's \<Rightarrow> 's" and page_of :: "'h \<Rightarrow> u32"
  assumes same_refl: "same s s"
    and same_trans: "same s s' \<Longrightarrow> same s' s'' \<Longrightarrow> same s s''"
    and same_total: "same s s' \<Longrightarrow> total s' = total s"
    and same_view: "same s s' \<Longrightarrow> view s' pid = view s pid"
    and same_roomy: "same s s' \<Longrightarrow> roomy s' = roomy s"
    and fetch_in: "ok hs s \<Longrightarrow> pid < total s \<Longrightarrow> fetch pid s = (Inr h, s') \<Longrightarrow>
      ok (h # hs) s' \<and> same s s' \<and> page_of h = pid"
    and fetch_failed: "ok hs s \<Longrightarrow> pid < total s \<Longrightarrow> fetch pid s = (Inl e, s') \<Longrightarrow>
      e = BufferPoolFull \<and> \<not> roomy s \<and> ok hs s' \<and> same s s'"
    and data_view: "ok (h # hs) s \<Longrightarrow> data h s = Inr (view s (page_of h))"
    and release_ok: "ok (h # hs) s \<Longrightarrow> ok hs (release h s) \<and> same s (release h s)"
    and prefetch_ok: "ok hs s \<Longrightarrow> ok hs (prefetch pid s) \<and> same s (prefetch pid s)"

text \<open>The pool has a frame for every page of the file.\<close>

definition engine_roomy :: "engine \<Rightarrow> bool" where
  "engine_roomy en \<longleftrightarrow> unat (get_total_pages en) \<le> length (pc_pool (en_cache en))"

lemma roomy_not_full:
  assumes ok: "handles_ok pc hs" and live: "\<forall>h \<in> set hs. ph_cached h" and full: "pool_full pc pc' pid"
    and pid: "pid < mf_page_count (pc_file pc)"
  shows "length (pc_pool pc) < unat (mf_page_count (pc_file pc))"
proof -
  let ?opn = "{q. Some q \<in> set (map handle_page hs)}"
  let ?all = "{q. q < mf_page_count (pc_file pc)}"
  have "q \<in> ?all" if q: "q \<in> ?opn" for q
  proof -
    obtain h where h: "h \<in> set hs" "ph_cached h" "ph_page_id h = q"
      using q by (auto simp: handle_page_def split: if_splits)
    then have "pc_page_map pc q = Some (ph_frame h)" using ok by (auto simp: handles_ok_def)
    then show ?thesis using cache_okD(6) [OF handles_okD(1) [OF ok]] by simp
  qed
  then have "?opn \<subset> ?all" using pool_full_open(1) [OF ok full] pid by blast
  moreover have "finite ?all" by simp
  ultimately have "card ?opn < card ?all" by (intro psubset_card_mono)
  moreover have "card ?all = unat (mf_page_count (pc_file pc))"
  proof -
    have "bij_betw unat ?all {..<unat (mf_page_count (pc_file pc))}"
    proof (rule bij_betw_imageI)
      show "inj_on unat ?all" by (simp add: inj_on_def word_unat_eq_iff)
      show "unat ` ?all = {..<unat (mf_page_count (pc_file pc))}"
      proof (intro equalityI subsetI)
        fix n assume "n \<in> {..<unat (mf_page_count (pc_file pc))}"
        then have n: "n < unat (mf_page_count (pc_file pc))" by simp
        then have "n < 4294967296" using unat_u32_lt [of "mf_page_count (pc_file pc)"] by simp
        then have "unat (word_of_nat n :: u32) = n" by simp
        moreover from this n have "(word_of_nat n :: u32) \<in> ?all" by (simp add: word_less_nat_alt)
        ultimately show "n \<in> unat ` ?all" by (metis image_eqI)
      qed (auto simp: word_less_nat_alt)
    qed
    then show ?thesis by (simp add: bij_betw_same_card [of unat ?all])
  qed
  ultimately show ?thesis using pool_full_open(2) [OF ok full] by simp
qed

lemma engine_fetch_ok:
  assumes ok: "engine_ok hs en" and pid: "pid < get_total_pages en" and f: "engine_fetch_page pid en = (r, en')"
  shows "same_store en en' \<and>
    ((\<exists>h. r = Inr h \<and> ph_page_id h = pid \<and> engine_ok (h # hs) en') \<or>
     (r = Inl BufferPoolFull \<and> \<not> engine_roomy en \<and> engine_ok hs en'))"
proof -
  define en1 where "en1 = run_scheduled en"
  have ok1: "engine_ok hs en1" and s1: "same_store en en1"
    using run_scheduled_ok [OF ok] by (simp_all add: en1_def)
  obtain pc where bf: "bounded_fetch (en_hint en1) pid (en_cache en1) = (r, pc)" and en': "en' = en1\<lparr>en_cache := pc\<rparr>"
    using f by (auto simp: engine_fetch_page_def Let_def en1_def [symmetric] split: prod.splits)
  have h: "handles_ok (en_cache en1) (hs @ thread_handles (en_threads en1))"
    and live: "\<forall>h \<in> set (hs @ thread_handles (en_threads en1)). ph_cached h"
    using ok1 by (auto simp: engine_ok_def)
  note c = bounded_fetch_cases [OF h bf]
  have "same_store en1 en'" using c by (simp add: same_store_def en' engine_view_def)
  then have same: "same_store en en'" by (rule same_store_trans [OF s1])
  have pid1: "pid < mf_page_count (pc_file (en_cache en1))"
    using pid same_store_total [OF s1] by (simp add: get_total_pages_def mf_get_page_count_def)
  from c have "(\<exists>h. r = Inr h \<and> ph_page_id h = pid \<and> engine_ok (h # hs) en') \<or>
     (r = Inl BufferPoolFull \<and> \<not> engine_roomy en \<and> engine_ok hs en')"
  proof (elim conjE disjE exE)
    assume "mf_page_count (pc_file (en_cache en1)) \<le> pid"
    with pid1 show ?thesis by simp
  next
    assume r: "r = Inl BufferPoolFull" and full: "pool_full (en_cache en1) pc pid"
      and "handles_ok pc (hs @ thread_handles (en_threads en1))"
    moreover have "length (pc_pool (en_cache en1)) < unat (mf_page_count (pc_file (en_cache en1)))"
      by (rule roomy_not_full [OF h live full pid1])
    then have "\<not> engine_roomy en"
      using s1 by (simp add: engine_roomy_def get_total_pages_def mf_get_page_count_def same_store_def)
    ultimately show ?thesis using ok1 by (simp add: engine_ok_def en')
  qed (use ok1 in \<open>auto simp: engine_ok_def en'\<close>)
  with same show ?thesis by blast
qed

lemma engine_release_ok:
  assumes ok: "engine_ok (h # hs) en"
  shows "engine_ok hs (engine_release h en) \<and> same_store en (engine_release h en)"
proof -
  define en1 where "en1 = run_scheduled en"
  have ok1: "engine_ok (h # hs) en1" and s1: "same_store en en1"
    using run_scheduled_ok [OF ok] by (simp_all add: en1_def)
  have hd: "handles_ok (en_cache en1) (h # hs @ thread_handles (en_threads en1))" and cached: "ph_cached h"
    using ok1 by (simp_all add: engine_ok_def)
  have c: "cache_ok (en_cache en1)" by (rule handles_okD(1) [OF hd])
  have "same_store en1 (engine_release h en)"
    using cached by (simp add: engine_release_def en1_def [symmetric] Let_def same_store_def engine_view_def
        handle_destroy_def unpin_page_ok [OF c] same_disk_os)
  moreover have "engine_ok hs (engine_release h en)"
    using destroy_handles [OF hd cached] ok1
    by (simp add: engine_release_def en1_def [symmetric] Let_def engine_ok_def)
  ultimately show ?thesis using same_store_trans [OF s1] by blast
qed

lemma prefetch_page_ok:
  assumes ok: "engine_ok hs en"
  shows "engine_ok hs (prefetch_page pid en) \<and> same_store en (prefetch_page pid en)"
  using ok by (simp add: prefetch_page_def engine_ok_def same_store_def engine_view_def thread_handles_def same_disk_os)

lemma raw_data_ok:
  assumes ok: "engine_ok (h # hs) en"
  shows "raw_data h en = Inr (engine_view en (ph_page_id h))"
proof -
  have hd: "handles_ok (en_cache en) (h # hs @ thread_handles (en_threads en))" and cached: "ph_cached h"
    using ok by (simp_all add: engine_ok_def)
  have at: "pc_page_map (en_cache en) (ph_page_id h) = Some (ph_frame h)"
    using handles_okD(3) [OF hd, of 0] cached by simp
  have c: "cache_ok (en_cache en)" by (rule handles_okD(1) [OF hd])
  have "length (cache_view (en_cache en) (ph_page_id h)) = 4096"
    using cache_okD(3,7) [OF c] at by (simp add: cache_view_def)
  then show ?thesis
    using handle_read_ok [OF c at, of 0 4096] by (simp add: raw_data_def engine_view_def)
qed

interpretation engine: page_source engine_ok same_store get_total_pages engine_view engine_roomy
  engine_fetch_page raw_data engine_release prefetch_page ph_page_id
proof unfold_locales
  fix hs s pid h s'
  assume "engine_ok hs s" "pid < get_total_pages s" "engine_fetch_page pid s = (Inr h, s')"
  from engine_fetch_ok [OF this] show "engine_ok (h # hs) s' \<and> same_store s s' \<and> ph_page_id h = pid" by auto
next
  fix hs s pid e s'
  assume "engine_ok hs s" "pid < get_total_pages s" "engine_fetch_page pid s = (Inl e, s')"
  from engine_fetch_ok [OF this]
  show "e = BufferPoolFull \<and> \<not> engine_roomy s \<and> engine_ok hs s' \<and> same_store s s'" by auto
qed (auto simp: same_store_total same_store_trans engine_release_ok prefetch_page_ok raw_data_ok,
    auto simp: same_store_def engine_roomy_def get_total_pages_def)

section \<open>Properties\<close>

definition three_pages :: mapped_file where
  "three_pages = \<lparr>mf_path = ''db'', mf_fd = 3, mf_data = Some 12288, mf_file_size = 12288, mf_page_count = 3\<rparr>"

definition three_pages_os :: os where
  "three_pages_os = \<lparr>os_files = [''db'' \<mapsto> replicate 12288 0], os_fds = [3 \<mapsto> ''db'']\<rparr>"

definition small_engine :: "nat \<Rightarrow> nat list list \<Rightarrow> engine" where
  "small_engine capacity schedule =
     \<lparr>en_cache = cache_new three_pages three_pages_os (\<lambda>_. observer_new 4) capacity None None,
      en_hint = PointLookup, en_threads = [], en_schedule = schedule\<rparr>"

lemma three_pages_ok: "mf_ok three_pages three_pages_os"
  by (simp add: mf_ok_def three_pages_def three_pages_os_def os_content_def)

lemma engine_ok_new:
  assumes "mf_ok file sys"
  shows "engine_ok [] \<lparr>en_cache = cache_new file sys obs capacity observer None, en_hint = hint,
    en_threads = [], en_schedule = schedule\<rparr>"
  by (simp add: engine_ok_def handles_ok_def thread_handles_def cache_ok_new [OF assms])

lemma small_engine_ok: "engine_ok [] (small_engine capacity schedule)"
  unfolding small_engine_def by (rule engine_ok_new [OF three_pages_ok])

text \<open>
  C21: However the prefetch threads are scheduled, a fetch of a page of the file returns a handle through
  which the main thread reads exactly the page, with all pages and the other handles as before, or it
  fails because the pool is full; that cannot happen when the pool has a frame for every page.
\<close>

theorem engine_fetch_reads_page:
  assumes "engine_ok hs en" and "pid < get_total_pages en"
  shows "case engine_fetch_page pid en of (r, en') \<Rightarrow>
    same_store en en' \<and>
    (case r of Inr h \<Rightarrow> engine_ok (h # hs) en' \<and> raw_data h en' = Inr (engine_view en pid)
     | Inl e \<Rightarrow> e = BufferPoolFull \<and> \<not> engine_roomy en \<and> engine_ok hs en')"
proof (cases "engine_fetch_page pid en")
  case (Pair r en')
  note f = engine_fetch_ok [OF assms Pair]
  have "raw_data h en' = Inr (engine_view en pid)" if "engine_ok (h # hs) en'" "ph_page_id h = pid" for h
    using raw_data_ok [OF that(1)] that(2) f by (simp add: same_store_def)
  with f Pair show ?thesis by auto
qed

lemma engine_fetch_reads_page_witness:
  "case engine_fetch_page 2 (small_engine 2 [[0, 1]]) of (r, en') \<Rightarrow>
    same_store (small_engine 2 [[0, 1]]) en' \<and>
    (case r of Inr h \<Rightarrow> engine_ok [h] en' \<and> raw_data h en' = Inr (engine_view (small_engine 2 [[0, 1]]) 2)
     | Inl e \<Rightarrow> e = BufferPoolFull \<and> \<not> engine_roomy (small_engine 2 [[0, 1]]) \<and> engine_ok [] en')"
  by (rule engine_fetch_reads_page [OF small_engine_ok])
    (simp add: small_engine_def get_total_pages_def mf_get_page_count_def cache_new_def three_pages_def)

text \<open>Growing the file under the pool.\<close>

lemma cache_grow:
  assumes ok: "handles_ok pc hs" and small: "unat (mf_page_count (pc_file pc)) + 1 < 2 ^ 20"
  shows "\<exists>mf' sys'. mf_grow_file (mf_page_count (pc_file pc) + 1) True True (pc_file pc) (pc_os pc) = (Inr (), mf', sys') \<and>
    handles_ok (pc\<lparr>pc_file := mf', pc_os := sys'\<rparr>) hs \<and>
    mf_page_count mf' = mf_page_count (pc_file pc) + 1 \<and> mf_path mf' = mf_path (pc_file pc) \<and>
    os_content sys' (mf_path mf') =
      resize (4096 * (unat (mf_page_count (pc_file pc)) + 1)) (os_content (pc_os pc) (mf_path (pc_file pc))) \<and>
    (\<forall>q < mf_page_count (pc_file pc). cache_view (pc\<lparr>pc_file := mf', pc_os := sys'\<rparr>) q = cache_view pc q)"
proof -
  let ?mf = "pc_file pc" and ?sys = "pc_os pc"
  let ?n = "mf_page_count ?mf + 1"
  have c: "cache_ok pc" and mf: "mf_ok ?mf ?sys" using handles_okD(1) [OF ok] cache_okD(1) by auto
  have un: "unat ?n = unat (mf_page_count ?mf) + 1" using small by (simp add: unat_word_ariths)
  have more: "mf_page_count ?mf < ?n" using un by (simp add: word_less_nat_alt)
  obtain mf' sys' where g: "mf_grow_file ?n True True ?mf ?sys = (Inr (), mf', sys')" "mf_ok mf' sys'"
    "mf_page_count mf' = ?n" "mf_path mf' = mf_path ?mf"
    "sys' = os_write (mf_path ?mf) (resize (4096 * unat ?n) (os_content ?sys (mf_path ?mf))) ?sys"
    "\<forall>q < mf_page_count ?mf. mf_load mf' sys' (mf_get_page mf' q) = mf_load ?mf ?sys (mf_get_page ?mf q)"
    using grow_file_ok [OF mf more] un small by (auto simp: mf_get_page_count_def)
  let ?pc' = "pc\<lparr>pc_file := mf', pc_os := sys'\<rparr>"
  have old: "q < mf_page_count mf'" if "q < mf_page_count ?mf" for q
    using that more by (simp add: g(3))
  have "cache_ok ?pc'" using c g(2) old by (auto simp: cache_ok_def)
  then have "handles_ok ?pc' hs"
    using ok by (auto simp: handles_ok_def get_pin_count_for_test_def cong: option.case_cong)
  moreover have "cache_view ?pc' q = cache_view pc q" if "q < mf_page_count ?mf" for q
    using that g(6) mf_load_page [OF mf that] mf_load_page [OF g(2) old [OF that]]
    by (auto simp: cache_view_def disk_page_def g(4) split: option.split)
  ultimately show ?thesis using g un by (intro exI [of _ mf'] exI [of _ sys']) simp
qed

lemma write_header_ok:
  assumes ok: "handles_ok pc (h # hs)" and cached: "ph_cached h"
  shows "\<exists>pc'. write_header h v pc = Inr pc' \<and> handles_ok pc' (h # hs) \<and>
    pc_file pc' = pc_file pc \<and> length (pc_pool pc') = length (pc_pool pc) \<and>
    cache_view pc' = (cache_view pc)(ph_page_id h :=
      set_next_page_id 0xFFFFFFFF (set_magic PAGE_MAGIC (set_page_id v (cache_view pc (ph_page_id h)))))"
proof -
  have w: "\<exists>pc'. handle_write h off src pc = Inr pc' \<and> handles_ok pc' (h # hs) \<and> pc_file pc' = pc_file pc \<and>
      length (pc_pool pc') = length (pc_pool pc) \<and>
      cache_view pc' = (cache_view pc)(ph_page_id h := mwrite (cache_view pc (ph_page_id h)) off src)"
    if h: "handles_ok pc (h # hs)" and n: "off + length src \<le> 4096" for off src and pc :: "unit page_cache"
  proof -
    have at: "pc_page_map pc (ph_page_id h) = Some (ph_frame h)"
      using handles_okD(3) [OF h, of 0] cached by simp
    obtain pc' where "handle_write h off src pc = Inr pc'" "pc_file pc' = pc_file pc"
      using handle_write_ok [OF handles_okD(1) [OF h] at n] by blast
    with write_handles [OF h, of 0 off src] cached n show ?thesis by auto
  qed
  obtain pc1 where 1: "handle_write h 4 (put_u32 v) pc = Inr pc1" "handles_ok pc1 (h # hs)" "pc_file pc1 = pc_file pc"
    "length (pc_pool pc1) = length (pc_pool pc)"
    "cache_view pc1 = (cache_view pc)(ph_page_id h := set_page_id v (cache_view pc (ph_page_id h)))"
    using w [OF ok, of 4 "put_u32 v"] by (auto simp: set_page_id_def)
  obtain pc2 where 2: "handle_write h 0 (put_u32 PAGE_MAGIC) pc1 = Inr pc2" "handles_ok pc2 (h # hs)"
    "pc_file pc2 = pc_file pc1" "length (pc_pool pc2) = length (pc_pool pc1)"
    "cache_view pc2 = (cache_view pc1)(ph_page_id h := set_magic PAGE_MAGIC (cache_view pc1 (ph_page_id h)))"
    using w [OF 1(2), of 0 "put_u32 PAGE_MAGIC"] by (auto simp: set_magic_def)
  obtain pc3 where 3: "handle_write h 8 (put_u32 0xFFFFFFFF) pc2 = Inr pc3" "handles_ok pc3 (h # hs)"
    "pc_file pc3 = pc_file pc2" "length (pc_pool pc3) = length (pc_pool pc2)"
    "cache_view pc3 = (cache_view pc2)(ph_page_id h := set_next_page_id 0xFFFFFFFF (cache_view pc2 (ph_page_id h)))"
    using w [OF 2(2), of 8 "put_u32 0xFFFFFFFF"] by (auto simp: set_next_page_id_def)
  show ?thesis
    by (intro exI [of _ pc3]) (simp add: write_header_def 1 2 3)
qed

lemma cached_page_length:
  "cache_ok pc \<Longrightarrow> pc_page_map pc q = Some f \<Longrightarrow> length (cache_view pc q) = 4096"
  by (auto simp: cache_view_def intro!: cache_okD(3) cache_okD(7))

lemma header_written:
  assumes "length p = 4096"
  shows "get_header (set_next_page_id n (set_magic m (set_page_id v p))) =
    (get_header p)\<lparr>hdr_magic := m, hdr_page_id := v, hdr_next_page_id := n\<rparr>"
  using assms by simp

text \<open>\<open>allocate_page\<close> up to the fetch of the new page, on a file that has grown.\<close>

lemma allocate_fetch:
  assumes ok: "engine_ok hs en" and small: "unat (get_total_pages en) + 1 < 2 ^ 20"
  obtains en2 r pc where "engine_ok hs en2" and "bounded_fetch (en_hint en2) (get_total_pages en) (en_cache en2) = (r, pc)"
    and "mf_page_count (pc_file (en_cache en2)) = get_total_pages en + 1" and "get_total_pages en < get_total_pages en + 1"
    and "\<And>q. q < get_total_pages en \<Longrightarrow> engine_view en2 q = engine_view en q"
    and "allocate_page True True en = (case r of Inl e \<Rightarrow> (Inl e, en2\<lparr>en_cache := pc\<rparr>)
      | Inr h \<Rightarrow> (case write_header h (get_total_pages en) pc of
           Inl e \<Rightarrow> (Inl e, en2\<lparr>en_cache := pc\<rparr>) | Inr pc' \<Rightarrow> (Inr h, en2\<lparr>en_cache := pc'\<rparr>)))"
proof -
  let ?id = "get_total_pages en"
  have id: "?id = mf_page_count (pc_file (en_cache en))" by (simp add: get_total_pages_def mf_get_page_count_def)
  have h0: "handles_ok (en_cache en) (hs @ thread_handles (en_threads en))" using ok by (simp add: engine_ok_def)
  obtain mf' sys' where g: "mf_grow_file (?id + 1) True True (pc_file (en_cache en)) (pc_os (en_cache en)) = (Inr (), mf', sys')"
    "handles_ok ((en_cache en)\<lparr>pc_file := mf', pc_os := sys'\<rparr>) (hs @ thread_handles (en_threads en))"
    "mf_page_count mf' = ?id + 1"
    "\<forall>q < ?id. cache_view ((en_cache en)\<lparr>pc_file := mf', pc_os := sys'\<rparr>) q = cache_view (en_cache en) q"
    using cache_grow [OF h0] small unfolding id by blast
  define en1 where "en1 = en\<lparr>en_cache := (en_cache en)\<lparr>pc_file := mf', pc_os := sys'\<rparr>\<rparr>"
  define en2 where "en2 = run_scheduled en1"
  have "engine_ok hs en1" using ok g(2) by (simp add: engine_ok_def en1_def)
  then have ok2: "engine_ok hs en2" and s2: "same_store en1 en2"
    using run_scheduled_ok by (simp_all add: en2_def)
  have count2: "mf_page_count (pc_file (en_cache en2)) = ?id + 1"
    using s2 g(3) by (simp add: same_store_def en1_def)
  have view2: "engine_view en2 q = engine_view en q" if "q < ?id" for q
    using s2 g(4) that by (simp add: same_store_def engine_view_def en1_def)
  obtain r pc where f: "fetch_page no_policy (en_hint en2) ?id (en_cache en2) = (r, pc)" by fastforce
  have new: "?id < ?id + 1" using small by (simp add: word_less_nat_alt unat_word_ariths)
  then have "\<not> ?id + 1 \<le> ?id" by (simp only: not_le)
  then have bf: "bounded_fetch (en_hint en2) ?id (en_cache en2) = (r, pc)"
    using f by (simp add: bounded_fetch_def mf_get_page_count_def count2)
  have "allocate_page True True en = (case r of Inl e \<Rightarrow> (Inl e, en2\<lparr>en_cache := pc\<rparr>)
      | Inr h \<Rightarrow> (case write_header h ?id pc of
           Inl e \<Rightarrow> (Inl e, en2\<lparr>en_cache := pc\<rparr>) | Inr pc' \<Rightarrow> (Inr h, en2\<lparr>en_cache := pc'\<rparr>)))"
    using g(1) f unfolding en2_def en1_def
    by (simp add: allocate_page_def get_total_pages_def [symmetric] Let_def)
  from that [OF ok2 bf count2 new view2 this] show thesis .
qed

text \<open>
  \<open>allocate_page\<close>, when the system calls succeed and the file stays below \<open>2\<^sup>2\<^sup>0\<close> pages, grows the file by
  one page and keeps the content of all old pages; it returns a handle to the new page with its header
  initialised, or fails because the pool is full, which leaves the file grown.
\<close>

theorem allocate_page_appends_page:
  assumes ok: "engine_ok hs en" and small: "unat (get_total_pages en) + 1 < 2 ^ 20"
  shows "case allocate_page True True en of (r, en') \<Rightarrow>
    get_total_pages en' = get_total_pages en + 1 \<and>
    (\<forall>q < get_total_pages en. engine_view en' q = engine_view en q) \<and>
    (case r of
       Inr h \<Rightarrow> engine_ok (h # hs) en' \<and> ph_page_id h = get_total_pages en \<and>
         (let hdr = get_header (engine_view en' (get_total_pages en)) in
          hdr_magic hdr = PAGE_MAGIC \<and> hdr_page_id hdr = get_total_pages en \<and> hdr_next_page_id hdr = 0xFFFFFFFF)
     | Inl e \<Rightarrow> e = BufferPoolFull \<and> engine_ok hs en')"
proof -
  let ?id = "get_total_pages en"
  obtain en2 r pc where a: "engine_ok hs en2" "bounded_fetch (en_hint en2) ?id (en_cache en2) = (r, pc)"
    "mf_page_count (pc_file (en_cache en2)) = ?id + 1" "?id < ?id + 1" "\<And>q. q < ?id \<Longrightarrow> engine_view en2 q = engine_view en q"
    "allocate_page True True en = (case r of Inl e \<Rightarrow> (Inl e, en2\<lparr>en_cache := pc\<rparr>)
      | Inr h \<Rightarrow> (case write_header h ?id pc of
           Inl e \<Rightarrow> (Inl e, en2\<lparr>en_cache := pc\<rparr>) | Inr pc' \<Rightarrow> (Inr h, en2\<lparr>en_cache := pc'\<rparr>)))"
    by (rule allocate_fetch [OF assms]) (rule that; assumption)
  note ok2 = a(1) and new = a(4) and alloc = a(6)
  have h2: "handles_ok (en_cache en2) (hs @ thread_handles (en_threads en2))" using ok2 by (simp add: engine_ok_def)
  note c = bounded_fetch_cases [OF h2 a(2), unfolded a(3)]
  have fl: "mf_page_count (pc_file pc) = ?id + 1" using c a(3) by simp
  have viewpc: "cache_view pc q = engine_view en q" if "q < ?id" for q
    using c a(5) [OF that] by (simp add: engine_view_def)
  show ?thesis
  proof (cases r)
    case (Inl e)
    then have "e = BufferPoolFull" "handles_ok pc (hs @ thread_handles (en_threads en2))" using c new by auto
    then show ?thesis
      using Inl alloc fl viewpc ok2
      by (simp add: get_total_pages_def mf_get_page_count_def engine_view_def engine_ok_def)
  next
    case (Inr h)
    then have hh: "handles_ok pc (h # hs @ thread_handles (en_threads en2))" "ph_cached h" "ph_page_id h = ?id"
      using c by auto
    obtain pc' where w: "write_header h ?id pc = Inr pc'" "handles_ok pc' (h # hs @ thread_handles (en_threads en2))"
      "pc_file pc' = pc_file pc"
      "cache_view pc' = (cache_view pc)(?id :=
         set_next_page_id 0xFFFFFFFF (set_magic PAGE_MAGIC (set_page_id ?id (cache_view pc ?id))))"
      using write_header_ok [OF hh(1,2), of ?id] hh(3) by auto
    have "length (cache_view pc ?id) = 4096"
      using cached_page_length [OF handles_okD(1) [OF hh(1)], of ?id "ph_frame h"]
        handles_okD(3) [OF hh(1), of 0] hh(2,3) by simp
    then have "get_header (cache_view pc' ?id) =
        (get_header (cache_view pc ?id))\<lparr>hdr_magic := PAGE_MAGIC, hdr_page_id := ?id, hdr_next_page_id := 0xFFFFFFFF\<rparr>"
      unfolding w(4) by (simp add: header_written)
    moreover have "cache_view pc' q = engine_view en q" if "q < ?id" for q
      using w(4) viewpc [OF that] that by auto
    ultimately show ?thesis
      using Inr alloc w(1,2,3) hh fl ok2
      by (simp add: get_total_pages_def mf_get_page_count_def engine_view_def engine_ok_def)
  qed
qed

lemma allocate_page_appends_page_witness:
  "case allocate_page True True (small_engine 2 []) of (r, en') \<Rightarrow>
    get_total_pages en' = get_total_pages (small_engine 2 []) + 1 \<and>
    (\<forall>q < get_total_pages (small_engine 2 []). engine_view en' q = engine_view (small_engine 2 []) q) \<and>
    (case r of
       Inr h \<Rightarrow> engine_ok [h] en' \<and> ph_page_id h = get_total_pages (small_engine 2 []) \<and>
         (let hdr = get_header (engine_view en' (get_total_pages (small_engine 2 []))) in
          hdr_magic hdr = PAGE_MAGIC \<and> hdr_page_id hdr = get_total_pages (small_engine 2 []) \<and>
          hdr_next_page_id hdr = 0xFFFFFFFF)
     | Inl e \<Rightarrow> e = BufferPoolFull \<and> engine_ok [] en')"
  by (rule allocate_page_appends_page [OF small_engine_ok])
    (simp add: small_engine_def get_total_pages_def mf_get_page_count_def cache_new_def three_pages_def)

lemma pool_of_one_held:
  assumes ok: "cache_ok pc" and one: "length (pc_pool pc) = 1" and p: "pc_page_map pc p = Some f" "0 < pins pc p"
    and q: "q \<noteq> p"
  shows "pc_free_frames pc = []" "unpinned pc = []" "pc_page_map pc q = None"
proof -
  note fr = cache_okD(5) [OF ok]
  have f: "f = 0" using frames_ok_less [OF fr p(1)] one by simp
  have only: "r = p" if r: "pc_page_map pc r = Some g" for r g
  proof -
    have "g = f" using frames_ok_less [OF fr r] one f by simp
    then show ?thesis using frames_ok_inj [OF fr p(1)] r by blast
  qed
  show "pc_page_map pc q = None" using only [of q] q by (cases "pc_page_map pc q") auto
  have "set (pc_free_frames pc) \<subseteq> {0}" "0 \<notin> set (pc_free_frames pc)"
    using fr one p(1) f by (auto simp: frames_ok_def dest: ranI)
  then show "pc_free_frames pc = []" by (cases "pc_free_frames pc") auto
  have "r \<notin> set (unpinned pc)" for r
    using unpinned_iff [OF ok, of r] only [of r] p(2) by auto
  then show "unpinned pc = []" by (cases "unpinned pc") auto
qed

text \<open>
  C35: A prefetch thread can make the main thread's fetch fail: with a pool of one frame and no page held,
  the fetch of a page succeeds when no thread runs, but throws when a thread that prefetches another page
  of the file steps just before it.
\<close>

theorem prefetch_can_starve_fetch:
  assumes ok: "engine_ok [] en" and idle: "thread_handles (en_threads en) = []"
    and one: "length (pc_pool (en_cache en)) = 1"
    and k: "k < length (en_threads en)" "en_threads en ! k = PfStart p"
    and p: "p < get_total_pages en" and q: "q < get_total_pages en" "q \<noteq> p"
  shows "(\<exists>h. fst (engine_fetch_page q (en\<lparr>en_schedule := []\<rparr>)) = Inr h) \<and>
    fst (engine_fetch_page q (en\<lparr>en_schedule := [[k]]\<rparr>)) = Inl BufferPoolFull"
proof -
  let ?pc = "en_cache en"
  have h: "handles_ok ?pc []" using ok idle by (simp add: engine_ok_def)
  have c: "cache_ok ?pc" by (rule handles_okD(1) [OF h])
  have succeeds: "\<exists>f pc1. bounded_fetch hint r ?pc = (Inr \<lparr>ph_cached = True, ph_frame = f, ph_page_id = r\<rparr>, pc1) \<and>
      fetched ?pc pc1 r f" if "r < get_total_pages en" for r hint
  proof -
    have r: "r < mf_page_count (pc_file ?pc)" using that by (simp add: get_total_pages_def mf_get_page_count_def)
    then have bf: "bounded_fetch hint r ?pc = fetch_page no_policy hint r ?pc"
      unfolding not_le [symmetric] by (simp add: bounded_fetch_def mf_get_page_count_def)
    have "\<not> pool_full ?pc pc1 r" for pc1
      using pool_full_open(2) [OF h, of pc1 r] one by auto
    then show ?thesis using no_policy.fetch_page_ok [OF c r, of hint] unfolding bf by blast
  qed
  have "\<exists>h. fst (engine_fetch_page q (en\<lparr>en_schedule := []\<rparr>)) = Inr h"
    using succeeds [OF q(1), of "en_hint en"] by (auto simp: engine_fetch_page_def run_scheduled_def Let_def)
  moreover obtain f pc1 where bp: "bounded_fetch initial_workload_hint p ?pc =
      (Inr \<lparr>ph_cached = True, ph_frame = f, ph_page_id = p\<rparr>, pc1)" and fe: "fetched ?pc pc1 p f"
    using succeeds [OF p, of initial_workload_hint] by blast
  have c1: "cache_ok pc1" "length (pc_pool pc1) = 1" "pc_page_map pc1 p = Some f" "0 < pins pc1 p"
    and fl: "pc_file pc1 = pc_file ?pc"
    using fe one by (simp_all add: fetched_def)
  note held = pool_of_one_held [OF c1 q(2)]
  obtain pc2 where full: "fetch_page no_policy (en_hint en) q pc1 = (Inl BufferPoolFull, pc2)"
    using no_policy.fetch_miss_full [OF c1(1) held(3,1,2)] by blast
  have "q < mf_page_count (pc_file pc1)" using q(1) fl by (simp add: get_total_pages_def mf_get_page_count_def)
  then have "bounded_fetch (en_hint en) q pc1 = (Inl BufferPoolFull, pc2)"
    unfolding not_le [symmetric] using full by (simp add: bounded_fetch_def mf_get_page_count_def)
  then have "fst (engine_fetch_page q (en\<lparr>en_schedule := [[k]]\<rparr>)) = Inl BufferPoolFull"
    using k bp by (simp add: engine_fetch_page_def run_scheduled_def thread_step_def Let_def)
  ultimately show ?thesis by blast
qed

definition prefetching_engine :: engine where
  "prefetching_engine = prefetch_page 2 (small_engine 1 [])"

lemma prefetch_can_starve_fetch_witness:
  "(\<exists>h. fst (engine_fetch_page 1 (prefetching_engine\<lparr>en_schedule := []\<rparr>)) = Inr h) \<and>
    fst (engine_fetch_page 1 (prefetching_engine\<lparr>en_schedule := [[0]]\<rparr>)) = Inl BufferPoolFull"
proof (rule prefetch_can_starve_fetch)
  show "engine_ok [] prefetching_engine"
    unfolding prefetching_engine_def using prefetch_page_ok [OF small_engine_ok] by blast
  show "en_threads prefetching_engine ! 0 = PfStart 2"
    by (simp add: prefetching_engine_def prefetch_page_def small_engine_def cache_new_def
        mf_get_page_count_def three_pages_def)
qed (simp_all add: prefetching_engine_def prefetch_page_def small_engine_def cache_new_def thread_handles_def
    get_total_pages_def mf_get_page_count_def three_pages_def)

section \<open>Progress of the prefetch threads\<close>

primrec steps_left :: "prefetch_thread \<Rightarrow> nat" where
  "steps_left (PfStart pid) = 2"
| "steps_left (PfHolding h) = 1"
| "steps_left PfDone = 0"

lemma thread_step_progress:
  "length (en_threads (thread_step k en)) = length (en_threads en) \<and>
   (j < length (en_threads en) \<longrightarrow>
    steps_left (en_threads (thread_step k en) ! j) \<le> steps_left (en_threads en ! j) - (if j = k then 1 else 0))"
  by (auto simp: thread_step_def nth_list_update split: prefetch_thread.split prod.split sum.split)

lemma scheduled_progress:
  "engine_ok hs en \<Longrightarrow> engine_ok hs (fold thread_step ks en) \<and> same_store en (fold thread_step ks en) \<and>
   length (en_threads (fold thread_step ks en)) = length (en_threads en) \<and>
   (\<forall>j < length (en_threads en).
      steps_left (en_threads (fold thread_step ks en) ! j) \<le> steps_left (en_threads en ! j) - count_list ks j)"
proof (induction ks arbitrary: en)
  case Nil
  then show ?case by simp
next
  case (Cons k ks)
  let ?en = "thread_step k en"
  note t = thread_step_ok [OF Cons.prems, of k]
  note p = thread_step_progress [of k en]
  note IH = Cons.IH [of ?en, OF conjunct1 [OF t]]
  have "steps_left (en_threads (fold thread_step ks ?en) ! j) \<le> steps_left (en_threads en ! j) - count_list (k # ks) j"
    if j: "j < length (en_threads en)" for j
  proof -
    have "steps_left (en_threads (fold thread_step ks ?en) ! j) \<le> steps_left (en_threads ?en ! j) - count_list ks j"
      using IH j p by simp
    then show ?thesis using p [of j] j by (auto split: if_splits)
  qed
  then show ?case using IH t p same_store_trans [of en ?en] by simp
qed

lemma finished_threads:
  assumes "\<forall>t \<in> set (en_threads en). t = PfDone"
  shows "fold thread_step ks en = en"
proof -
  have "thread_step k en = en" for k
  proof (cases "k < length (en_threads en)")
    case True
    then have "en_threads en ! k = PfDone" using assms by simp
    then show ?thesis by (simp add: thread_step_def)
  qed (simp add: thread_step_def)
  then show ?thesis by (induction ks) simp_all
qed

lemma pool_full_held:
  assumes ok: "handles_ok pc hs" and full: "pool_full pc pc' pid"
  shows "length (pc_pool pc) \<le> length hs"
proof -
  let ?S = "set (map handle_page hs)"
  have sub: "{q. Some q \<in> ?S} \<subseteq> the ` ?S" by (metis (mono_tags, lifting) image_eqI mem_Collect_eq option.sel subsetI)
  have "card {q. Some q \<in> ?S} \<le> card (the ` ?S)" by (rule card_mono [OF _ sub]) simp
  also have "\<dots> \<le> card ?S" by (rule card_image_le) simp
  also have "\<dots> \<le> length hs" using card_length [of "map handle_page hs"] by simp
  finally show ?thesis using pool_full_open(2) [OF ok full] by (rule le_trans [rotated])
qed

text \<open>
  C29: The prefetch threads come to an end and give back what they hold: once every thread has been scheduled
  twice, in any order, all of them are done, no page has changed, and the main thread can fetch any page of the
  file as long as it holds fewer handles than the pool has frames.
\<close>

theorem prefetch_threads_finish:
  assumes ok: "engine_ok hs en" and twice: "\<forall>k < length (en_threads en). 2 \<le> count_list ks k"
    and pid: "pid < get_total_pages en" and held: "length hs < length (pc_pool (en_cache en))"
  shows "(\<forall>t \<in> set (en_threads (fold thread_step ks en)). t = PfDone) \<and> same_store en (fold thread_step ks en) \<and>
    (\<exists>h en'. engine_fetch_page pid (fold thread_step ks en) = (Inr h, en') \<and> engine_ok (h # hs) en')"
proof -
  define en1 where "en1 = fold thread_step ks en"
  note p = scheduled_progress [OF ok, of ks, folded en1_def]
  have "en_threads en1 ! j = PfDone" if j: "j < length (en_threads en)" for j
  proof -
    have "steps_left (en_threads en1 ! j) \<le> steps_left (en_threads en ! j) - count_list ks j" using p j by blast
    moreover have "steps_left t \<le> 2" for t by (cases t) simp_all
    moreover have "2 \<le> count_list ks j" using twice j by blast
    ultimately have "steps_left (en_threads en1 ! j) = 0" by (metis diff_is_0_eq le_0_eq le_trans)
    then show ?thesis by (cases "en_threads en1 ! j") simp_all
  qed
  then have finished: "\<forall>t \<in> set (en_threads en1). t = PfDone" using p by (auto simp: in_set_conv_nth)
  have "fold thread_step is en2 = en2" if "en_threads en2 = en_threads en1" for "is" en2
    using finished that by (intro finished_threads) simp
  then have quiet: "run_scheduled en1 = en1\<lparr>en_schedule := tl (en_schedule en1)\<rparr>"
    by (cases "en_schedule en1") (simp_all add: run_scheduled_def)
  have none: "thread_handles (en_threads en1) = []"
    using finished by (auto simp: thread_handles_def)
  have h1: "handles_ok (en_cache en1) hs" using p none by (simp add: engine_ok_def)
  obtain r en' where f: "engine_fetch_page pid en1 = (r, en')" by fastforce
  have ok1: "engine_ok hs en1" and pid1: "pid < get_total_pages en1"
    using p pid same_store_total [of en en1] by simp_all
  have "\<exists>h. r = Inr h"
  proof (cases r)
    case (Inl e)
    have lt: "pid < mf_page_count (pc_file (en_cache en1))"
      using pid1 by (simp add: get_total_pages_def mf_get_page_count_def)
    obtain pc where b: "bounded_fetch (en_hint en1) pid (en_cache en1) = (r, pc)"
      using f by (auto simp: engine_fetch_page_def quiet Let_def split: prod.splits)
    have "pool_full (en_cache en1) pc pid" using bounded_fetch_cases [OF h1 b] Inl lt by (auto simp: not_le)
    then have "length (pc_pool (en_cache en1)) \<le> length hs" by (rule pool_full_held [OF h1])
    then show ?thesis using held p by (simp add: same_store_def)
  qed blast
  then show ?thesis
    using engine_fetch_ok [OF ok1 pid1 f] finished p f unfolding en1_def by blast
qed

lemma prefetch_threads_finish_witness:
  "list_all (\<lambda>t. t = PfDone) (en_threads (fold thread_step [0, 1, 1, 0] (prefetch_page 1 prefetching_engine))) \<and>
   same_store (prefetch_page 1 prefetching_engine) (fold thread_step [0, 1, 1, 0] (prefetch_page 1 prefetching_engine)) \<and>
   (\<exists>h en'. engine_fetch_page 0 (fold thread_step [0, 1, 1, 0] (prefetch_page 1 prefetching_engine)) = (Inr h, en') \<and>
     engine_ok [h] en')"
  unfolding list_all_iff
proof (rule prefetch_threads_finish)
  show "engine_ok [] (prefetch_page 1 prefetching_engine)"
    unfolding prefetching_engine_def by (intro conjunct1 [OF prefetch_page_ok] small_engine_ok)
  have "en_threads (prefetch_page 1 prefetching_engine) = [PfStart 2, PfStart 1]"
    by (simp add: prefetching_engine_def prefetch_page_def small_engine_def cache_new_def mf_get_page_count_def
        three_pages_def word_le_nat_alt)
  then show "\<forall>k < length (en_threads (prefetch_page 1 prefetching_engine)). 2 \<le> count_list [0, 1, 1, 0] k"
    by (auto simp: less_Suc_eq numeral_2_eq_2)
qed (simp_all add: prefetching_engine_def prefetch_page_def small_engine_def cache_new_def
    get_total_pages_def mf_get_page_count_def three_pages_def)

end
