(* ===== verification/Storage_Reader.thy ===== *)
theory Storage_Reader
  imports Storage_Engine Slotted_Page
begin

text \<open>
  \<open>src/src/storage/storage_reader.{h,cpp}\<close>: reading one record by its id, and the scan over all records
  that prefetches the next two pages. The reader gets its pages from the engine.
\<close>

section \<open>Scopes of page handles\<close>

text \<open>
  A block with a local \<open>PageHandle\<close>: the page is fetched (\<open>err\<close> when that throws), the body runs, and the
  handle is destroyed when the body ends, by an exception or not.
\<close>

definition with_page ::
  "(u32 \<Rightarrow> 's \<Rightarrow> 'h result \<times> 's) \<Rightarrow> ('h \<Rightarrow> 's \<Rightarrow> 's) \<Rightarrow> u32 \<Rightarrow> (error \<Rightarrow> 'a) \<Rightarrow>
   ('h \<Rightarrow> 's \<Rightarrow> 'a \<times> 's) \<Rightarrow> 's \<Rightarrow> 'a \<times> 's" where
  "with_page fetch release pid err body s =
     (case fetch pid s of
        (Inl e, s1) \<Rightarrow> (err e, s1)
      | (Inr h, s1) \<Rightarrow> (let (r, s2) = body h s1 in (r, release h s2)))"

context page_source
begin

lemma with_page_ok:
  assumes ok: "ok hs s" and pid: "pid < total s"
    and body: "\<And>h s1. ok (h # hs) s1 \<Longrightarrow> same s s1 \<Longrightarrow> data h s1 = Inr (view s pid) \<Longrightarrow>
      ok (h # hs) (snd (body h s1)) \<and> same s1 (snd (body h s1)) \<and> Q (fst (body h s1))"
  shows "ok hs (snd (with_page fetch release pid err body s)) \<and>
    same s (snd (with_page fetch release pid err body s)) \<and>
    (Q (fst (with_page fetch release pid err body s)) \<or>
     (fst (with_page fetch release pid err body s) = err BufferPoolFull \<and> \<not> roomy s))"
proof (cases "fetch pid s")
  case (Pair r s1)
  show ?thesis
  proof (cases r)
    case (Inl e)
    from fetch_failed [OF ok pid Pair [unfolded Inl]] show ?thesis
      by (simp add: with_page_def Pair Inl)
  next
    case (Inr h)
    have f: "ok (h # hs) s1" "same s s1" "page_of h = pid"
      using fetch_in [OF ok pid Pair [unfolded Inr]] by simp_all
    have d: "data h s1 = Inr (view s pid)"
      using data_view [OF f(1)] same_view [OF f(2)] f(3) by simp
    obtain r2 s2 where b: "body h s1 = (r2, s2)" by fastforce
    have "ok (h # hs) s2" "same s1 s2" "Q r2" using body [OF f(1,2) d] b by simp_all
    with release_ok [of h hs s2] f(2) show ?thesis
      by (auto simp: with_page_def Pair Inr b intro: same_trans)
  qed
qed

end

section \<open>The reader\<close>

definition PREFETCH_LOOKAHEAD :: u32 where "PREFETCH_LOOKAHEAD = 2"

text \<open>
  \<open>read_record\<close> on the raw bytes of its page. The code checks the slot's bounds but neither the slot
  count nor the lengths in the record header: a read outside the page is \<open>Undefined\<close>.
\<close>

definition read_slot :: "bytes \<Rightarrow> u16 \<Rightarrow> kv option result" where
  "read_slot raw sid =
     bind_result (load raw PAGE_HEADER_SIZE 2) (\<lambda>cnt.
     if sid \<ge> get_u16 cnt then Inr None
     else
       let slots_start = PAGE_HEADER_SIZE + 2;
           slot_off = slots_start + unat sid * SLOT_SIZE
       in bind_result (load raw slot_off 2) (\<lambda>offset.
          bind_result (load raw (slot_off + 2) 2) (\<lambda>len.
          let off = unat (get_u16 offset)
          in if off \<ge> PAGE_SIZE \<or> off + unat (get_u16 len) > PAGE_SIZE then Inr None
             else bind_result (load raw off 1) (\<lambda>meta.
               if meta = [1] then Inr None
               else
                 bind_result (load raw (off + 1) 2) (\<lambda>klen.
                 bind_result (load raw (off + 3) 2) (\<lambda>vlen.
                 bind_result (load raw (off + RECORD_HEADER_SIZE) (unat (get_u16 klen))) (\<lambda>key.
                 bind_result (load raw (off + RECORD_HEADER_SIZE + unat (get_u16 klen)) (unat (get_u16 vlen))) (\<lambda>val.
                   Inr (Some (key, val))))))))))"

definition read_record :: "record_id \<Rightarrow> engine \<Rightarrow> kv option result \<times> engine" where
  "read_record rid en =
     (if rid_page_id rid \<ge> get_total_pages en then (Inr None, en)
      else with_page engine_fetch_page engine_release (rid_page_id rid) Inl
             (\<lambda>h en1. (bind_result (raw_data h en1) (\<lambda>raw. read_slot raw (rid_slot_id rid)), en1)) en)"

text \<open>
  The loop over the slots of a page. The callback has a state of type \<open>'c\<close> and may throw; what it did
  before an exception stays.
\<close>

primrec scan_slots ::
  "(record_id \<Rightarrow> bytes \<Rightarrow> bytes \<Rightarrow> 'c \<Rightarrow> unit result \<times> 'c) \<Rightarrow> u32 \<Rightarrow> nat list \<Rightarrow> 'c \<Rightarrow> engine \<Rightarrow>
   (unit result \<times> 'c) \<times> engine" where
  "scan_slots cb pid [] c en = ((Inr (), c), en)"
| "scan_slots cb pid (sid # sids) c en =
     (let rid = RecordID pid (word_of_nat sid) in
      case read_record rid en of
        (Inl e, en1) \<Rightarrow> ((Inl e, c), en1)
      | (Inr None, en1) \<Rightarrow> scan_slots cb pid sids c en1
      | (Inr (Some (key, val)), en1) \<Rightarrow>
          (case cb rid key val c of
             (Inl e, c1) \<Rightarrow> ((Inl e, c1), en1)
           | (Inr _, c1) \<Rightarrow> scan_slots cb pid sids c1 en1))"

text \<open>The loop over \<open>ahead\<close>, which stops at the first page past the end; \<open>pid + ahead\<close> wraps.\<close>

primrec prefetch_ahead :: "u32 list \<Rightarrow> u32 \<Rightarrow> u32 \<Rightarrow> engine \<Rightarrow> engine" where
  "prefetch_ahead [] pid total_pages en = en"
| "prefetch_ahead (ahead # rest) pid total_pages en =
     (if pid + ahead < total_pages then prefetch_ahead rest pid total_pages (prefetch_page (pid + ahead) en) else en)"

definition scan_page ::
  "(record_id \<Rightarrow> bytes \<Rightarrow> bytes \<Rightarrow> 'c \<Rightarrow> unit result \<times> 'c) \<Rightarrow> u32 \<Rightarrow> u32 \<Rightarrow> 'c \<Rightarrow> page_handle \<Rightarrow> engine \<Rightarrow>
   (unit result \<times> 'c) \<times> engine" where
  "scan_page cb total_pages pid c h en =
     (case bind_result (raw_data h en) (\<lambda>raw. load raw PAGE_HEADER_SIZE 2) of
        Inl e \<Rightarrow> ((Inl e, c), en)
      | Inr slot_count \<Rightarrow>
          (case scan_slots cb pid [0..<unat (get_u16 slot_count)] c en of
             ((Inl e, c1), en1) \<Rightarrow> ((Inl e, c1), en1)
           | ((Inr _, c1), en1) \<Rightarrow> ((Inr (), c1), prefetch_ahead (map word_of_nat [1..<Suc (unat PREFETCH_LOOKAHEAD)]) pid total_pages en1)))"

primrec scan_pages ::
  "(record_id \<Rightarrow> bytes \<Rightarrow> bytes \<Rightarrow> 'c \<Rightarrow> unit result \<times> 'c) \<Rightarrow> u32 \<Rightarrow> nat list \<Rightarrow> 'c \<Rightarrow> engine \<Rightarrow>
   (unit result \<times> 'c) \<times> engine" where
  "scan_pages cb total_pages [] c en = ((Inr (), c), en)"
| "scan_pages cb total_pages (p # ps) c en =
     (case with_page engine_fetch_page engine_release (word_of_nat p) (\<lambda>e. (Inl e, c))
             (scan_page cb total_pages (word_of_nat p) c) en of
        ((Inl e, c1), en1) \<Rightarrow> ((Inl e, c1), en1)
      | ((Inr _, c1), en1) \<Rightarrow> scan_pages cb total_pages ps c1 en1)"

definition reader_scan ::
  "(record_id \<Rightarrow> bytes \<Rightarrow> bytes \<Rightarrow> 'c \<Rightarrow> unit result \<times> 'c) \<Rightarrow> 'c \<Rightarrow> engine \<Rightarrow>
   (unit result \<times> 'c) \<times> engine" where
  "reader_scan cb c en = scan_pages cb (get_total_pages en) [0..<unat (get_total_pages en)] c en"

section \<open>Reading a page of records\<close>

lemma slot_bytes_parts:
  "mread (slot_bytes s) 0 2 = put_u16 (slot_offset s)" "mread (slot_bytes s) 2 2 = put_u16 (slot_length s)"
  by (simp_all add: slot_bytes_def mread_append1 mread_append2)

lemma record_image_parts:
  "mread (record_image r) 0 1 = [0]"
  "mread (record_image r) 1 2 = put_u16 (word_of_nat (length (fst r)))"
  "mread (record_image r) 3 2 = put_u16 (word_of_nat (length (snd r)))"
  "mread (record_image r) 5 (length (fst r)) = fst r"
  "mread (record_image r) (5 + length (fst r)) (length (snd r)) = snd r"
proof -
  have cons: "mread (x # xs) (Suc a) n = mread xs a n" for x :: u8 and xs a n by (simp add: mread_def)
  have "mread (record_image r) 0 1 = [0]"
    by (simp add: record_image_def record_header_bytes_def live_header_def mread_def)
  then show "mread (record_image r) 0 1 = [0]" .
  show "mread (record_image r) 1 2 = put_u16 (word_of_nat (length (fst r)))"
    "mread (record_image r) 3 2 = put_u16 (word_of_nat (length (snd r)))"
    by (simp_all add: record_image_def record_header_bytes_def live_header_def cons numeral_3_eq_3
        mread_append1 mread_append2)
  show "mread (record_image r) 5 (length (fst r)) = fst r"
    "mread (record_image r) (5 + length (fst r)) (length (snd r)) = snd r"
    by (simp_all add: record_image_def mread_append1 mread_append2)
qed

lemma read_slot_page_image:
  assumes "page_image p rs"
  shows "read_slot p sid = Inr (if unat sid < length rs then Some (rs ! unat sid) else None)"
proof -
  have s: "slotted p rs" and cnt: "mread p 64 2 = put_u16 (word_of_nat (length rs))"
    using assms by (simp_all add: page_image_def)
  note d = slottedD [OF s]
  have ge: "word_of_nat (length rs) \<le> sid \<longleftrightarrow> length rs \<le> unat sid"
    using d(5) by (simp add: word_le_nat_alt)
  show ?thesis
  proof (cases "unat sid < length rs")
    case False
    then show ?thesis using d(1) cnt ge by (simp add: read_slot_def)
  next
    case i: True
    let ?i = "unat sid" and ?r = "rs ! unat sid" and ?o = "rec_offset rs (unat sid)"
    note b = rec_offset_bounds [OF d(2) i]
    have slot: "mread p (slot_pos ?i) 4 = slot_bytes (slot_for rs ?i)"
      and rec: "mread p ?o (rec_size ?r) = record_image ?r"
      using s i by (simp_all add: slotted_def)
    have sp: "slot_pos ?i = 66 + unat sid * 4" by (simp add: slot_pos_def mult.commute)
    have sz: "rec_size ?r = 5 + length (fst ?r) + length (snd ?r)" by (simp add: rec_size_def)
    have lt: "rec_size ?r < 65536" "?o < 65536" using b by simp_all
    then have slens: "unat (slot_offset (slot_for rs ?i)) = ?o" "unat (slot_length (slot_for rs ?i)) = rec_size ?r"
      by (simp_all add: slot_for_def)
    have "length (fst ?r) < 65536" "length (snd ?r) < 65536" using lt(1) sz by simp_all
    then have lens: "unat (word_of_nat (length (fst ?r)) :: u16) = length (fst ?r)"
      "unat (word_of_nat (length (snd ?r)) :: u16) = length (snd ?r)"
      by simp_all
    have part: "mread p (?o + a) k = mread (record_image ?r) a k" if "a + k \<le> rec_size ?r" for a k
      using mread_mread [OF that, of p ?o] by (simp add: rec)
    have slots: "mread p (66 + unat sid * 4) 2 = put_u16 (slot_offset (slot_for rs ?i))"
      "mread p (66 + unat sid * 4 + 2) 2 = put_u16 (slot_length (slot_for rs ?i))"
      using mread_mread [of 0 2 4 p "slot_pos ?i"] mread_mread [of 2 2 4 p "slot_pos ?i"]
      unfolding slot by (simp_all add: slot_bytes_parts sp)
    have recs: "mread p ?o 1 = [0]" "mread p (?o + 1) 2 = put_u16 (word_of_nat (length (fst ?r)))"
      "mread p (?o + 3) 2 = put_u16 (word_of_nat (length (snd ?r)))"
      "mread p (?o + 5) (length (fst ?r)) = fst ?r"
      "mread p (?o + 5 + length (fst ?r)) (length (snd ?r)) = snd ?r"
      using part [of 0 1] part [of 1 2] part [of 3 2] part [of 5 "length (fst ?r)"]
        part [of "5 + length (fst ?r)" "length (snd ?r)"]
      by (simp_all add: sz record_image_parts record_image_parts [unfolded One_nat_def] add.assoc)
    have "66 + unat sid * 4 + 4 \<le> 4096" using i d(3) by simp
    then show ?thesis
      using i d(1) cnt ge slots recs slens lens b sz
      by (simp add: read_slot_def)
  qed
qed

section \<open>Reading one record\<close>

lemma read_record_ok:
  assumes ok: "engine_ok hs en" and r: "read_record rid en = (r, en')"
  shows "engine_ok hs en' \<and> same_store en en' \<and>
    (if rid_page_id rid < get_total_pages en then
       r = read_slot (engine_view en (rid_page_id rid)) (rid_slot_id rid) \<or>
       (r = Inl BufferPoolFull \<and> \<not> engine_roomy en)
     else r = Inr None)"
proof (cases "rid_page_id rid < get_total_pages en")
  case False
  with ok r show ?thesis by (auto simp: read_record_def not_less)
next
  case True
  let ?body = "\<lambda>h en1. (bind_result (raw_data h en1) (\<lambda>raw. read_slot raw (rid_slot_id rid)), en1)"
  let ?Q = "\<lambda>x. x = read_slot (engine_view en (rid_page_id rid)) (rid_slot_id rid)"
  have wp: "with_page engine_fetch_page engine_release (rid_page_id rid) Inl ?body en = (r, en')"
    using r True unfolding not_le [symmetric] by (simp add: read_record_def)
  from engine.with_page_ok [OF ok True, where body = ?body and Q = ?Q and err = Inl, unfolded wp]
  show ?thesis using True by simp
qed

section \<open>Scanning\<close>

text \<open>What a scan delivers: the callback over a list of records, until it throws.\<close>

primrec visit ::
  "(record_id \<Rightarrow> bytes \<Rightarrow> bytes \<Rightarrow> 'c \<Rightarrow> unit result \<times> 'c) \<Rightarrow> (record_id \<times> kv) list \<Rightarrow> 'c \<Rightarrow> unit result \<times> 'c" where
  "visit cb [] c = (Inr (), c)"
| "visit cb (x # xs) c =
     (case cb (fst x) (fst (snd x)) (snd (snd x)) c of
        (Inl e, c1) \<Rightarrow> (Inl e, c1)
      | (Inr _, c1) \<Rightarrow> visit cb xs c1)"

definition records_of_page :: "u32 \<Rightarrow> kv list \<Rightarrow> (record_id \<times> kv) list" where
  "records_of_page pid rs = map (\<lambda>j. (RecordID pid (word_of_nat j), rs ! j)) [0..<length rs]"

definition all_records :: "kv list list \<Rightarrow> (record_id \<times> kv) list" where
  "all_records rss = concat (map (\<lambda>i. records_of_page (word_of_nat i) (rss ! i)) [0..<length rss])"

text \<open>The pages of the engine hold the records \<open>rss\<close>.\<close>

definition store_image :: "engine \<Rightarrow> kv list list \<Rightarrow> bool" where
  "store_image en rss \<longleftrightarrow> unat (get_total_pages en) = length rss \<and>
     (\<forall>i < length rss. page_image (engine_view en (word_of_nat i)) (rss ! i))"

text \<open>
  The outcome of scanning the records \<open>xs\<close>: all of them were visited in order, or the pool was full
  (which needs a pool smaller than the file) after some of them.
\<close>

definition scan_outcome ::
  "bool \<Rightarrow> (record_id \<Rightarrow> bytes \<Rightarrow> bytes \<Rightarrow> 'c \<Rightarrow> unit result \<times> 'c) \<Rightarrow> (record_id \<times> kv) list \<Rightarrow> 'c \<Rightarrow>
   unit result \<times> 'c \<Rightarrow> bool" where
  "scan_outcome roomy cb xs c res \<longleftrightarrow> res = visit cb xs c \<or>
     (\<not> roomy \<and> fst res = Inl BufferPoolFull \<and> (\<exists>n. visit cb (take n xs) c = (Inr (), snd res)))"

lemma visit_append:
  "visit cb (xs @ ys) c = (case visit cb xs c of (Inl e, c1) \<Rightarrow> (Inl e, c1) | (Inr _, c1) \<Rightarrow> visit cb ys c1)"
  by (induction xs arbitrary: c) (auto split: prod.split sum.split)

lemma scan_outcome_visit: "scan_outcome roomy cb xs c (visit cb xs c)"
  by (simp add: scan_outcome_def)

lemma scan_outcome_full: "\<not> roomy \<Longrightarrow> scan_outcome roomy cb xs c (Inl BufferPoolFull, c)"
  unfolding scan_outcome_def by (rule disjI2) (auto intro: exI [of _ 0])

lemma scan_outcome_stop:
  assumes "scan_outcome roomy cb xs c (Inl e, c1)"
  shows "scan_outcome roomy cb (xs @ ys) c (Inl e, c1)"
  using assms unfolding scan_outcome_def
proof (elim disjE)
  assume "(Inl e, c1) = visit cb xs c"
  then show "(Inl e, c1) = visit cb (xs @ ys) c \<or> (\<not> roomy \<and> fst (Inl e, c1) = Inl BufferPoolFull \<and>
      (\<exists>n. visit cb (take n (xs @ ys)) c = (Inr (), snd (Inl e, c1))))"
    by (simp add: visit_append flip: \<open>(Inl e, c1) = visit cb xs c\<close>)
next
  assume a: "\<not> roomy \<and> fst (Inl e, c1) = Inl BufferPoolFull \<and> (\<exists>n. visit cb (take n xs) c = (Inr (), snd (Inl e, c1)))"
  then obtain n where "visit cb (take n xs) c = (Inr (), c1)" by auto
  moreover have "take (min n (length xs)) (xs @ ys) = take n xs" by (simp add: min_def)
  ultimately have "visit cb (take (min n (length xs)) (xs @ ys)) c = (Inr (), snd (Inl e, c1))" by simp
  with a show "(Inl e, c1) = visit cb (xs @ ys) c \<or> (\<not> roomy \<and> fst (Inl e, c1) = Inl BufferPoolFull \<and>
      (\<exists>n. visit cb (take n (xs @ ys)) c = (Inr (), snd (Inl e, c1))))"
    by (intro disjI2 conjI exI [of _ "min n (length xs)"]) simp_all
qed

lemma scan_outcome_go_on:
  assumes "scan_outcome roomy cb xs c (Inr u, c1)" and "scan_outcome roomy cb ys c1 res"
  shows "scan_outcome roomy cb (xs @ ys) c res"
proof -
  have v: "visit cb xs c = (Inr (), c1)" using assms(1) by (auto simp: scan_outcome_def)
  from assms(2) show ?thesis
    unfolding scan_outcome_def
  proof (elim disjE)
    assume "\<not> roomy \<and> fst res = Inl BufferPoolFull \<and> (\<exists>n. visit cb (take n ys) c1 = (Inr (), snd res))"
    then obtain n where "\<not> roomy" "fst res = Inl BufferPoolFull" "visit cb (take n ys) c1 = (Inr (), snd res)" by auto
    then have "visit cb (take (length xs + n) (xs @ ys)) c = (Inr (), snd res)" by (simp add: visit_append v)
    with \<open>\<not> roomy\<close> \<open>fst res = _\<close> show "res = visit cb (xs @ ys) c \<or> (\<not> roomy \<and> fst res = Inl BufferPoolFull \<and>
        (\<exists>n. visit cb (take n (xs @ ys)) c = (Inr (), snd res)))" by blast
  qed (simp add: visit_append v)
qed

lemma same_store_roomy: "same_store en en' \<Longrightarrow> engine_roomy en' = engine_roomy en"
  by (rule engine.same_roomy)

lemma store_image_same: "same_store en en' \<Longrightarrow> store_image en' rss = store_image en rss"
  by (simp add: store_image_def same_store_total) (simp add: same_store_def)

lemma prefetch_ahead_ok:
  "engine_ok hs en \<Longrightarrow> engine_ok hs (prefetch_ahead as pid n en) \<and> same_store en (prefetch_ahead as pid n en)"
proof (induction as arbitrary: en)
  case Nil
  then show ?case by simp
next
  case (Cons a as)
  note p = prefetch_page_ok [OF Cons.prems, of "pid + a"]
  show ?case using Cons.IH [of "prefetch_page (pid + a) en"] p Cons.prems
    by (auto intro: same_store_trans)
qed

lemma scan_slots_ok:
  assumes "engine_ok hs en" and "pid < get_total_pages en" and "page_image (engine_view en pid) rs"
    and "\<forall>j \<in> set sids. j < length rs"
  shows "engine_ok hs (snd (scan_slots cb pid sids c en)) \<and> same_store en (snd (scan_slots cb pid sids c en)) \<and>
    scan_outcome (engine_roomy en) cb (map (\<lambda>j. (RecordID pid (word_of_nat j), rs ! j)) sids) c
      (fst (scan_slots cb pid sids c en))"
  using assms
proof (induction sids arbitrary: en c)
  case Nil
  then show ?case by (simp add: scan_outcome_def)
next
  case (Cons j sids)
  let ?rid = "RecordID pid (word_of_nat j)"
  let ?xs = "map (\<lambda>j. (RecordID pid (word_of_nat j), rs ! j)) sids"
  obtain r en1 where r: "read_record ?rid en = (r, en1)" by fastforce
  have "length rs < 65536" using Cons.prems(3) slottedD(5) by (auto simp: page_image_def)
  then have "read_slot (engine_view en pid) (word_of_nat j) = Inr (Some (rs ! j))"
    using read_slot_page_image [OF Cons.prems(3), of "word_of_nat j"] Cons.prems(4) by simp
  then have e1: "engine_ok hs en1" "same_store en en1"
    and rc: "r = Inr (Some (rs ! j)) \<or> (r = Inl BufferPoolFull \<and> \<not> engine_roomy en)"
    using read_record_ok [OF Cons.prems(1) r] Cons.prems(2) by simp_all
  from rc show ?case
  proof
    assume "r = Inl BufferPoolFull \<and> \<not> engine_roomy en"
    then show ?thesis using e1 r by (simp add: scan_outcome_full)
  next
    assume rr: "r = Inr (Some (rs ! j))"
    obtain k v where kv: "rs ! j = (k, v)" by fastforce
    obtain cr c1 where cb: "cb ?rid k v c = (cr, c1)" by fastforce
    show ?thesis
    proof (cases cr)
      case (Inl e)
      then show ?thesis using e1 r rr kv cb by (simp add: scan_outcome_def)
    next
      case (Inr u)
      have "pid < get_total_pages en1" "page_image (engine_view en1 pid) rs" "\<forall>j \<in> set sids. j < length rs"
        using Cons.prems e1(2) same_store_total [OF e1(2)] by (simp_all add: same_store_def)
      from Cons.IH [OF e1(1) this, of c1] same_store_roomy [OF e1(2)]
      have ih: "engine_ok hs (snd (scan_slots cb pid sids c1 en1))"
        "same_store en1 (snd (scan_slots cb pid sids c1 en1))"
        "scan_outcome (engine_roomy en) cb ?xs c1 (fst (scan_slots cb pid sids c1 en1))" by simp_all
      have "scan_outcome (engine_roomy en) cb [(?rid, rs ! j)] c (Inr u, c1)"
        using cb kv Inr by (simp add: scan_outcome_def)
      from scan_outcome_go_on [OF this ih(3)] ih(1,2) show ?thesis
        using same_store_trans [OF e1(2) ih(2)] r rr kv cb Inr by simp
    qed
  qed
qed

lemma scan_page_ok:
  assumes ok: "engine_ok hs en" and pid: "pid < get_total_pages en" and image: "page_image (engine_view en pid) rs"
    and d: "raw_data h en = Inr (engine_view en pid)"
  shows "engine_ok hs (snd (scan_page cb n pid c h en)) \<and> same_store en (snd (scan_page cb n pid c h en)) \<and>
    scan_outcome (engine_roomy en) cb (records_of_page pid rs) c (fst (scan_page cb n pid c h en))"
proof -
  have s: "slotted (engine_view en pid) rs" and cnt: "mread (engine_view en pid) 64 2 = put_u16 (word_of_nat (length rs))"
    using image by (simp_all add: page_image_def)
  have count: "bind_result (raw_data h en) (\<lambda>raw. load raw 64 2) = Inr (put_u16 (word_of_nat (length rs)))"
    using slottedD(1) [OF s] by (simp add: d cnt)
  have len: "unat (word_of_nat (length rs) :: u16) = length rs"
    using slottedD(5) [OF s] by simp
  obtain cr c1 en1 where sc: "scan_slots cb pid [0..<length rs] c en = ((cr, c1), en1)" by (metis prod.collapse)
  have o: "engine_ok hs en1" "same_store en en1"
    "scan_outcome (engine_roomy en) cb (records_of_page pid rs) c (cr, c1)"
    using scan_slots_ok [OF ok pid image, of "[0..<length rs]" cb c] sc
    by (simp_all add: records_of_page_def)
  show ?thesis
  proof (cases cr)
    case (Inl e)
    then show ?thesis using o by (simp add: scan_page_def count len sc)
  next
    case (Inr u)
    with o prefetch_ahead_ok [OF o(1)] show ?thesis
      by (auto simp: scan_page_def count len sc intro: same_store_trans)
  qed
qed

lemma scan_pages_ok:
  assumes "engine_ok hs en" and "store_image en rss" and "\<forall>i \<in> set ps. i < length rss"
  shows "engine_ok hs (snd (scan_pages cb n ps c en)) \<and> same_store en (snd (scan_pages cb n ps c en)) \<and>
    scan_outcome (engine_roomy en) cb (concat (map (\<lambda>i. records_of_page (word_of_nat i) (rss ! i)) ps)) c
      (fst (scan_pages cb n ps c en))"
  using assms
proof (induction ps arbitrary: en c)
  case Nil
  then show ?case by (simp add: scan_outcome_def)
next
  case (Cons p ps)
  let ?pid = "word_of_nat p :: u32"
  let ?ys = "concat (map (\<lambda>i. records_of_page (word_of_nat i) (rss ! i)) ps)"
  have p: "p < length rss" and tot: "unat (get_total_pages en) = length rss"
    using Cons.prems by (simp_all add: store_image_def)
  then have "unat ?pid = p" using unat_u32_lt [of "get_total_pages en"] by simp
  then have pid: "?pid < get_total_pages en" using p tot by (simp add: word_less_nat_alt)
  have image: "page_image (engine_view en ?pid) (rss ! p)" using Cons.prems p by (simp add: store_image_def)
  let ?body = "scan_page cb n ?pid c"
  let ?Q = "scan_outcome (engine_roomy en) cb (records_of_page ?pid (rss ! p)) c"
  obtain cr c1 en1 where w: "with_page engine_fetch_page engine_release ?pid (\<lambda>e. (Inl e, c)) ?body en = ((cr, c1), en1)"
    by (metis prod.collapse)
  have "engine_ok hs en1 \<and> same_store en en1 \<and>
      (?Q (cr, c1) \<or> ((cr, c1) = (Inl BufferPoolFull, c) \<and> \<not> engine_roomy en))"
  proof -
    have "engine_ok (h # hs) (snd (?body h s1)) \<and> same_store s1 (snd (?body h s1)) \<and> ?Q (fst (?body h s1))"
      if "engine_ok (h # hs) s1" "same_store en s1" "raw_data h s1 = Inr (engine_view en ?pid)" for h s1
    proof -
      have "?pid < get_total_pages s1" "page_image (engine_view s1 ?pid) (rss ! p)"
        "raw_data h s1 = Inr (engine_view s1 ?pid)" "engine_roomy s1 = engine_roomy en"
        using that pid image same_store_total [OF that(2)] same_store_roomy [OF that(2)]
        by (simp_all add: same_store_def)
      from scan_page_ok [OF that(1) this(1-3), of cb n c, unfolded this(4)] show ?thesis .
    qed
    from engine.with_page_ok [OF Cons.prems(1) pid this, where err = "\<lambda>e. (Inl e, c)", unfolded w]
    show ?thesis by (simp only: fst_conv snd_conv)
  qed
  then have e1: "engine_ok hs en1" "same_store en en1" "?Q (cr, c1)"
    by (auto simp: scan_outcome_full)
  show ?case
  proof (cases cr)
    case (Inl e)
    from scan_outcome_stop [OF e1(3) [unfolded Inl], of ?ys] e1(1,2) show ?thesis
      by (simp add: w Inl)
  next
    case (Inr u)
    have "store_image en1 rss" "\<forall>i \<in> set ps. i < length rss"
      using Cons.prems store_image_same [OF e1(2)] by simp_all
    from Cons.IH [OF e1(1) this, of c1] same_store_roomy [OF e1(2)]
    have ih: "engine_ok hs (snd (scan_pages cb n ps c1 en1))" "same_store en1 (snd (scan_pages cb n ps c1 en1))"
      "scan_outcome (engine_roomy en) cb ?ys c1 (fst (scan_pages cb n ps c1 en1))" by simp_all
    from scan_outcome_go_on [OF e1(3) [unfolded Inr] ih(3)] ih(1,2) show ?thesis
      using same_store_trans [OF e1(2) ih(2)] Inr by (simp add: w)
  qed
qed

lemma reader_scan_ok:
  assumes ok: "engine_ok hs en" and image: "store_image en rss"
  shows "engine_ok hs (snd (reader_scan cb c en)) \<and> same_store en (snd (reader_scan cb c en)) \<and>
    scan_outcome (engine_roomy en) cb (all_records rss) c (fst (reader_scan cb c en))"
  using scan_pages_ok [OF ok image, of "[0..<length rss]"] image
  by (simp add: reader_scan_def all_records_def store_image_def)

section \<open>Properties\<close>

text \<open>
  C9: On a file of record pages, and however the prefetch threads are scheduled, a scan calls the callback
  on exactly the stored records, page by page and slot by slot, until the callback throws; it can only be
  cut short by a full pool, which needs a pool with fewer frames than the file has pages.
\<close>

theorem scan_visits_all_records:
  assumes "engine_ok hs en" and "store_image en rss"
  shows "case reader_scan cb c en of (res, en') \<Rightarrow> engine_ok hs en' \<and> same_store en en' \<and>
    (res = visit cb (all_records rss) c \<or>
     (\<not> engine_roomy en \<and> fst res = Inl BufferPoolFull \<and>
      (\<exists>n. visit cb (take n (all_records rss)) c = (Inr (), snd res))))"
  using reader_scan_ok [OF assms, of cb c] by (cases "reader_scan cb c en") (simp add: scan_outcome_def)

lemma empty_pages_image: "store_image (small_engine capacity schedule) [[], [], []]"
proof -
  have "page_image (replicate 4096 0) []"
    by (simp add: page_image_def slotted_empty mread_replicate put_u16_zero numeral_2_eq_2)
  moreover have "engine_view (small_engine capacity schedule) (word_of_nat i) = replicate 4096 0" if "i < 3" for i
    using that
    by (simp add: small_engine_def engine_view_def cache_view_def cache_new_def disk_page_def three_pages_def
        three_pages_os_def os_content_def page_at_def mread_replicate)
  moreover have "[[], [], []] ! i = ([] :: kv list)" if "i < 3" for i :: nat
    using that by (simp add: less_Suc_eq numeral_3_eq_3) auto
  moreover have "unat (get_total_pages (small_engine capacity schedule)) = 3"
    by (simp add: small_engine_def get_total_pages_def mf_get_page_count_def cache_new_def three_pages_def)
  ultimately show ?thesis by (simp add: store_image_def)
qed

lemma scan_visits_all_records_witness:
  "case reader_scan (\<lambda>rid k v c. (Inr (), c @ [rid])) [] (small_engine 3 [[], [0], [1]]) of (res, en') \<Rightarrow>
    engine_ok [] en' \<and> same_store (small_engine 3 [[], [0], [1]]) en' \<and>
    (res = visit (\<lambda>rid k v c. (Inr (), c @ [rid])) (all_records [[], [], []]) [] \<or>
     (\<not> engine_roomy (small_engine 3 [[], [0], [1]]) \<and> fst res = Inl BufferPoolFull \<and>
      (\<exists>n. visit (\<lambda>rid k v c. (Inr (), c @ [rid])) (take n (all_records [[], [], []])) [] = (Inr (), snd res))))"
  by (rule scan_visits_all_records [OF small_engine_ok empty_pages_image])

text \<open>
  C34: What \<open>read_record\<close> makes of any page, corrupt ones included: a slot whose extent leaves the page or a
  record marked deleted gives no record; otherwise the key and the value are those at the lengths of the
  record header, and the read is undefined when these lengths leave the page, which the code never checks.
\<close>

theorem read_slot_on_any_page:
  assumes "length raw = 4096" and "sid < get_u16 (mread raw 64 2)" and "66 + unat sid * 4 + 4 \<le> 4096"
  shows "let off = unat (get_u16 (mread raw (66 + unat sid * 4) 2));
             len = unat (get_u16 (mread raw (66 + unat sid * 4 + 2) 2));
             klen = unat (get_u16 (mread raw (off + 1) 2));
             vlen = unat (get_u16 (mread raw (off + 3) 2))
         in read_slot raw sid =
           (if off \<ge> 4096 \<or> off + len > 4096 \<or> raw ! off = 1 then Inr None
            else if off + 5 + klen + vlen \<le> 4096
            then Inr (Some (mread raw (off + 5) klen, mread raw (off + 5 + klen) vlen))
            else Inl Undefined)"
proof -
  let ?off = "unat (get_u16 (mread raw (66 + unat sid * 4) 2))"
  have "\<not> get_u16 (mread raw 64 2) \<le> sid" using assms(2) by (simp only: not_le)
  moreover have "mread raw ?off (Suc 0) = [raw ! ?off]" if "?off < 4096"
    using that assms(1) by (simp add: mread_def take_Suc_conv_app_nth hd_drop_conv_nth take_Suc)
  ultimately show ?thesis
    using assms(1,3) by (auto simp: read_slot_def Let_def load_def)
qed

lemma read_slot_on_any_page_witness:
  "read_slot (mwrite (replicate 4096 0) 64 [1, 0, 70, 0, 5, 0, 0, 255, 255]) 0 = Inl Undefined"
proof -
  let ?p = "mwrite (replicate 4096 0) 64 [1, 0, 70, 0, 5, 0, 0, 255, 255] :: bytes"
  have at: "mread ?p (64 + a) n = take n (drop a [1, 0, 70, 0, 5, 0, 0, 255, 255])" if "a + n \<le> 9" for a n
    using mread_mread [OF that, of ?p 64] by (simp add: mread_def [of "[1, 0, 70, 0, 5, 0, 0, 255, 255]"])
  have bytes: "get_u16 (mread ?p 64 2) = 1" "get_u16 (mread ?p 66 2) = 70" "get_u16 (mread ?p 68 2) = 5"
    "mread ?p 70 1 = [0]" "get_u16 (mread ?p 71 2) = 0xFFFF"
    using at [of 0 2] at [of 2 2] at [of 4 2] at [of 6 1] at [of 7 2] by (simp_all add: get_u16_def)
  then have "?p ! 70 \<noteq> 1" by (simp add: mread_def mwrite_def nth_append)
  then show ?thesis
    using read_slot_on_any_page [of ?p 0] bytes by simp
qed

end
