(* ===== verification/Storage_Roundtrip.thy ===== *)
theory Storage_Roundtrip
  imports Storage_Writer Storage_Reader
begin

text \<open>
  The storage writer and the storage reader together: what is appended to a file is what an engine opened
  on the file later reads, by record id and by scanning.
\<close>

section \<open>Appending a list of records\<close>

primrec append_all :: "kv list \<Rightarrow> storage_writer \<Rightarrow> record_id result list \<times> storage_writer" where
  "append_all [] w = ([], w)"
| "append_all (x # xs) w =
     (let (r, w1) = writer_append (fst x) (snd x) w; (rs, w2) = append_all xs w1 in (r # rs, w2))"

primrec place_all :: "kv list \<Rightarrow> kv list list \<times> kv list \<Rightarrow> kv list list \<times> kv list" where
  "place_all [] log = log"
| "place_all (x # xs) log = place_all xs (place x log)"

primrec place_rids :: "kv list \<Rightarrow> kv list list \<times> kv list \<Rightarrow> record_id list" where
  "place_rids [] log = []"
| "place_rids (x # xs) log = rid_of_last (place x log) # place_rids xs (place x log)"

definition log_pages :: "kv list list \<times> kv list \<Rightarrow> kv list list" where
  "log_pages log = fst log @ [snd log]"

definition record_at :: "kv list list \<Rightarrow> record_id \<Rightarrow> kv option" where
  "record_at rss rid =
     (if unat (rid_page_id rid) < length rss \<and> unat (rid_slot_id rid) < length (rss ! unat (rid_page_id rid))
      then Some (rss ! unat (rid_page_id rid) ! unat (rid_slot_id rid)) else None)"

text \<open>The log can take \<open>n\<close> more records without its counters wrapping.\<close>

definition log_small :: "nat \<Rightarrow> kv list list \<times> kv list \<Rightarrow> bool" where
  "log_small n log \<longleftrightarrow> length (fst log) + n < 4294967295 \<and> used (snd log) \<le> PAGE_SIZE"

lemma length_place_rids [simp]: "length (place_rids xs log) = length xs"
  by (induction xs arbitrary: log) auto

lemma log_small_place:
  assumes "log_small (Suc n) log" and "fits_page x"
  shows "log_small n (place x log)"
proof -
  have "used [x] \<le> 4096" using assms(2) used_snoc [of "[]" x] by (simp add: fits_page_def has_room_def)
  with assms(1) show ?thesis
    by (auto simp: log_small_def place_def has_room_def used_snoc)
qed

lemma length_used: "used rs \<le> 4096 \<Longrightarrow> length rs < 65536"
  by (simp add: used_def)

lemma place_facts:
  assumes "log_small (Suc n) log" and "fits_page x"
  shows "snd (place x log) \<noteq> []" "length (fst (place x log)) < 4294967296" "length (snd (place x log)) < 65536"
    "last (snd (place x log)) = x"
    "concat (log_pages (place x log)) = concat (log_pages log) @ [x]"
proof -
  note s = log_small_place [OF assms]
  show "length (fst (place x log)) < 4294967296" using s by (simp add: log_small_def)
  show "length (snd (place x log)) < 65536" using s length_used by (simp add: log_small_def)
qed (auto simp: place_def log_pages_def)

lemma record_at_new:
  assumes "log_small (Suc n) log" and "fits_page x"
  shows "record_at (log_pages (place x log)) (rid_of_last (place x log)) = Some x"
proof -
  note f = place_facts [OF assms]
  have "unat (word_of_nat (length (snd (place x log)) - 1) :: u16) = length (snd (place x log)) - 1"
    using f(3) by simp
  then show ?thesis
    using f(1,2,4) by (simp add: record_at_def log_pages_def rid_of_last_def last_conv_nth)
qed

lemma record_at_place:
  assumes "record_at (log_pages log) rid = Some r"
  shows "record_at (log_pages (place x log)) rid = Some r"
proof (cases "unat (rid_page_id rid) = length (fst log)")
  case True
  with assms show ?thesis
    by (auto simp: record_at_def log_pages_def place_def nth_append split: if_splits)
next
  case False
  with assms show ?thesis
    by (auto simp: record_at_def log_pages_def place_def nth_append split: if_splits)
qed

lemma record_at_place_all:
  "record_at (log_pages log) rid = Some r \<Longrightarrow> record_at (log_pages (place_all xs log)) rid = Some r"
  by (induction xs arbitrary: log) (simp_all add: record_at_place)

lemma place_all_records:
  assumes "log_small (length xs) log" and "\<forall>x \<in> set xs. fits_page x"
  shows "concat (log_pages (place_all xs log)) = concat (log_pages log) @ xs"
    and "i < length xs \<Longrightarrow> record_at (log_pages (place_all xs log)) (place_rids xs log ! i) = Some (xs ! i)"
proof -
  have "log_small (length xs) log \<Longrightarrow> \<forall>x \<in> set xs. fits_page x \<Longrightarrow>
      concat (log_pages (place_all xs log)) = concat (log_pages log) @ xs \<and>
      (\<forall>i < length xs. record_at (log_pages (place_all xs log)) (place_rids xs log ! i) = Some (xs ! i))" for xs log
  proof (induction xs arbitrary: log)
    case Nil
    then show ?case by simp
  next
    case (Cons x xs)
    have small: "log_small (Suc (length xs)) log" and fits: "fits_page x" using Cons.prems by simp_all
    note ih = Cons.IH [OF log_small_place [OF small fits]]
    have "record_at (log_pages (place_all xs (place x log))) (rid_of_last (place x log)) = Some x"
      by (rule record_at_place_all [OF record_at_new [OF small fits]])
    then show ?case
      using ih Cons.prems place_facts(5) [OF small fits] by (auto simp: nth_Cons split: nat.split)
  qed
  with assms show "concat (log_pages (place_all xs log)) = concat (log_pages log) @ xs"
    "i < length xs \<Longrightarrow> record_at (log_pages (place_all xs log)) (place_rids xs log ! i) = Some (xs ! i)" by blast+
qed

lemma rid_of_last_place_less:
  assumes "log_small (Suc n) log" and "fits_page x" and "snd log \<noteq> []"
  shows "rid_of_last log < rid_of_last (place x log)"
proof -
  have len: "Suc (length (fst log)) < 4294967296" "length (snd log) < 65536"
    using assms(1) length_used by (auto simp: log_small_def)
  have slots: "unat (word_of_nat (length (snd log) - 1) :: u16) = length (snd log) - 1"
    "unat (word_of_nat (length (snd log)) :: u16) = length (snd log)"
    using len by simp_all
  have pages: "unat (word_of_nat (length (fst log)) :: u32) = length (fst log)"
    "unat (word_of_nat (Suc (length (fst log))) :: u32) = Suc (length (fst log))"
    using len(1) by (simp_all del: of_nat_Suc)
  have new: "rid_of_last (place x log) =
      (if has_room (snd log) x then RecordID (word_of_nat (length (fst log))) (word_of_nat (length (snd log)))
       else RecordID (word_of_nat (Suc (length (fst log)))) 0)"
    by (simp add: rid_of_last_def place_def)
  show ?thesis
    unfolding new using slots pages assms(3)
    by (auto simp: rid_of_last_def less_record_id_def word_less_nat_alt simp del: of_nat_Suc)
qed

lemma place_rids_sorted:
  "log_small (length xs) log \<Longrightarrow> \<forall>x \<in> set xs. fits_page x \<Longrightarrow>
   sorted_wrt (<) (place_rids xs log) \<and> (snd log \<noteq> [] \<longrightarrow> (\<forall>r \<in> set (place_rids xs log). rid_of_last log < r))"
proof (induction xs arbitrary: log)
  case Nil
  then show ?case by simp
next
  case (Cons x xs)
  have small: "log_small (Suc (length xs)) log" and fits: "fits_page x" using Cons.prems by simp_all
  note ih = Cons.IH [OF log_small_place [OF small fits]]
  show ?case
    using ih Cons.prems(2) place_facts(1) [OF small fits] rid_of_last_place_less [OF small fits]
    by (auto intro: less_trans)
qed

lemma append_all_ok:
  "log_ok w (fst log) (snd log) \<Longrightarrow> log_small (length xs) log \<Longrightarrow> \<forall>x \<in> set xs. fits_page x \<Longrightarrow>
   \<exists>w'. append_all xs w = (map Inr (place_rids xs log), w') \<and>
     log_ok w' (fst (place_all xs log)) (snd (place_all xs log))"
proof (induction xs arbitrary: w log)
  case Nil
  then show ?case by simp
next
  case (Cons x xs)
  have small: "log_small (Suc (length xs)) log" and fits: "fits_page (fst x, snd x)" using Cons.prems by simp_all
  obtain w1 where w1: "writer_append (fst x) (snd x) w = (Inr (rid_of_last (place x log)), w1)"
    "log_ok w1 (fst (place x log)) (snd (place x log))"
    using writer_append_ok [OF Cons.prems(1) fits] small by (auto simp: log_small_def)
  from Cons.IH [OF w1(2)] obtain w' where "append_all xs w1 = (map Inr (place_rids xs (place x log)), w')"
    "log_ok w' (fst (place_all xs (place x log))) (snd (place_all xs (place x log)))"
    using log_small_place [OF small] fits Cons.prems(3) by auto
  with w1(1) show ?case by simp
qed

section \<open>Opening an engine on a file of records\<close>

lemma engine_new_pages:
  assumes fd: "fd \<noteq> -1" and fl: "os_content sys path = f" and image: "file_image f rss" and few: "length rss < 2 ^ 20"
  shows "\<exists>en sys'. engine_new path fd True True sys obs capacity observer schedule = (Inr en, sys') \<and>
    engine_ok [] en \<and> store_image en rss \<and> engine_roomy en = (length rss \<le> capacity) \<and> pc_os (en_cache en) = sys' \<and>
    os_files sys' = (os_files sys)(path \<mapsto> f) \<and> mf_path (pc_file (en_cache en)) = path \<and>
    (\<forall>i < length rss. engine_view en (word_of_nat i) = page_at f i) \<and>
    en_schedule en = schedule \<and> en_threads en = [] \<and> length (pc_pool (en_cache en)) = capacity"
proof -
  have len: "length f = 4096 * length rss" using image by (simp add: file_image_def)
  obtain mf sys' where m: "mf_new path fd True True sys = (Inr mf, sys')" "mf_ok mf sys'" "mf_path mf = path"
    "os_files sys' = (os_files sys)(path \<mapsto> f)" "unat (mf_page_count mf) = length rss"
    using mf_new_ok [OF fd fl len few] by blast
  then have content: "os_content sys' path = f" by (simp add: os_content_def)
  let ?en = "\<lparr>en_cache = cache_new mf sys' obs capacity observer None, en_hint = initial_workload_hint,
      en_threads = [], en_schedule = schedule\<rparr>"
  have new: "engine_new path fd True True sys obs capacity observer schedule = (Inr ?en, sys')"
    by (simp add: engine_new_def m(1))
  have total: "unat (get_total_pages ?en) = length rss"
    using m(5) by (simp add: get_total_pages_def mf_get_page_count_def cache_new_def)
  have view: "engine_view ?en (word_of_nat i) = page_at f i" if "i < length rss" for i
    using that few by (simp add: engine_view_def cache_ok_new(2) [OF m(2)] m(3) content)
  then have "store_image ?en rss" using image total by (simp add: store_image_def file_image_def)
  moreover have "engine_roomy ?en = (length rss \<le> capacity)" using total by (simp add: engine_roomy_def cache_new_def)
  ultimately show ?thesis
    using new engine_ok_new [OF m(2)] view m(3,4) by (intro exI conjI) (auto simp: cache_new_def)
qed

lemma engine_new_image:
  assumes "fd \<noteq> -1" and "os_content sys path = f" and "file_image f rss" and "length rss < 2 ^ 20" and "length rss \<le> capacity"
  shows "\<exists>en sys'. engine_new path fd True True sys obs capacity observer schedule = (Inr en, sys') \<and>
    engine_ok [] en \<and> store_image en rss \<and> engine_roomy en \<and> pc_os (en_cache en) = sys' \<and>
    os_files sys' = (os_files sys)(path \<mapsto> f) \<and> mf_path (pc_file (en_cache en)) = path \<and>
    (\<forall>i < length rss. engine_view en (word_of_nat i) = page_at f i)"
  using engine_new_pages [OF assms(1-4)] assms(5) by metis

text \<open>The callback that collects what it is given.\<close>

definition collect :: "record_id \<Rightarrow> bytes \<Rightarrow> bytes \<Rightarrow> (record_id \<times> kv) list \<Rightarrow> unit result \<times> (record_id \<times> kv) list" where
  "collect rid key val c = (Inr (), c @ [(rid, (key, val))])"

lemma visit_collect: "visit collect xs c = (Inr (), c @ xs)"
  by (induction xs arbitrary: c) (auto simp: collect_def)

lemma all_records_values: "map snd (all_records rss) = concat rss"
proof -
  have "map snd (records_of_page pid rs) = rs" for pid rs
    by (simp add: records_of_page_def o_def map_nth)
  then have "map snd (all_records rss) = concat (map (\<lambda>i. rss ! i) [0..<length rss])"
    by (simp add: all_records_def map_concat o_def)
  then show ?thesis by (simp add: map_nth)
qed

lemma read_record_image:
  assumes ok: "engine_ok hs en" and image: "store_image en rss" and roomy: "engine_roomy en"
  shows "fst (read_record rid en) = Inr (record_at rss rid)"
proof -
  obtain r en' where r: "read_record rid en = (r, en')" by fastforce
  have tot: "unat (get_total_pages en) = length rss" using image by (simp add: store_image_def)
  have "rid_page_id rid < get_total_pages en \<longleftrightarrow> unat (rid_page_id rid) < length rss"
    using tot by (simp add: word_less_nat_alt)
  moreover have "read_slot (engine_view en (rid_page_id rid)) (rid_slot_id rid) = Inr (record_at rss rid)"
    if "unat (rid_page_id rid) < length rss"
  proof -
    have "page_image (engine_view en (word_of_nat (unat (rid_page_id rid)))) (rss ! unat (rid_page_id rid))"
      using image that unfolding store_image_def by blast
    then have "page_image (engine_view en (rid_page_id rid)) (rss ! unat (rid_page_id rid))" by simp
    from read_slot_page_image [OF this, of "rid_slot_id rid"] that show ?thesis
      by (simp add: record_at_def)
  qed
  ultimately show ?thesis
    using read_record_ok [OF ok r] roomy r by (auto simp: record_at_def split: if_splits)
qed

lemma scan_image:
  assumes ok: "engine_ok hs en" and image: "store_image en rss" and roomy: "engine_roomy en"
  shows "fst (reader_scan cb c en) = visit cb (all_records rss) c"
  using reader_scan_ok [OF ok image, of cb c] roomy by (simp add: scan_outcome_def)

lemma close_image_pages:
  assumes "log_ok w rss rs"
  obtains pages where "file_image (writer_close w) pages" "concat pages = concat rss @ rs"
    "length pages \<le> Suc (length rss)" "rs \<noteq> [] \<Longrightarrow> pages = log_pages (rss, rs)"
  using writer_close_image [OF assms] by (auto simp: log_pages_def split: if_splits)

lemma place_all_length: "length (fst (place_all xs log)) \<le> length (fst log) + length xs"
proof (induction xs arbitrary: log)
  case (Cons x xs)
  show ?case using Cons.IH [of "place x log"] by (simp add: place_def split: if_splits)
qed simp

lemma place_all_nonempty: "xs \<noteq> [] \<Longrightarrow> snd (place_all xs log) \<noteq> []"
proof (induction xs arbitrary: log rule: rev_induct)
  case (snoc x xs)
  have "place_all (xs @ [x]) log = place x (place_all xs log)" by (induction xs arbitrary: log) auto
  then show ?case by (simp add: place_def)
qed simp

section \<open>Properties\<close>

text \<open>
  C7: Records appended to a file of record pages, the writer then destroyed, are read back by an engine
  opened on the file with a frame per page: the ids that \<open>append\<close> returned are strictly increasing, reading
  each gives its record, and a scan delivers the old records followed by the new ones in order.
\<close>

theorem written_records_are_read_back:
  assumes "file_image f rss" and "\<forall>x \<in> set xs. fits_page x" and "length rss + length xs < 2 ^ 20 - 1"
    and "fd \<noteq> -1" and "length rss + length xs < capacity"
  shows "\<exists>w rids w'. writer_open (Some f) True = Inr w \<and> append_all xs w = (map Inr rids, w') \<and>
    sorted_wrt (<) rids \<and>
    (\<forall>sys. os_files sys path = Some (writer_close w') \<longrightarrow>
      (\<exists>en sys' recs. engine_new path fd True True sys obs capacity observer schedule = (Inr en, sys') \<and>
        (\<forall>i < length xs. fst (read_record (rids ! i) en) = Inr (Some (xs ! i))) \<and>
        fst (reader_scan collect [] en) = (Inr (), recs) \<and> map snd recs = concat rss @ xs))"
proof -
  let ?log = "(rss, [] :: kv list)"
  obtain w where w: "writer_open (Some f) True = Inr w" "log_ok w rss []"
    using log_ok_open [OF assms(1)] assms(3) by auto
  have small: "log_small (length xs) ?log" using assms(3) by (simp add: log_small_def used_def)
  obtain w' where w': "append_all xs w = (map Inr (place_rids xs ?log), w')"
    "log_ok w' (fst (place_all xs ?log)) (snd (place_all xs ?log))"
    using append_all_ok [of w ?log xs] w(2) small assms(2) by auto
  obtain pages where p: "file_image (writer_close w') pages"
    "concat pages = concat (fst (place_all xs ?log)) @ snd (place_all xs ?log)"
    "length pages \<le> Suc (length (fst (place_all xs ?log)))"
    "snd (place_all xs ?log) \<noteq> [] \<Longrightarrow> pages = log_pages (place_all xs ?log)"
    using close_image_pages [OF w'(2)] by auto
  have recs: "concat pages = concat rss @ xs"
    using p(2) place_all_records(1) [OF small assms(2)] by (simp add: log_pages_def)
  have len: "length pages \<le> Suc (length rss + length xs)" using p(3) place_all_length [of xs ?log] by simp
  have few: "length pages < 2 ^ 20" "length pages \<le> capacity" using len assms(3,5) by simp_all
  have sorted: "sorted_wrt (<) (place_rids xs ?log)" using place_rids_sorted [OF small assms(2)] by simp
  have read: "record_at pages (place_rids xs ?log ! i) = Some (xs ! i)" if "i < length xs" for i
  proof -
    have "xs \<noteq> []" using that by auto
    then have "pages = log_pages (place_all xs ?log)" by (intro p(4) place_all_nonempty)
    with place_all_records(2) [OF small assms(2) that] show ?thesis by simp
  qed
  have "\<exists>en sys' recs. engine_new path fd True True sys obs capacity observer schedule = (Inr en, sys') \<and>
        (\<forall>i < length xs. fst (read_record (place_rids xs ?log ! i) en) = Inr (Some (xs ! i))) \<and>
        fst (reader_scan collect [] en) = (Inr (), recs) \<and> map snd recs = concat rss @ xs"
    if sys: "os_files sys path = Some (writer_close w')" for sys
  proof -
    have content: "os_content sys path = writer_close w'" using sys by (simp add: os_content_def)
    obtain en sys' where e: "engine_new path fd True True sys obs capacity observer schedule = (Inr en, sys')"
      "engine_ok [] en" "store_image en pages" "engine_roomy en"
      using engine_new_image [OF assms(4) content p(1) few] by blast
    have "fst (reader_scan collect [] en) = (Inr (), all_records pages)"
      using scan_image [OF e(2-4), of collect "[]"] by (simp add: visit_collect)
    with e(1) read_record_image [OF e(2-4)] read recs all_records_values [of pages] show ?thesis by auto
  qed
  with w(1) w'(1) sorted show ?thesis by blast
qed

definition two_records :: "kv list" where
  "two_records = [([1, 2], [3]), ([1, 2], [4, 5])]"

lemma two_records_fit: "\<forall>x \<in> set two_records. fits_page x"
  by (simp add: two_records_def fits_page_def has_room_def used_def rec_size_def)

lemma written_records_are_read_back_witness:
  "\<exists>w rids w'. writer_open (Some []) True = Inr w \<and> append_all two_records w = (map Inr rids, w') \<and>
    sorted_wrt (<) rids \<and>
    (\<forall>sys. os_files sys ''db'' = Some (writer_close w') \<longrightarrow>
      (\<exists>en sys' recs. engine_new ''db'' 3 True True sys (\<lambda>_. observer_new 4) 8 None [[], [0]] = (Inr en, sys') \<and>
        (\<forall>i < length two_records. fst (read_record (rids ! i) en) = Inr (Some (two_records ! i))) \<and>
        fst (reader_scan collect [] en) = (Inr (), recs) \<and> map snd recs = concat [] @ two_records))"
  by (rule written_records_are_read_back [OF file_image_Nil two_records_fit])
    (simp_all add: two_records_def)

text \<open>
  \<open>flush\<close> writes the page in memory but keeps it as the current page, so a writer that is flushed and
  later destroyed leaves its last page twice in the file: every record of that page is read twice.
\<close>

theorem explicit_flush_duplicates_page:
  assumes "log_ok w rss rs" and "rs \<noteq> []"
  shows "file_image (writer_close (writer_flush w)) (rss @ [rs, rs])"
proof -
  have w: "writer_ok w rs" using assms(1) by (simp add: log_ok_def)
  note p1 = write_page_image [OF w]
  note p2 = write_page_image [OF p1(2)]
  have pos: "0 < current_slot_count v" if "writer_ok v rs" for v
    using that assms(2) by (auto simp: writer_ok_def word_gt_0)
  have f1: "writer_flush w = write_page_to_disk w" using pos [OF w] by (simp add: writer_flush_def)
  have f2: "writer_flush (write_page_to_disk w) = write_page_to_disk (write_page_to_disk w)"
    using pos [OF p1(2)] by (simp add: writer_flush_def)
  have "file_image (sw_file (write_page_to_disk w)) (rss @ [rs])"
    unfolding p1(3) using assms(1) p1(1) by (intro file_image_snoc) (simp_all add: log_ok_def)
  then have "file_image (sw_file (write_page_to_disk (write_page_to_disk w))) ((rss @ [rs]) @ [rs])"
    unfolding p2(3) using p2(1) by (intro file_image_snoc)
  then show ?thesis by (simp add: writer_close_def f1 f2)
qed

lemma explicit_flush_duplicates_page_witness:
  "\<exists>w. log_ok w [] [([1], [2])] \<and> file_image (writer_close (writer_flush w)) ([] @ [[([1], [2])], [([1], [2])]])"
proof -
  obtain w where "log_ok w [] []" using log_ok_open_new by blast
  moreover have "fits_page ([1], [2])" by (simp add: fits_page_def has_room_def used_def rec_size_def)
  ultimately obtain w' where "log_ok w' [] [([1], [2])]"
    using writer_append_ok [of w "[]" "[]" "[1]" "[2]"] by (auto simp: place_def fits_page_def)
  with explicit_flush_duplicates_page [OF this] show ?thesis by blast
qed

text \<open>
  Appending a record that does not fit an empty page throws, after the page in memory has been written
  to the file however empty it was; the writer goes on with a new page.
\<close>

theorem oversized_append_throws:
  assumes "log_ok w rss rs" and "\<not> fits_page (key, val)" and "Suc (length rss) < 4294967296"
  shows "\<exists>w'. writer_append key val w = (Inl RecordTooLarge, w') \<and> log_ok w' (rss @ [rs]) []"
  using assms by (rule writer_append_too_large)

lemma oversized_append_throws_witness:
  "\<exists>w w'. writer_open None True = Inr w \<and> writer_append (replicate 4022 0) [] w = (Inl RecordTooLarge, w') \<and>
    log_ok w' ([] @ [[]]) []"
proof -
  obtain w where w: "writer_open None True = Inr w" "log_ok w [] []" using log_ok_open_new by blast
  have "\<not> fits_page (replicate 4022 0, [])" by (simp add: fits_page_def has_room_def used_def rec_size_def)
  from oversized_append_throws [OF w(2) this] w(1) show ?thesis by auto
qed

end
