(* ===== verification/Hash_Index.thy ===== *)
theory Hash_Index
  imports Storage_Roundtrip
begin

text \<open>
  \<open>src/src/index/index.{h,cpp}\<close>: the in-memory hash index from keys to record ids and its rebuilding by a
  scan. The hash function only spreads the keys over buckets; it is modelled for itself.
\<close>

unbundle bit_operations_syntax

text \<open>\<open>VectorHash\<close>; \<open>hash8\<close> is the library's \<open>std::hash<uint8_t>\<close>.\<close>

definition vector_hash :: "(u8 \<Rightarrow> u64) \<Rightarrow> bytes \<Rightarrow> u64" where
  "vector_hash hash8 k =
     foldl (\<lambda>seed b. seed XOR (hash8 b + 0x9e3779b9 + push_bit 6 seed + drop_bit 2 seed)) 0 k"

type_synonym hash_index = "bytes \<rightharpoonup> record_id"

definition index_insert :: "bytes \<Rightarrow> record_id \<Rightarrow> hash_index \<Rightarrow> hash_index" where
  "index_insert key rid m = m(key \<mapsto> rid)"

definition index_lookup :: "bytes \<Rightarrow> hash_index \<Rightarrow> record_id option" where
  "index_lookup key m = (case m key of Some rid \<Rightarrow> Some rid | None \<Rightarrow> None)"

definition index_size :: "hash_index \<Rightarrow> nat" where
  "index_size m = card (dom m)"

text \<open>\<open>rebuild\<close>: the map is cleared, then filled by a scan; an exception leaves it half filled.\<close>

definition index_rebuild :: "engine \<Rightarrow> (unit result \<times> hash_index) \<times> engine" where
  "index_rebuild en =
     reader_scan (\<lambda>rid key val m. (Inr (), index_insert key rid m)) Map.empty en"

section \<open>The index of the records of a file\<close>

text \<open>The record id of the last record with a key, and the value of that record.\<close>

definition index_of_records :: "(record_id \<times> kv) list \<Rightarrow> hash_index" where
  "index_of_records xs = map_of (rev (map (\<lambda>x. (fst (snd x), fst x)) xs))"

definition latest :: "kv list \<Rightarrow> bytes \<rightharpoonup> bytes" where
  "latest kvs = map_of (rev kvs)"

lemma latest_simps [simp]:
  "latest [] = Map.empty" "latest (kvs @ [(k, v)]) = (latest kvs)(k \<mapsto> v)"
  "latest (xs @ ys) = latest xs ++ latest ys"
  by (auto simp: latest_def)

lemma dom_latest: "dom (latest kvs) = fst ` set kvs"
  by (simp add: latest_def dom_map_of_conv_image_fst)

lemma visit_index:
  "visit (\<lambda>rid key val m. (Inr (), index_insert key rid m)) xs m = (Inr (), m ++ index_of_records xs)"
  by (induction xs arbitrary: m) (auto simp: index_of_records_def index_insert_def map_add_upd_left)

lemma index_latest:
  "(case index_of_records xs k of None \<Rightarrow> latest (map snd xs) k = None
    | Some rid \<Rightarrow> \<exists>v. (rid, (k, v)) \<in> set xs \<and> latest (map snd xs) k = Some v)"
proof (induction xs rule: rev_induct)
  case Nil
  then show ?case by (simp add: index_of_records_def)
next
  case (snoc x xs)
  obtain rid k' v' where x: "x = (rid, (k', v'))" by (metis prod.collapse)
  have "index_of_records (xs @ [x]) = (index_of_records xs)(k' \<mapsto> rid)"
    by (simp add: index_of_records_def x)
  with snoc x show ?case by (auto simp: latest_def split: option.splits)
qed

text \<open>Record ids of a scan name the records they come with.\<close>

lemma record_at_all_records:
  assumes image: "store_image en rss" and x: "(rid, r) \<in> set (all_records rss)"
  shows "record_at rss rid = Some r"
proof -
  obtain i j where ij: "i < length rss" "j < length (rss ! i)" "rid = RecordID (word_of_nat i) (word_of_nat j)"
    "r = rss ! i ! j"
    using x by (auto simp: all_records_def records_of_page_def)
  have "page_image (engine_view en (word_of_nat i)) (rss ! i)" using image ij(1) by (simp add: store_image_def)
  then have "length (rss ! i) < 65536" using slottedD(5) by (auto simp: page_image_def)
  moreover have "length rss < 4294967296"
    using image unat_u32_lt [of "get_total_pages en"] by (simp add: store_image_def)
  ultimately show ?thesis using ij by (simp add: record_at_def)
qed

lemma rebuild_image:
  assumes ok: "engine_ok hs en" and image: "store_image en rss" and roomy: "engine_roomy en"
  shows "\<exists>en'. index_rebuild en = ((Inr (), index_of_records (all_records rss)), en') \<and>
    engine_ok hs en' \<and> same_store en en'"
  using scan_image [OF assms, of "\<lambda>rid key val m. (Inr (), index_insert key rid m)" Map.empty]
    reader_scan_ok [OF ok image, of "\<lambda>rid key val m. (Inr (), index_insert key rid m)" Map.empty]
  by (cases "index_rebuild en") (simp add: index_rebuild_def visit_index)

text \<open>
  C10: After \<open>rebuild\<close> on a file of record pages that fits the pool, looking a key up and reading the record
  gives the value of the last record with that key in the file, and exactly the absent keys are not found.
\<close>

theorem rebuilt_index_finds_latest:
  assumes "engine_ok hs en" and "store_image en rss" and "engine_roomy en"
  shows "case index_rebuild en of ((r, m), en') \<Rightarrow> r = Inr () \<and>
    (case index_lookup k m of
       None \<Rightarrow> latest (concat rss) k = None
     | Some rid \<Rightarrow> (\<exists>v. fst (read_record rid en') = Inr (Some (k, v)) \<and> latest (concat rss) k = Some v))"
proof -
  obtain en' where r: "index_rebuild en = ((Inr (), index_of_records (all_records rss)), en')"
    "engine_ok hs en'" "same_store en en'"
    using rebuild_image [OF assms] by blast
  have im: "store_image en' rss" and ro: "engine_roomy en'"
    using assms(2,3) store_image_same [OF r(3)] same_store_roomy [OF r(3)] by simp_all
  show ?thesis
  proof (cases "index_of_records (all_records rss) k")
    case None
    then show ?thesis
      using index_latest [of "all_records rss" k] by (simp add: r(1) index_lookup_def all_records_values)
  next
    case (Some rid)
    then obtain v where v: "(rid, (k, v)) \<in> set (all_records rss)" "latest (concat rss) k = Some v"
      using index_latest [of "all_records rss" k] by (auto simp: all_records_values)
    have "fst (read_record rid en') = Inr (Some (k, v))"
      using read_record_image [OF r(2) im ro] record_at_all_records [OF im v(1)] by simp
    with v(2) Some show ?thesis by (simp add: r(1) index_lookup_def)
  qed
qed

lemma rebuilt_index_finds_latest_witness:
  "case index_rebuild (small_engine 3 []) of ((r, m), en') \<Rightarrow> r = Inr () \<and>
    (case index_lookup [7] m of
       None \<Rightarrow> latest (concat [[], [], []]) [7] = None
     | Some rid \<Rightarrow> (\<exists>v. fst (read_record rid en') = Inr (Some ([7], v)) \<and>
         latest (concat [[], [], []]) [7] = Some v))"
  by (rule rebuilt_index_finds_latest [OF small_engine_ok empty_pages_image])
    (simp add: engine_roomy_def small_engine_def cache_new_def get_total_pages_def mf_get_page_count_def three_pages_def)

end
