(* ===== verification/Lru_Cache.thy ===== *)
theory Lru_Cache
  imports Linked_List
begin

text \<open>
  \<open>src/src/cache/lru_cache.{h,cpp}\<close>: the record cache, a \<open>std::list\<close> of entries in order of use with
  an \<open>unordered_map\<close> from keys to iterators, and the record eviction policy of
  \<open>src/src/cache/eviction_policy.{h,cpp}\<close> that picks a victim. The abstract view is the association
  list of keys and values, most recently used first.
\<close>

section \<open>Record eviction policies\<close>

text \<open>
  \<open>RecordEvictionPolicy::choose_victim\<close>: an index into the keys, oldest first. The cache holds a
  pointer to one, \<open>None\<close> for \<open>nullptr\<close>; the program's own policy evicts the oldest.
\<close>

type_synonym record_policy = "bytes list \<Rightarrow> nat"

definition lru_record_choose_victim :: record_policy where
  "lru_record_choose_victim keys_lru_order = 0"

section \<open>The cache\<close>

record cache_entry =
  ce_key :: bytes
  ce_value :: bytes

record lru_cache =
  lc_capacity :: nat
  lc_hits :: nat
  lc_misses :: nat
  lc_list :: "cache_entry dlist"
  lc_map :: "bytes \<rightharpoonup> iter"

definition lru_new :: "nat \<Rightarrow> lru_cache" where
  "lru_new capacity = \<lparr>lc_capacity = capacity, lc_hits = 0, lc_misses = 0,
     lc_list = dl_empty, lc_map = Map.empty\<rparr>"

definition lru_get :: "bytes \<Rightarrow> lru_cache \<Rightarrow> (bytes option \<times> lru_cache) result" where
  "lru_get key c =
     (case lc_map c key of
        None \<Rightarrow> Inr (None, c\<lparr>lc_misses := lc_misses c + 1\<rparr>)
      | Some it \<Rightarrow>
          bind_result (dl_splice_front it (lc_list c)) (\<lambda>l.
          bind_result (dl_deref it l) (\<lambda>e.
            Inr (Some (ce_value e), c\<lparr>lc_hits := lc_hits c + 1, lc_list := l\<rparr>))))"

text \<open>
  The victim of a full cache: the iterators from \<open>end()\<close> back to \<open>begin()\<close>, the policy's index
  (0 without a policy or when it is out of range), and \<open>iters_lru[victim_idx]\<close>, which is outside
  the vector when the list is empty.
\<close>

definition lru_pick_victim :: "record_policy option \<Rightarrow> lru_cache \<Rightarrow> iter result" where
  "lru_pick_victim policy c =
     (let iters_lru = rev (map fst (dl_nodes (lc_list c)));
          key_ptrs = rev (map (ce_key \<circ> snd) (dl_nodes (lc_list c)));
          idx0 = (case policy of None \<Rightarrow> 0 | Some pick \<Rightarrow> pick key_ptrs);
          idx = (if idx0 \<ge> length iters_lru then 0 else idx0)
      in if idx < length iters_lru then Inr (iters_lru ! idx) else Inl Undefined)"

definition lru_evict :: "record_policy option \<Rightarrow> lru_cache \<Rightarrow> lru_cache result" where
  "lru_evict policy c =
     bind_result (lru_pick_victim policy c) (\<lambda>it.
     bind_result (dl_deref it (lc_list c)) (\<lambda>e.
     bind_result (dl_erase it (lc_list c)) (\<lambda>l.
       Inr (c\<lparr>lc_map := (lc_map c)(ce_key e := None), lc_list := l\<rparr>))))"

definition lru_put :: "record_policy option \<Rightarrow> bytes \<Rightarrow> bytes \<Rightarrow> lru_cache \<Rightarrow> lru_cache result" where
  "lru_put policy key val c =
     (case lc_map c key of
        Some it \<Rightarrow>
          bind_result (dl_splice_front it (lc_list c)) (\<lambda>l.
          bind_result (dl_deref it l) (\<lambda>e.
          bind_result (dl_assign it (e\<lparr>ce_value := val\<rparr>) l) (\<lambda>l'.
            Inr (c\<lparr>lc_list := l'\<rparr>))))
      | None \<Rightarrow>
          bind_result (if dl_size (lc_list c) \<ge> lc_capacity c then lru_evict policy c else Inr c) (\<lambda>c'.
            let l = dl_push_front \<lparr>ce_key = key, ce_value = val\<rparr> (lc_list c')
            in Inr (c'\<lparr>lc_list := l, lc_map := (lc_map c')(key \<mapsto> dl_begin l)\<rparr>)))"

definition lru_get_hits :: "lru_cache \<Rightarrow> nat" where
  "lru_get_hits c = lc_hits c"

definition lru_get_misses :: "lru_cache \<Rightarrow> nat" where
  "lru_get_misses c = lc_misses c"

text \<open>Each get is counted once, and nothing else is.\<close>

lemma lru_get_counts:
  "lru_get key c = Inr (r, c') \<Longrightarrow>
   lru_get_hits c' = lru_get_hits c + (if r = None then 0 else 1) \<and>
   lru_get_misses c' = lru_get_misses c + (if r = None then 1 else 0)"
  by (auto simp: lru_get_def bind_result_def lru_get_hits_def lru_get_misses_def split: option.splits sum.splits)

lemma lru_evict_counts: "lru_evict policy c = Inr c' \<Longrightarrow> lc_hits c' = lc_hits c \<and> lc_misses c' = lc_misses c"
  by (auto simp: lru_evict_def bind_result_def split: sum.splits)

lemma lru_put_counts:
  "lru_put policy key val c = Inr c' \<Longrightarrow>
   lru_get_hits c' = lru_get_hits c \<and> lru_get_misses c' = lru_get_misses c"
  by (auto simp: lru_put_def bind_result_def Let_def lru_get_hits_def lru_get_misses_def
      split: option.splits sum.splits if_splits dest!: lru_evict_counts)

section \<open>Invariant and abstract view\<close>

definition lru_ok :: "lru_cache \<Rightarrow> bool" where
  "lru_ok c \<longleftrightarrow> dl_ok (lc_list c) \<and> dl_size (lc_list c) \<le> lc_capacity c \<and>
     (\<forall>key it. lc_map c key = Some it \<longleftrightarrow> (\<exists>e. (it, e) \<in> set (dl_nodes (lc_list c)) \<and> ce_key e = key))"

definition entry_pair :: "iter \<times> cache_entry \<Rightarrow> bytes \<times> bytes" where
  "entry_pair n = (ce_key (snd n), ce_value (snd n))"

definition lru_view :: "lru_cache \<Rightarrow> (bytes \<times> bytes) list" where
  "lru_view c = map entry_pair (dl_nodes (lc_list c))"

text \<open>The abstract cache: what \<open>get\<close> and \<open>put\<close> do to the association list.\<close>

definition without_key :: "'k \<Rightarrow> ('k \<times> 'v) list \<Rightarrow> ('k \<times> 'v) list" where
  "without_key k xs = filter (\<lambda>p. fst p \<noteq> k) xs"

definition spec_get :: "'k \<Rightarrow> ('k \<times> 'v) list \<Rightarrow> 'v option \<times> ('k \<times> 'v) list" where
  "spec_get k xs = (case map_of xs k of None \<Rightarrow> (None, xs) | Some v \<Rightarrow> (Some v, (k, v) # without_key k xs))"

definition spec_put :: "nat \<Rightarrow> ('k list \<Rightarrow> 'k) \<Rightarrow> 'k \<Rightarrow> 'v \<Rightarrow> ('k \<times> 'v) list \<Rightarrow> ('k \<times> 'v) list" where
  "spec_put cap victim k v xs =
     (k, v) # (if k \<in> fst ` set xs then without_key k xs
               else if length xs \<ge> cap then without_key (victim (rev (map fst xs))) xs else xs)"

definition policy_victim :: "record_policy option \<Rightarrow> bytes list \<Rightarrow> bytes" where
  "policy_victim policy keys =
     (let i = (case policy of None \<Rightarrow> 0 | Some pick \<Rightarrow> pick keys)
      in keys ! (if i \<ge> length keys then 0 else i))"

lemma lru_ok_new: "lru_ok (lru_new n)"
  by (simp add: lru_ok_def lru_new_def dl_empty_def dl_size_def dl_ok_def)

lemma lru_view_new: "lru_view (lru_new n) = []"
  by (simp add: lru_view_def lru_new_def dl_empty_def)

lemma lru_okD:
  assumes "lru_ok c"
  shows "dl_ok (lc_list c)" "length (dl_nodes (lc_list c)) \<le> lc_capacity c"
    "lc_map c key = Some it \<longleftrightarrow> (\<exists>e. (it, e) \<in> set (dl_nodes (lc_list c)) \<and> ce_key e = key)"
  using assms by (simp_all add: lru_ok_def dl_size_def)

lemma lru_map_node:
  "lru_ok c \<Longrightarrow> (it, e) \<in> set (dl_nodes (lc_list c)) \<Longrightarrow> lc_map c (ce_key e) = Some it"
  by (auto simp: lru_ok_def)

lemma node_unique:
  assumes "lru_ok c" and "(i, e) \<in> set (dl_nodes (lc_list c))" and "(j, f) \<in> set (dl_nodes (lc_list c))"
    and "i = j \<or> ce_key e = ce_key f"
  shows "i = j \<and> e = f"
proof -
  have "i = j" using assms lru_map_node [OF assms(1)] by (metis option.inject)
  moreover have "distinct (map fst (dl_nodes (lc_list c)))" using assms(1) by (simp add: lru_ok_def dl_ok_def)
  ultimately show ?thesis using assms(2,3) by (auto dest: eq_key_imp_eq_value)
qed

lemma distinct_lru_view: "lru_ok c \<Longrightarrow> distinct (map fst (lru_view c))"
proof -
  assume ok: "lru_ok c"
  have d: "distinct (dl_nodes (lc_list c))" using ok by (auto simp: lru_ok_def dl_ok_def distinct_map)
  show ?thesis
    unfolding lru_view_def map_map comp_def entry_pair_def fst_conv distinct_map
    using d node_unique [OF ok] by (auto intro!: inj_onI)
qed

text \<open>Removing a node is removing its key.\<close>

lemma view_without:
  assumes ok: "lru_ok c" and n: "(it, e) \<in> set (dl_nodes (lc_list c))"
  shows "map entry_pair (dl_without it (dl_nodes (lc_list c))) = without_key (ce_key e) (lru_view c)"
proof -
  have "fst n \<noteq> it \<longleftrightarrow> ce_key (snd n) \<noteq> ce_key e" if "n \<in> set (dl_nodes (lc_list c))" for n
    using node_unique [OF ok, of "fst n" "snd n" it e] that n by auto
  then show ?thesis
    by (simp add: dl_without_def without_key_def lru_view_def filter_map comp_def entry_pair_def
        cong: filter_cong)
qed

lemma map_of_view:
  assumes ok: "lru_ok c"
  shows "map_of (lru_view c) key =
    (case lc_map c key of None \<Rightarrow> None
     | Some it \<Rightarrow> map_option ce_value (map_of (dl_nodes (lc_list c)) it))"
proof (cases "lc_map c key")
  case None
  then have "key \<notin> fst ` set (lru_view c)"
    using lru_map_node [OF ok] by (force simp: lru_view_def entry_pair_def)
  with None show ?thesis by (simp add: map_of_eq_None_iff)
next
  case (Some it)
  then obtain e where e: "(it, e) \<in> set (dl_nodes (lc_list c))" "ce_key e = key"
    using lru_okD(3) [OF ok] by blast
  then have "(key, ce_value e) \<in> set (lru_view c)" by (force simp: lru_view_def entry_pair_def)
  then have "map_of (lru_view c) key = Some (ce_value e)"
    using distinct_lru_view [OF ok] by simp
  moreover have "map_of (dl_nodes (lc_list c)) it = Some e"
    using e ok by (simp add: lru_ok_def dl_ok_def)
  ultimately show ?thesis using Some by simp
qed

section \<open>The operations refine the abstract cache\<close>

lemma lru_ok_move_front:
  assumes ok: "lru_ok c" and n: "(it, e) \<in> set (dl_nodes (lc_list c))" and key: "ce_key e' = ce_key e"
  shows "lru_ok (c\<lparr>lc_list := (lc_list c)\<lparr>dl_nodes := (it, e') # dl_without it (dl_nodes (lc_list c))\<rparr>\<rparr>)"
proof -
  let ?ns = "dl_nodes (lc_list c)"
  have dl: "dl_ok (lc_list c)" using ok by (simp add: lru_ok_def)
  have "dl_ok ((lc_list c)\<lparr>dl_nodes := (it, e') # dl_without it ?ns\<rparr>)"
    using dl n by (auto simp: dl_ok_def distinct_dl_without)
  moreover have "length ((it, e') # dl_without it ?ns) = length ?ns"
    using dl n by (simp add: dl_ok_def length_dl_without [OF _ n])
  moreover have "lc_map c k = Some j \<longleftrightarrow>
      (\<exists>f. (j, f) \<in> set ((it, e') # dl_without it ?ns) \<and> ce_key f = k)" for k j
    using lru_okD(3) [OF ok, of k j] n key node_unique [OF ok n] by auto
  ultimately show ?thesis using ok by (simp add: lru_ok_def dl_size_def)
qed

lemma lru_view_move_front:
  assumes "lru_ok c" and "(it, e) \<in> set (dl_nodes (lc_list c))" and "ce_key e' = ce_key e"
  shows "lru_view (c\<lparr>lc_list := (lc_list c)\<lparr>dl_nodes := (it, e') # dl_without it (dl_nodes (lc_list c))\<rparr>\<rparr>) =
     (ce_key e, ce_value e') # without_key (ce_key e) (lru_view c)"
  using view_without [OF assms(1,2)] assms(3) by (simp add: lru_view_def entry_pair_def)

lemma lru_ok_counters [simp]:
  "lru_ok (c\<lparr>lc_hits := h\<rparr>) = lru_ok c" "lru_ok (c\<lparr>lc_misses := h\<rparr>) = lru_ok c"
  "lru_view (c\<lparr>lc_hits := h\<rparr>) = lru_view c" "lru_view (c\<lparr>lc_misses := h\<rparr>) = lru_view c"
  by (simp_all add: lru_ok_def lru_view_def)

lemma lru_cached_node:
  assumes ok: "lru_ok c" and it: "lc_map c key = Some it"
  obtains e where "(it, e) \<in> set (dl_nodes (lc_list c))" "ce_key e = key"
    "map_of (lru_view c) key = Some (ce_value e)"
proof -
  obtain e where e: "(it, e) \<in> set (dl_nodes (lc_list c))" "ce_key e = key"
    using lru_okD(3) [OF ok] it by blast
  have "map_of (dl_nodes (lc_list c)) it = Some e"
    using e ok by (simp add: lru_ok_def dl_ok_def)
  then have "map_of (lru_view c) key = Some (ce_value e)" using it by (simp add: map_of_view [OF ok])
  with e that show thesis by blast
qed

lemma dl_deref_hd [simp]: "dl_deref it (l\<lparr>dl_nodes := (it, x) # ns\<rparr>) = Inr x"
  by (simp add: dl_deref_def)

lemma lru_get_refines:
  assumes ok: "lru_ok c"
  shows "\<exists>c'. lru_get key c = Inr (fst (spec_get key (lru_view c)), c') \<and> lru_ok c' \<and>
    lru_view c' = snd (spec_get key (lru_view c)) \<and> lc_capacity c' = lc_capacity c \<and>
    lc_hits c' + lc_misses c' = lc_hits c + lc_misses c + 1"
proof (cases "lc_map c key")
  case None
  then have "map_of (lru_view c) key = None" by (simp add: map_of_view [OF ok])
  with None ok show ?thesis by (auto simp: lru_get_def spec_get_def)
next
  case (Some it)
  obtain e where e: "(it, e) \<in> set (dl_nodes (lc_list c))" "ce_key e = key"
    "map_of (lru_view c) key = Some (ce_value e)"
    using lru_cached_node [OF ok Some] .
  let ?c = "c\<lparr>lc_list := (lc_list c)\<lparr>dl_nodes := (it, e) # dl_without it (dl_nodes (lc_list c))\<rparr>\<rparr>"
  have "lru_get key c = Inr (Some (ce_value e), ?c\<lparr>lc_hits := lc_hits c + 1\<rparr>)"
    using Some dl_splice_front_ok(1) [OF lru_okD(1) [OF ok] e(1)] by (simp add: lru_get_def)
  then show ?thesis
    using e lru_ok_move_front [OF ok e(1) refl] lru_view_move_front [OF ok e(1) refl]
    by (simp add: spec_get_def)
qed

lemma lru_pick_victim_node:
  assumes ne: "dl_nodes (lc_list c) \<noteq> []"
  shows "\<exists>it e. lru_pick_victim policy c = Inr it \<and> (it, e) \<in> set (dl_nodes (lc_list c)) \<and>
    ce_key e = policy_victim policy (rev (map fst (lru_view c)))"
proof -
  let ?ns = "dl_nodes (lc_list c)"
  let ?keys = "rev (map fst (lru_view c))"
  define i0 where "i0 = (case policy of None \<Rightarrow> 0 | Some pick \<Rightarrow> pick ?keys)"
  define i where "i = (if i0 \<ge> length ?ns then 0 else i0)"
  have lt: "i < length ?ns" using ne by (simp add: i_def)
  have keys: "rev (map (ce_key \<circ> snd) ?ns) = ?keys"
    by (simp add: lru_view_def comp_def entry_pair_def)
  have "lru_pick_victim policy c = Inr (rev (map fst ?ns) ! i)"
    using lt unfolding lru_pick_victim_def Let_def keys i0_def [symmetric] i_def
    by (auto simp: i_def split: if_splits)
  moreover have "rev ?ns ! i \<in> set ?ns" using lt by (metis length_rev nth_mem set_rev)
  moreover have "rev (map fst ?ns) ! i = fst (rev ?ns ! i)" using lt by (simp add: rev_map)
  moreover have "policy_victim policy ?keys = ?keys ! i"
  proof -
    have "length ?keys = length ?ns" by (simp add: lru_view_def)
    then show ?thesis unfolding policy_victim_def Let_def i_def i0_def by simp
  qed
  moreover have "?keys ! i = ce_key (snd (rev ?ns ! i))"
    using lt by (simp only: keys [symmetric]) (simp add: rev_map)
  ultimately show ?thesis
    by (intro exI [of _ "fst (rev ?ns ! i)"] exI [of _ "snd (rev ?ns ! i)"]) auto
qed

lemma lru_evict_refines:
  assumes ok: "lru_ok c" and ne: "dl_nodes (lc_list c) \<noteq> []"
  shows "\<exists>c'. lru_evict policy c = Inr c' \<and> lru_ok c' \<and>
    lru_view c' = without_key (policy_victim policy (rev (map fst (lru_view c)))) (lru_view c) \<and>
    lc_capacity c' = lc_capacity c \<and> dl_size (lc_list c') < dl_size (lc_list c) \<and>
    (\<forall>k. lc_map c k = None \<longrightarrow> lc_map c' k = None)"
proof -
  obtain it e where v: "lru_pick_victim policy c = Inr it" "(it, e) \<in> set (dl_nodes (lc_list c))"
    "ce_key e = policy_victim policy (rev (map fst (lru_view c)))"
    using lru_pick_victim_node [OF ne] by blast
  note dl = lru_okD(1) [OF ok]
  let ?l = "(lc_list c)\<lparr>dl_nodes := dl_without it (dl_nodes (lc_list c))\<rparr>"
  let ?c = "c\<lparr>lc_map := (lc_map c)(ce_key e := None), lc_list := ?l\<rparr>"
  have ev: "lru_evict policy c = Inr ?c"
    using v(1) dl_deref_in [OF dl v(2)] dl_erase_ok(1) [OF dl v(2)] by (simp add: lru_evict_def)
  have len: "Suc (length (dl_without it (dl_nodes (lc_list c)))) = length (dl_nodes (lc_list c))"
    using dl v(2) by (simp add: dl_ok_def length_dl_without)
  have other: "j \<noteq> it \<longleftrightarrow> ce_key f \<noteq> ce_key e" if "(j, f) \<in> set (dl_nodes (lc_list c))" for j f
    using node_unique [OF ok that v(2)] by auto
  have "lc_map ?c k = Some j \<longleftrightarrow> (\<exists>f. (j, f) \<in> set (dl_nodes ?l) \<and> ce_key f = k)" for k j
    using lru_okD(3) [OF ok, of k j] other by auto
  then have "lru_ok ?c"
    using dl_erase_ok(2) [OF dl v(2)] len lru_okD(2) [OF ok] by (simp add: lru_ok_def dl_size_def)
  moreover have "lru_view ?c = without_key (ce_key e) (lru_view c)"
    using view_without [OF ok v(2)] by (simp add: lru_view_def)
  ultimately show ?thesis using ev v(3) len by (auto simp: dl_size_def)
qed

lemma lru_push_refines:
  assumes ok: "lru_ok c" and new: "lc_map c key = None" and room: "dl_size (lc_list c) < lc_capacity c"
  shows "let l = dl_push_front \<lparr>ce_key = key, ce_value = val\<rparr> (lc_list c);
             c' = c\<lparr>lc_list := l, lc_map := (lc_map c)(key \<mapsto> dl_begin l)\<rparr>
         in lru_ok c' \<and> lru_view c' = (key, val) # lru_view c"
proof -
  let ?l = "dl_push_front \<lparr>ce_key = key, ce_value = val\<rparr> (lc_list c)"
  have fresh: "(dl_fresh (lc_list c), e) \<notin> set (dl_nodes (lc_list c))" for e
    using ok by (auto simp: lru_ok_def dl_ok_def)
  have m: "((lc_map c)(key \<mapsto> dl_fresh (lc_list c))) k = Some j \<longleftrightarrow>
      (\<exists>f. (j, f) \<in> set (dl_nodes ?l) \<and> ce_key f = k)" for k j
    using new lru_okD(3) [OF ok, of k j] lru_okD(3) [OF ok, of key j] by auto
  let ?c = "c\<lparr>lc_list := ?l, lc_map := (lc_map c)(key \<mapsto> dl_begin ?l)\<rparr>"
  have "lru_ok ?c"
    unfolding lru_ok_def
  proof (intro conjI allI)
    show "dl_ok (lc_list ?c)" using lru_okD(1) [OF ok] by simp
    show "dl_size (lc_list ?c) \<le> lc_capacity ?c" using room by (simp add: dl_size_def)
    show "lc_map ?c k = Some j \<longleftrightarrow> (\<exists>f. (j, f) \<in> set (dl_nodes (lc_list ?c)) \<and> ce_key f = k)" for k j
      using m [of k j] by simp
  qed
  then show ?thesis by (simp add: lru_view_def entry_pair_def)
qed

lemma lru_put_refines:
  assumes ok: "lru_ok c" and cap: "0 < lc_capacity c"
  shows "\<exists>c'. lru_put policy key val c = Inr c' \<and> lru_ok c' \<and>
    lru_view c' = spec_put (lc_capacity c) (policy_victim policy) key val (lru_view c) \<and>
    lc_capacity c' = lc_capacity c"
proof (cases "lc_map c key")
  case (Some it)
  obtain e where e: "(it, e) \<in> set (dl_nodes (lc_list c))" "ce_key e = key"
    "map_of (lru_view c) key = Some (ce_value e)"
    using lru_cached_node [OF ok Some] .
  note dl = lru_okD(1) [OF ok]
  let ?e = "e\<lparr>ce_value := val\<rparr>"
  let ?l = "(lc_list c)\<lparr>dl_nodes := (it, e) # dl_without it (dl_nodes (lc_list c))\<rparr>"
  let ?c = "c\<lparr>lc_list := (lc_list c)\<lparr>dl_nodes := (it, ?e) # dl_without it (dl_nodes (lc_list c))\<rparr>\<rparr>"
  have "map (\<lambda>n. if fst n = it then (it, ?e) else n) (dl_without it (dl_nodes (lc_list c))) =
      dl_without it (dl_nodes (lc_list c))"
    by (rule map_idI) auto
  then have "dl_assign it ?e ?l = Inr ((lc_list c)\<lparr>dl_nodes := (it, ?e) # dl_without it (dl_nodes (lc_list c))\<rparr>)"
    using dl_assign_ok(1) [OF dl_splice_front_ok(2) [OF dl e(1)], of it e ?e] by simp
  then have "lru_put policy key val c = Inr ?c"
    using Some dl_splice_front_ok(1) [OF dl e(1)] by (simp add: lru_put_def)
  moreover have "key \<in> fst ` set (lru_view c)" using e(3) by (force dest: map_of_SomeD)
  ultimately show ?thesis
    using e(2) lru_ok_move_front [OF ok e(1), of ?e] lru_view_move_front [OF ok e(1), of ?e]
    by (simp add: spec_put_def)
next
  case None
  have notin: "key \<notin> fst ` set (lru_view c)"
    using None map_of_view [OF ok, of key] by (simp add: map_of_eq_None_iff)
  have len: "length (lru_view c) = dl_size (lc_list c)" by (simp add: lru_view_def dl_size_def)
  show ?thesis
  proof (cases "dl_size (lc_list c) \<ge> lc_capacity c")
    case True
    with cap have "dl_nodes (lc_list c) \<noteq> []" by (auto simp: dl_size_def)
    from lru_evict_refines [OF ok this, of policy] obtain c' where c':
      "lru_evict policy c = Inr c'" "lru_ok c'"
      "lru_view c' = without_key (policy_victim policy (rev (map fst (lru_view c)))) (lru_view c)"
      "lc_capacity c' = lc_capacity c" "dl_size (lc_list c') < dl_size (lc_list c)" "lc_map c' key = None"
      using None by blast
    moreover have "dl_size (lc_list c') < lc_capacity c'"
      using c'(4,5) ok by (simp add: lru_ok_def)
    ultimately show ?thesis
      using None True notin len lru_push_refines [OF c'(2,6), of val]
      by (simp add: lru_put_def spec_put_def Let_def)
  next
    case False
    then show ?thesis
      using None notin len lru_push_refines [OF ok None, of val]
      by (simp add: lru_put_def spec_put_def Let_def)
  qed
qed

lemma lru_put_capacity_0:
  assumes ok: "lru_ok c" and cap: "lc_capacity c = 0"
  shows "lru_put policy key val c = Inl Undefined"
proof -
  have "dl_nodes (lc_list c) = []" using ok cap by (simp add: lru_ok_def dl_size_def)
  moreover then have "lc_map c key = None"
    using lru_okD(3) [OF ok, of key] by (cases "lc_map c key") auto
  ultimately show ?thesis
    by (simp add: lru_put_def lru_evict_def lru_pick_victim_def dl_size_def cap)
qed

section \<open>The interface the database relies on\<close>

text \<open>
  A record cache seen as a partial map: looking a key up does not change the map, and inserting a
  pair may forget other keys but never changes their values. A client that inserts into the cache
  what it writes to its store keeps the cache coherent with the store.
\<close>

locale record_cache =
  fixes get :: "'k \<Rightarrow> 'c \<Rightarrow> ('v option \<times> 'c) result"
    and put :: "'k \<Rightarrow> 'v \<Rightarrow> 'c \<Rightarrow> 'c result"
    and view :: "'c \<Rightarrow> 'k \<rightharpoonup> 'v"
    and ok :: "'c \<Rightarrow> bool"
  assumes get_view: "ok c \<Longrightarrow> \<exists>c'. get k c = Inr (view c k, c') \<and> ok c' \<and> view c' = view c"
    and put_view: "ok c \<Longrightarrow>
      \<exists>c'. put k v c = Inr c' \<and> ok c' \<and> view c' \<subseteq>\<^sub>m (view c)(k \<mapsto> v) \<and> view c' k = Some v"
begin

lemma put_coherent:
  assumes "ok c" and "view c \<subseteq>\<^sub>m store"
  shows "\<exists>c'. put k v c = Inr c' \<and> ok c' \<and> view c' \<subseteq>\<^sub>m store(k \<mapsto> v) \<and> view c' k = Some v"
proof -
  obtain c' where c': "put k v c = Inr c'" "ok c'" "view c' \<subseteq>\<^sub>m (view c)(k \<mapsto> v)" "view c' k = Some v"
    using put_view [OF assms(1)] by blast
  have "(view c)(k \<mapsto> v) \<subseteq>\<^sub>m store(k \<mapsto> v)"
    using assms(2) by (auto simp: map_le_def)
  with c' show ?thesis using map_le_trans by blast
qed

lemma refill_coherent:
  assumes "ok c" and "view c \<subseteq>\<^sub>m store" and "store k = Some v"
  shows "\<exists>c'. put k v c = Inr c' \<and> ok c' \<and> view c' \<subseteq>\<^sub>m store \<and> view c' k = Some v"
  using put_coherent [OF assms(1,2), of k v] assms(3) by (simp add: fun_upd_idem)

lemma get_coherent:
  assumes "ok c" and "view c \<subseteq>\<^sub>m store" and "get k c = Inr (Some v, c')"
  shows "store k = Some v"
proof -
  have "view c k = Some v" using assms(3) get_view [OF assms(1), of k] by auto
  with assms(2) show ?thesis by (auto simp: map_le_def dom_def)
qed

end

lemma map_of_without_key: "map_of (without_key k xs) = (map_of xs)(k := None)"
  by (induction xs) (auto simp: without_key_def)

lemma spec_get_map: "map_of (snd (spec_get k xs)) = map_of xs" "fst (spec_get k xs) = map_of xs k"
  by (auto simp: spec_get_def map_of_without_key fun_eq_iff split: option.splits)

lemma spec_put_map: "map_of (spec_put n vic k v xs) \<subseteq>\<^sub>m (map_of xs)(k \<mapsto> v)"
  by (auto simp: spec_put_def map_of_without_key map_le_def)

definition lru_usable :: "lru_cache \<Rightarrow> bool" where
  "lru_usable c \<longleftrightarrow> lru_ok c \<and> 0 < lc_capacity c"

interpretation lru: record_cache lru_get "lru_put policy" "\<lambda>c. map_of (lru_view c)" lru_usable for policy
proof
  fix c key assume "lru_usable c"
  then show "\<exists>c'. lru_get key c = Inr (map_of (lru_view c) key, c') \<and> lru_usable c' \<and>
      map_of (lru_view c') = map_of (lru_view c)"
    using lru_get_refines [of c key] by (auto simp: lru_usable_def spec_get_map)
next
  fix c key val assume "lru_usable c"
  then obtain c' where "lru_put policy key val c = Inr c'" "lru_usable c'"
    "lru_view c' = spec_put (lc_capacity c) (policy_victim policy) key val (lru_view c)"
    using lru_put_refines [of c policy key val] by (auto simp: lru_usable_def)
  moreover have "map_of (spec_put n vic key val xs) key = Some val" for n vic xs
    by (simp add: spec_put_def)
  ultimately show "\<exists>c'. lru_put policy key val c = Inr c' \<and> lru_usable c' \<and>
      map_of (lru_view c') \<subseteq>\<^sub>m (map_of (lru_view c))(key \<mapsto> val) \<and> map_of (lru_view c') key = Some val"
    using spec_put_map by metis
qed

text \<open>A cache with room: while the keys used fit its limit, nothing is forgotten.\<close>

locale sized_record_cache = record_cache get put view ok
  for get :: "'k \<Rightarrow> 'c \<Rightarrow> ('v option \<times> 'c) result"
    and put :: "'k \<Rightarrow> 'v \<Rightarrow> 'c \<Rightarrow> 'c result"
    and view :: "'c \<Rightarrow> 'k \<rightharpoonup> 'v"
    and ok :: "'c \<Rightarrow> bool" +
  fixes limit :: "'c \<Rightarrow> nat"
  assumes get_limit: "ok c \<Longrightarrow> get k c = Inr (r, c') \<Longrightarrow> limit c' = limit c"
    and put_limit: "ok c \<Longrightarrow> put k v c = Inr c' \<Longrightarrow> limit c' = limit c"
    and put_room: "ok c \<Longrightarrow> put k v c = Inr c' \<Longrightarrow> card (insert k (dom (view c))) \<le> limit c \<Longrightarrow>
      view c' = (view c)(k \<mapsto> v)"
begin

text \<open>A client whose keys come from a set that fits the limit sees a plain map.\<close>

lemma put_within:
  assumes "ok c" and "dom (view c) \<subseteq> K" and "finite K" and "card K \<le> limit c" and "k \<in> K"
  shows "\<exists>c'. put k v c = Inr c' \<and> ok c' \<and> view c' = (view c)(k \<mapsto> v) \<and> limit c' = limit c \<and> dom (view c') \<subseteq> K"
proof -
  obtain c' where c': "put k v c = Inr c'" "ok c'" using put_view [OF assms(1)] by blast
  have "card (insert k (dom (view c))) \<le> card K" using assms(2,3,5) by (intro card_mono) auto
  then have "view c' = (view c)(k \<mapsto> v)" using put_room [OF assms(1) c'(1)] assms(4) by simp
  with c' put_limit [OF assms(1) c'(1)] assms(2,5) show ?thesis by auto
qed

lemma get_within:
  assumes "ok c"
  shows "\<exists>c'. get k c = Inr (view c k, c') \<and> ok c' \<and> view c' = view c \<and> limit c' = limit c"
  using get_view [OF assms, of k] get_limit [OF assms] by blast

end

lemma spec_put_room:
  assumes "distinct (map fst xs)" and "card (insert k (dom (map_of xs))) \<le> cap"
  shows "map_of (spec_put cap vic k v xs) = (map_of xs)(k \<mapsto> v)"
proof (cases "k \<in> fst ` set xs")
  case True
  then show ?thesis by (simp add: spec_put_def map_of_without_key)
next
  case False
  have "card (fst ` set xs) = length xs" using assms(1) distinct_card by force
  moreover have "dom (map_of xs) = fst ` set xs" by (rule dom_map_of_conv_image_fst)
  ultimately have "length xs < cap" using assms(2) False by simp
  with False show ?thesis by (simp add: spec_put_def)
qed

interpretation sized_lru: sized_record_cache lru_get "lru_put policy" "\<lambda>c. map_of (lru_view c)" lru_usable
  lc_capacity for policy
proof
  fix c k r c' assume "lru_usable c" "lru_get k c = Inr (r, c')"
  then show "lc_capacity c' = lc_capacity c" using lru_get_refines [of c k] by (auto simp: lru_usable_def)
next
  fix c k v c' assume c: "lru_usable c" "lru_put policy k v c = Inr c'"
  then show "lc_capacity c' = lc_capacity c" using lru_put_refines [of c policy k v] by (auto simp: lru_usable_def)
  assume "card (insert k (dom (map_of (lru_view c)))) \<le> lc_capacity c"
  then show "map_of (lru_view c') = (map_of (lru_view c))(k \<mapsto> v)"
    using c lru_put_refines [of c policy k v] spec_put_room [OF distinct_lru_view]
    by (auto simp: lru_usable_def)
qed

section \<open>Runs of operations\<close>

datatype cache_op = CacheGet bytes | CachePut bytes bytes

fun lru_run :: "record_policy option \<Rightarrow> cache_op list \<Rightarrow> lru_cache \<Rightarrow> (bytes option list \<times> lru_cache) result" where
  "lru_run policy [] c = Inr ([], c)"
| "lru_run policy (CacheGet k # ops) c =
     bind_result (lru_get k c) (\<lambda>(r, c').
     bind_result (lru_run policy ops c') (\<lambda>(rs, c''). Inr (r # rs, c'')))"
| "lru_run policy (CachePut k v # ops) c =
     bind_result (lru_put policy k v c) (\<lambda>c'. lru_run policy ops c')"

fun spec_run :: "nat \<Rightarrow> (bytes list \<Rightarrow> bytes) \<Rightarrow> cache_op list \<Rightarrow> (bytes \<times> bytes) list \<Rightarrow>
    bytes option list \<times> (bytes \<times> bytes) list" where
  "spec_run cap vic [] xs = ([], xs)"
| "spec_run cap vic (CacheGet k # ops) xs =
     (let (r, xs') = spec_get k xs; (rs, ys) = spec_run cap vic ops xs' in (r # rs, ys))"
| "spec_run cap vic (CachePut k v # ops) xs = spec_run cap vic ops (spec_put cap vic k v xs)"

lemma lru_run_refines:
  assumes "lru_ok c" and "0 < lc_capacity c"
  shows "\<exists>c'. lru_run policy ops c =
      Inr (fst (spec_run (lc_capacity c) (policy_victim policy) ops (lru_view c)), c') \<and>
    lru_view c' = snd (spec_run (lc_capacity c) (policy_victim policy) ops (lru_view c)) \<and>
    length (lru_view c') \<le> lc_capacity c"
  using assms
proof (induction ops arbitrary: c)
  case Nil
  then show ?case using lru_okD(2) [of c] by (simp add: lru_view_def)
next
  case (Cons op ops)
  show ?case
  proof (cases op)
    case (CacheGet k)
    obtain c1 where "lru_get k c = Inr (fst (spec_get k (lru_view c)), c1)" "lru_ok c1"
      "lru_view c1 = snd (spec_get k (lru_view c))" "lc_capacity c1 = lc_capacity c"
      using lru_get_refines [OF Cons.prems(1)] by blast
    with Cons.IH [of c1] Cons.prems CacheGet show ?thesis
      by (auto simp: case_prod_unfold Let_def)
  next
    case (CachePut k v)
    obtain c1 where "lru_put policy k v c = Inr c1" "lru_ok c1"
      "lru_view c1 = spec_put (lc_capacity c) (policy_victim policy) k v (lru_view c)"
      "lc_capacity c1 = lc_capacity c"
      using lru_put_refines [OF Cons.prems] by blast
    with Cons.IH [of c1] Cons.prems CachePut show ?thesis by auto
  qed
qed

text \<open>
  C13: A record cache of positive capacity, whatever policy it is given, behaves on every sequence
  of gets and puts as an association list in order of use: every get returns what the list says,
  the cache never exceeds its capacity, and no iterator is used after its entry is gone.
\<close>

theorem lru_cache_refines_association_list:
  assumes "0 < n"
  shows "\<exists>c. lru_run policy ops (lru_new n) = Inr (fst (spec_run n (policy_victim policy) ops []), c) \<and>
    lru_view c = snd (spec_run n (policy_victim policy) ops []) \<and> length (lru_view c) \<le> n"
  using lru_run_refines [OF lru_ok_new, of n policy ops] assms
  by (simp add: lru_view_new) (simp add: lru_new_def)

theorem lru_cache_refines_association_list_witness:
  "\<exists>c. lru_run None [CachePut [1] [10], CachePut [2] [20], CacheGet [1], CachePut [3] [30], CacheGet [2]]
         (lru_new 2) = Inr ([Some [10], None], c) \<and>
     lru_view c = [([3], [30]), ([1], [10])]"
  using lru_cache_refines_association_list [of 2 None
      "[CachePut [1] [10], CachePut [2] [20], CacheGet [1], CachePut [3] [30], CacheGet [2]]"]
  by (auto simp: spec_put_def spec_get_def without_key_def policy_victim_def)

text \<open>
  Without a policy (or with the program's LRU policy) a full cache makes room for a new key by
  dropping its least recently used entry, and no other.
\<close>

theorem lru_put_evicts_least_recently_used:
  assumes "lru_ok c" and "length (lru_view c) = lc_capacity c" and "lru_view c \<noteq> []"
    and "key \<notin> fst ` set (lru_view c)" and "policy = None \<or> policy = Some lru_record_choose_victim"
  shows "\<exists>c'. lru_put policy key val c = Inr c' \<and> lru_ok c' \<and>
    lru_view c' = (key, val) # butlast (lru_view c)"
proof -
  let ?v = "lru_view c"
  have cap: "0 < lc_capacity c" using assms(2,3) by (cases "lru_view c") auto
  have split: "butlast ?v @ [last ?v] = ?v" using assms(3) by simp
  have "policy_victim policy (rev (map fst ?v)) = rev (map fst ?v) ! 0"
    using assms(5) by (auto simp: policy_victim_def lru_record_choose_victim_def)
  also have "\<dots> = fst (last ?v)"
    using assms(3) by (simp add: hd_conv_nth [symmetric] hd_rev last_map)
  finally have vic: "policy_victim policy (rev (map fst ?v)) = fst (last ?v)" .
  have "distinct (map fst (butlast ?v @ [last ?v]))"
    using distinct_lru_view [OF assms(1)] split by simp
  then have "\<forall>p \<in> set (butlast ?v). fst p \<noteq> fst (last ?v)" by (auto simp: image_iff)
  then have "without_key (fst (last ?v)) (butlast ?v @ [last ?v]) = butlast ?v"
    by (simp add: without_key_def)
  then have "without_key (fst (last ?v)) ?v = butlast ?v" by (simp only: split)
  then show ?thesis
    using lru_put_refines [OF assms(1) cap, of policy key val] assms(2,4) vic
    by (auto simp: spec_put_def)
qed

theorem lru_put_evicts_least_recently_used_witness:
  "\<exists>c c'. lru_put None [1] [10] (lru_new 1) = Inr c \<and> lru_put None [2] [20] c = Inr c' \<and>
     lru_view c' = [([2], [20])]"
proof -
  obtain c where c: "lru_put None [1] [10] (lru_new 1) = Inr c" "lru_ok c"
    "lru_view c = [([1], [10])]" "lc_capacity c = 1"
    using lru_put_refines [OF lru_ok_new [of 1], of None "[1]" "[10]"]
    by (auto simp: lru_new_def lru_view_def dl_empty_def spec_put_def)
  then show ?thesis
    using lru_put_evicts_least_recently_used [of c "[2]" None "[20]"] by auto
qed

text \<open>
  A record cache of capacity 0 (the constructor accepts it) reads outside a vector on its first
  put: there is no entry to evict, and the victim index 0 is not an index of the empty vector.
\<close>

theorem lru_put_capacity_0_undefined:
  "lru_put policy key val (lru_new 0) = Inl Undefined"
  by (rule lru_put_capacity_0 [OF lru_ok_new]) (simp add: lru_new_def)

section \<open>The record cache of the database\<close>

text \<open>
  Without a policy a put moves its key to the front and drops what exceeds the capacity: after any number of puts the
  cache holds the keys put last, each with the value it was put with last.
\<close>

definition lru_touch :: "nat \<Rightarrow> 'k \<Rightarrow> 'v \<Rightarrow> ('k \<times> 'v) list \<Rightarrow> ('k \<times> 'v) list" where
  "lru_touch n k v xs = take n ((k, v) # without_key k xs)"

definition most_recent :: "nat \<Rightarrow> 'k list \<Rightarrow> 'k list" where
  "most_recent n ks = take n (rev (remdups ks))"

lemma set_most_recent_all: "card (set ks) \<le> n \<Longrightarrow> set (most_recent n ks) = set ks"
  by (simp add: most_recent_def length_remdups_card_conv)

lemma without_absent: "k \<notin> fst ` set xs \<Longrightarrow> without_key k xs = xs"
  by (auto simp: without_key_def filter_id_conv)

lemma keys_without: "map fst (without_key k xs) = filter (\<lambda>j. j \<noteq> k) (map fst xs)"
  by (simp add: without_key_def filter_map comp_def)

lemma without_length: "k \<in> fst ` set xs \<Longrightarrow> length (without_key k xs) < length xs"
  unfolding without_key_def by (auto intro: length_filter_less)

lemma take_without:
  assumes "distinct (map fst xs)"
  shows "take m (without_key k (take (Suc m) xs)) = take m (without_key k xs)"
  using assms
proof (induction xs arbitrary: m)
  case (Cons x xs)
  show ?case
  proof (cases "fst x = k")
    case True
    then have "k \<notin> fst ` set xs" using Cons.prems by auto
    moreover then have "k \<notin> fst ` set (take m xs)" by (meson image_mono set_take_subset subsetD)
    ultimately have "without_key k xs = xs" "without_key k (take m xs) = take m xs" by (simp_all add: without_absent)
    with True show ?thesis by (simp add: without_key_def)
  next
    case False
    with Cons show ?thesis by (cases m) (simp_all add: without_key_def)
  qed
qed (simp add: without_key_def)

lemma lru_touch_take: "distinct (map fst xs) \<Longrightarrow> lru_touch n k v (take n xs) = lru_touch n k v xs"
  by (cases n) (simp_all add: lru_touch_def take_without)

lemma lru_touch_run:
  "fold (\<lambda>(k, v). lru_touch n k v) kvs [] = take n (fold (\<lambda>(k, v) xs. (k, v) # without_key k xs) kvs []) \<and>
    map fst (fold (\<lambda>(k, v) xs. (k, v) # without_key k xs) kvs []) = rev (remdups (map fst kvs)) \<and>
    map_of (fold (\<lambda>(k, v) xs. (k, v) # without_key k xs) kvs []) = map_of (rev kvs)"
proof (induction kvs rule: rev_induct)
  case (snoc x kvs)
  obtain k v where x: "x = (k, v)" by fastforce
  let ?r = "fold (\<lambda>(k, v) xs. (k, v) # without_key k xs) kvs []"
  have d: "distinct (map fst ?r)" using snoc by simp
  have "remdups (map fst kvs @ [k]) = filter (\<lambda>j. j \<noteq> k) (remdups (map fst kvs)) @ [k]"
    by (induction kvs) auto
  then have "map fst ((k, v) # without_key k ?r) = rev (remdups (map fst (kvs @ [x])))"
    using snoc by (simp add: keys_without x rev_filter)
  moreover have "lru_touch n k v (take n ?r) = take n ((k, v) # without_key k ?r)"
    using lru_touch_take [OF d, of n k v] unfolding lru_touch_def .
  ultimately show ?case using snoc by (simp add: x map_of_without_key)
qed simp

lemma map_of_take:
  assumes "distinct (map fst xs)"
  shows "map_of (take n xs) = map_of xs |` set (take n (map fst xs))"
  using assms
proof (induction xs arbitrary: n)
  case (Cons x xs)
  show ?case
  proof (cases n)
    case (Suc m)
    have "fst x \<notin> set (take m (map fst xs))" using Cons.prems by (auto dest: in_set_takeD)
    then show ?thesis using Cons Suc by (auto simp: fun_eq_iff restrict_map_def)
  qed simp
qed simp

lemma lru_touch_all:
  "map_of (fold (\<lambda>(k, v). lru_touch n k v) kvs []) = map_of (rev kvs) |` set (most_recent n (map fst kvs))"
proof -
  note run = lru_touch_run [of n kvs]
  have "distinct (map fst (fold (\<lambda>(k, v) xs. (k, v) # without_key k xs) kvs []))" using run by simp
  from map_of_take [OF this, of n] run show ?thesis by (simp add: most_recent_def)
qed

lemma lru_put_view:
  assumes "lru_usable c" and "lru_put None k v c = Inr c'"
  shows "lru_view c' = lru_touch (lc_capacity c) k v (lru_view c)"
proof -
  let ?v = "lru_view c"
  have ok: "lru_ok c" and cap: "0 < lc_capacity c" using assms(1) by (simp_all add: lru_usable_def)
  have len: "length ?v \<le> lc_capacity c" using lru_okD(2) [OF ok] by (simp add: lru_view_def)
  have view: "lru_view c' = spec_put (lc_capacity c) (policy_victim None) k v ?v"
    using lru_put_refines [OF ok cap, of None k v] assms(2) by auto
  consider (old) "k \<in> fst ` set ?v" | (full) "k \<notin> fst ` set ?v" "length ?v = lc_capacity c"
    | (room) "k \<notin> fst ` set ?v" "length ?v < lc_capacity c" using len by linarith
  then show ?thesis
  proof cases
    case old
    with without_length [OF old] len view show ?thesis by (simp add: spec_put_def lru_touch_def)
  next
    case full
    then have "?v \<noteq> []" using cap by auto
    from lru_put_evicts_least_recently_used [OF ok full(2) this full(1), of None v] assms(2) full cap len
    show ?thesis by (cases "lc_capacity c") (auto simp: lru_touch_def without_absent butlast_conv_take)
  next
    case room
    with view show ?thesis by (simp add: spec_put_def lru_touch_def without_absent)
  qed
qed

text \<open>The keys used since \<open>k\<close> was last used stand in front of it.\<close>

definition used_since :: "'k \<Rightarrow> 'k set \<Rightarrow> ('k \<times> 'v) list \<Rightarrow> bool" where
  "used_since k S xs \<longleftrightarrow> (k \<in> fst ` set xs \<longrightarrow> S \<subseteq> set (takeWhile (\<lambda>j. j \<noteq> k) (map fst xs)))"

lemma takeWhile_without: "takeWhile (\<lambda>i. i \<noteq> k) (filter (\<lambda>i. i \<noteq> j) ks) = filter (\<lambda>i. i \<noteq> j) (takeWhile (\<lambda>i. i \<noteq> k) ks)"
  if "j \<noteq> k"
  using that by (induction ks) auto

lemma takeWhile_take: "k \<in> set (take n ks) \<Longrightarrow> takeWhile (\<lambda>i. i \<noteq> k) (take n ks) = takeWhile (\<lambda>i. i \<noteq> k) ks"
proof (induction ks arbitrary: n)
  case (Cons x ks)
  then show ?case by (cases n) auto
qed simp

lemma used_since_touch:
  assumes "used_since k S xs" and "j \<noteq> k"
  shows "used_since k (insert j S) (lru_touch n j v xs)"
proof -
  let ?ks = "j # filter (\<lambda>i. i \<noteq> j) (map fst xs)"
  have keys: "map fst (lru_touch n j v xs) = take n ?ks" by (simp add: lru_touch_def take_map [symmetric] keys_without)
  show ?thesis unfolding used_since_def
  proof
    assume "k \<in> fst ` set (lru_touch n j v xs)"
    then have k: "k \<in> set (take n ?ks)" by (simp add: keys [symmetric])
    then have "k \<in> set ?ks" by (rule in_set_takeD)
    with assms(2) have "k \<in> fst ` set xs" by auto
    with assms(1) have "S \<subseteq> set (takeWhile (\<lambda>i. i \<noteq> k) (map fst xs))" by (simp add: used_since_def)
    then show "insert j S \<subseteq> set (takeWhile (\<lambda>i. i \<noteq> k) (map fst (lru_touch n j v xs)))"
      unfolding keys takeWhile_take [OF k] using assms(2) by (auto simp: takeWhile_without)
  qed
qed

lemma used_since_full:
  assumes "used_since k S xs" and "length xs \<le> n" and "n \<le> card S"
  shows "map_of xs k = None"
proof (rule ccontr)
  assume "map_of xs k \<noteq> None"
  then have k: "k \<in> set (map fst xs)" by (auto simp: map_of_eq_None_iff)
  then have "S \<subseteq> set (takeWhile (\<lambda>j. j \<noteq> k) (map fst xs))" using assms(1) by (simp add: used_since_def)
  then have "card S \<le> length (takeWhile (\<lambda>j. j \<noteq> k) (map fst xs))"
    by (meson card_length card_mono finite_set le_trans)
  moreover have "dropWhile (\<lambda>j. j \<noteq> k) (map fst xs) \<noteq> []" using k by (auto simp: dropWhile_eq_Nil_conv)
  moreover have "length (takeWhile (\<lambda>j. j \<noteq> k) (map fst xs)) + length (dropWhile (\<lambda>j. j \<noteq> k) (map fst xs)) = length xs"
    by (metis length_append length_map takeWhile_dropWhile_id)
  ultimately show False using assms(2,3) by (cases "dropWhile (\<lambda>j. j \<noteq> k) (map fst xs)") simp_all
qed

lemma used_since_mono: "used_since k S xs \<Longrightarrow> T \<subseteq> S \<Longrightarrow> used_since k T xs"
  by (auto simp: used_since_def)

lemma used_since_get:
  assumes "used_since k S xs" and "j \<noteq> k"
  shows "used_since k S (snd (spec_get j xs))"
proof (cases "map_of xs j")
  case (Some v)
  have "(j, v) # without_key j xs = lru_touch (Suc (length xs)) j v xs"
    by (simp add: lru_touch_def without_key_def)
  with used_since_touch [OF assms, of "Suc (length xs)" v] Some show ?thesis
    by (auto simp: spec_get_def intro: used_since_mono)
qed (use assms(1) in \<open>simp add: spec_get_def\<close>)

end
