(* ===== verification/Wal_Manager.thy ===== *)
theory Wal_Manager
  imports Prelude
begin

unbundle bit_operations_syntax

text \<open>
  \<open>src/src/wal/wal_manager.{h,cpp}\<close>: the write-ahead log. The log file is its bytes; appending a
  record writes checksum, LSN, the two lengths, key and value; replaying parses the bytes again and
  hands each intact record to a visitor, up to the first record that is torn or corrupt.
\<close>

section \<open>Records and the checksum\<close>

record wal_record =
  wr_lsn :: u64
  wr_key :: bytes
  wr_value :: bytes

text \<open>\<open>checksum ^= v & 0xFFFFFFFF; checksum ^= v >> 32\<close> on a \<open>uint32_t\<close>.\<close>

definition checksum_mix :: "u64 \<Rightarrow> u32 \<Rightarrow> u32" where
  "checksum_mix v c = (c XOR ucast (v AND 0xFFFFFFFF)) XOR ucast (drop_bit 32 v)"

primrec checksum_add :: "bytes \<Rightarrow> u32 \<Rightarrow> u32" where
  "checksum_add [] c = c"
| "checksum_add (b # bs) c = checksum_add bs (c + ucast b)"

definition calculate_checksum :: "u64 \<Rightarrow> bytes \<Rightarrow> bytes \<Rightarrow> u32" where
  "calculate_checksum lsn key val = checksum_add val (checksum_add key (checksum_mix lsn 0))"

section \<open>The log manager\<close>

text \<open>
  \<open>wal_file\<close> is the file at \<open>path_\<close> (\<open>None\<close>: there is none); \<open>wal_is_open\<close> says whether
  \<open>log_file_\<close> is open. No stream operation reports a failure to its caller: writing to a stream
  that did not open has no effect. Whether the operating system opens the file is an argument.
\<close>

record wal_manager =
  wal_file :: "bytes option"
  wal_is_open :: bool
  wal_current_lsn :: u64

text \<open>\<open>log_file_.open(path_, binary | app)\<close>, which creates a missing file.\<close>

definition log_open :: "bool \<Rightarrow> wal_manager \<Rightarrow> wal_manager" where
  "log_open ok w =
     (if ok then w\<lparr>wal_is_open := True,
                   wal_file := Some (case wal_file w of None \<Rightarrow> [] | Some f \<Rightarrow> f)\<rparr>
      else w\<lparr>wal_is_open := False\<rparr>)"

definition wal_new :: "bytes option \<Rightarrow> bool \<Rightarrow> wal_manager" where
  "wal_new file ok = log_open ok \<lparr>wal_file = file, wal_is_open = False, wal_current_lsn = 0\<rparr>"

definition log_write :: "bytes \<Rightarrow> wal_manager \<Rightarrow> wal_manager" where
  "log_write bs w =
     (if wal_is_open w
      then w\<lparr>wal_file := Some ((case wal_file w of None \<Rightarrow> [] | Some f \<Rightarrow> f) @ bs)\<rparr> else w)"

text \<open>The bytes one \<open>append\<close> writes: the lengths are truncated to 16 bits, the checksum is not.\<close>

definition wal_encode :: "u64 \<Rightarrow> bytes \<Rightarrow> bytes \<Rightarrow> bytes" where
  "wal_encode lsn key val =
     (let k_len = (word_of_nat (length key) :: u16);
          v_len = (word_of_nat (length val) :: u16)
      in put_u32 (calculate_checksum lsn key val) @ put_u64 lsn @ put_u16 k_len @ put_u16 v_len @
         take (unat k_len) key @ take (unat v_len) val)"

definition wal_append :: "bytes \<Rightarrow> bytes \<Rightarrow> wal_manager \<Rightarrow> u64 \<times> wal_manager" where
  "wal_append key val w =
     (let lsn = wal_current_lsn w + 1
      in (lsn, log_write (wal_encode lsn key val) (w\<lparr>wal_current_lsn := lsn\<rparr>)))"

text \<open>
  One iteration of the replay loop on the unread bytes: the four header reads (a short one sets
  \<open>eofbit\<close>), the key and value (a short read sets \<open>failbit\<close>), the checksum.
\<close>

datatype wal_parse = WalTorn | WalCorrupt u64 | WalRecord wal_record bytes

definition wal_next :: "bytes \<Rightarrow> wal_parse" where
  "wal_next bs =
     (if length bs < 16 then WalTorn
      else let stored = get_u32 (mread bs 0 4);
               lsn = get_u64 (mread bs 4 8);
               k_len = unat (get_u16 (mread bs 12 2));
               v_len = unat (get_u16 (mread bs 14 2))
           in if length bs < 16 + k_len + v_len then WalTorn
              else let key = mread bs 16 k_len; val = mread bs (16 + k_len) v_len
                   in if calculate_checksum lsn key val \<noteq> stored then WalCorrupt lsn
                      else WalRecord \<lparr>wr_lsn = lsn, wr_key = key, wr_value = val\<rparr>
                             (drop (16 + k_len + v_len) bs))"

text \<open>
  The visitor is any function on a state, which may throw; its exception leaves \<open>replay\<close> at once.
\<close>

type_synonym 's visitor = "wal_record \<Rightarrow> 's \<Rightarrow> error option \<times> 's"

record 's replay_state =
  rs_error :: "error option"
  rs_lsn :: u64
  rs_count :: nat
  rs_user :: 's

definition replay_step :: "'s visitor \<Rightarrow> wal_record \<Rightarrow> 's replay_state \<Rightarrow> 's replay_state" where
  "replay_step visit r st =
     (case visit r (rs_user st) of
        (Some e, u) \<Rightarrow> st\<lparr>rs_error := Some e, rs_user := u\<rparr>
      | (None, u) \<Rightarrow> st\<lparr>rs_user := u,
                          rs_lsn := (if wr_lsn r > rs_lsn st then wr_lsn r else rs_lsn st),
                          rs_count := rs_count st + 1\<rparr>)"

lemma wal_next_shorter: "wal_next bs = WalRecord r rest \<Longrightarrow> length rest < length bs"
  by (auto simp: wal_next_def Let_def split: if_splits)

function (sequential) replay_loop :: "'s visitor \<Rightarrow> bytes \<Rightarrow> 's replay_state \<Rightarrow> 's replay_state" where
  "replay_loop visit bs st =
     (if rs_error st \<noteq> None \<or> bs = [] then st
      else case wal_next bs of
             WalRecord r rest \<Rightarrow> replay_loop visit rest (replay_step visit r st)
           | _ \<Rightarrow> st)"
  by pat_completeness auto
termination
  by (relation "measure (\<lambda>(visit, bs, st). length bs)") (auto dest: wal_next_shorter)

declare replay_loop.simps [simp del]

text \<open>
  \<open>WalManager::replay\<close>: the log is closed, read from its start, and opened again for appending
  (\<open>ok\<close>), unless an exception of the visitor passed through.
\<close>

definition wal_replay ::
  "'s visitor \<Rightarrow> 's \<Rightarrow> bool \<Rightarrow> wal_manager \<Rightarrow> 's replay_state \<times> wal_manager" where
  "wal_replay visit u ok w =
     (let st0 = \<lparr>rs_error = None, rs_lsn = wal_current_lsn w, rs_count = 0, rs_user = u\<rparr>;
          closed = w\<lparr>wal_is_open := False\<rparr>
      in case wal_file w of
           None \<Rightarrow> (st0, log_open ok closed)
         | Some f \<Rightarrow>
             let st = replay_loop visit f st0; w' = closed\<lparr>wal_current_lsn := rs_lsn st\<rparr>
             in (st, if rs_error st = None then log_open ok w' else w'))"

text \<open>The destructor: every \<open>append\<close> has flushed, so closing leaves the file as it is.\<close>

definition wal_close :: "wal_manager \<Rightarrow> wal_manager" where
  "wal_close w = (if wal_is_open w then w\<lparr>wal_is_open := False\<rparr> else w)"

text \<open>\<open>WalManager::truncate\<close>.\<close>

definition wal_truncate :: "bool \<Rightarrow> wal_manager \<Rightarrow> wal_manager" where
  "wal_truncate ok w =
     (if ok then w\<lparr>wal_is_open := True, wal_file := Some [], wal_current_lsn := 0\<rparr>
      else w\<lparr>wal_is_open := False, wal_current_lsn := 0\<rparr>)"

section \<open>The interface of a replayable log\<close>

text \<open>
  A log of framed entries: reading the bytes of an entry gives the entry back and leaves the rest,
  and the replay loop consumes one entry at a time until it halts or nothing more can be read.
\<close>

locale framed_log =
  fixes encode :: "'a \<Rightarrow> bytes"
    and next_entry :: "bytes \<Rightarrow> ('a \<times> bytes) option"
    and fits :: "'a \<Rightarrow> bool"
    and halted :: "'s \<Rightarrow> bool"
    and step :: "'a \<Rightarrow> 's \<Rightarrow> 's"
    and run :: "bytes \<Rightarrow> 's \<Rightarrow> 's"
  assumes next_encode: "fits a \<Longrightarrow> next_entry (encode a @ rest) = Some (a, rest)"
    and run_halted: "halted s \<Longrightarrow> run bs s = s"
    and run_stop: "next_entry bs = None \<Longrightarrow> run bs s = s"
    and run_step: "\<not> halted s \<Longrightarrow> next_entry bs = Some (a, rest) \<Longrightarrow> run bs s = run rest (step a s)"
begin

definition feed :: "'a \<Rightarrow> 's \<Rightarrow> 's" where
  "feed a s = (if halted s then s else step a s)"

lemma fold_feed_halted: "halted s \<Longrightarrow> fold feed xs s = s"
  by (induction xs) (auto simp: feed_def)

lemma run_entries:
  "\<forall>a \<in> set xs. fits a \<Longrightarrow> run (concat (map encode xs) @ rest) s = run rest (fold feed xs s)"
proof (induction xs arbitrary: s)
  case Nil
  then show ?case by simp
next
  case (Cons a xs)
  show ?case
  proof (cases "halted s")
    case True
    then show ?thesis
      using fold_feed_halted [OF True, of "a # xs"] by (simp add: run_halted fold_feed_halted)
  next
    case False
    with Cons show ?thesis
      by (simp add: run_step [OF False next_encode] feed_def)
  qed
qed

lemma run_entries_tail:
  "\<forall>a \<in> set xs. fits a \<Longrightarrow> next_entry tail = None \<Longrightarrow>
   run (concat (map encode xs) @ tail) s = fold feed xs s"
  by (simp add: run_entries run_stop)

end

section \<open>The log manager provides it\<close>

definition wal_encode_record :: "wal_record \<Rightarrow> bytes" where
  "wal_encode_record r = wal_encode (wr_lsn r) (wr_key r) (wr_value r)"

definition wal_entry :: "bytes \<Rightarrow> (wal_record \<times> bytes) option" where
  "wal_entry bs = (if bs = [] then None
     else case wal_next bs of WalRecord r rest \<Rightarrow> Some (r, rest) | _ \<Rightarrow> None)"

definition replay_failed :: "'s replay_state \<Rightarrow> bool" where
  "replay_failed st \<longleftrightarrow> rs_error st \<noteq> None"

definition wal_fits :: "wal_record \<Rightarrow> bool" where
  "wal_fits r \<longleftrightarrow> length (wr_key r) < 65536 \<and> length (wr_value r) < 65536"

lemma wal_encode_fits:
  "length key < 65536 \<Longrightarrow> length val < 65536 \<Longrightarrow>
   wal_encode lsn key val = put_u32 (calculate_checksum lsn key val) @ put_u64 lsn @
     put_u16 (word_of_nat (length key)) @ put_u16 (word_of_nat (length val)) @ key @ val"
  by (simp add: wal_encode_def Let_def)

text \<open>Reading the fields of a frame, whatever they hold.\<close>

lemma wal_frame_fields:
  fixes c :: u32 and l :: u64 and k v :: u16 and body :: bytes
  defines "f \<equiv> put_u32 c @ put_u64 l @ put_u16 k @ put_u16 v @ body"
  shows "mread f 0 4 = put_u32 c" "mread f 4 8 = put_u64 l" "mread f 12 2 = put_u16 k"
    "mread f 14 2 = put_u16 v" "16 \<le> a \<Longrightarrow> mread f a n = mread body (a - 16) n"
    "length f = 16 + length body" "drop (16 + m) f = drop m body"
  by (simp_all add: f_def mem_simps)

lemma wal_next_frame:
  "wal_next (put_u32 c @ put_u64 l @ put_u16 k @ put_u16 v @ body) =
     (if length body < unat k + unat v then WalTorn
      else if calculate_checksum l (take (unat k) body) (take (unat v) (drop (unat k) body)) \<noteq> c
      then WalCorrupt l
      else WalRecord \<lparr>wr_lsn = l, wr_key = take (unat k) body,
                      wr_value = take (unat v) (drop (unat k) body)\<rparr> (drop (unat k + unat v) body))"
  unfolding wal_next_def Let_def wal_frame_fields
  by (simp add: wal_frame_fields mread_def)

lemma wal_next_encode:
  assumes "wal_fits r"
  shows "wal_next (wal_encode_record r @ rest) = WalRecord r rest"
  using assms by (simp add: wal_fits_def wal_encode_record_def wal_encode_fits wal_next_frame)

lemma replay_loop_stop: "wal_entry bs = None \<Longrightarrow> replay_loop visit bs st = st"
  by (auto simp: wal_entry_def replay_loop.simps [of visit bs st] split: if_splits wal_parse.splits)

lemma replay_loop_step:
  "rs_error st = None \<Longrightarrow> wal_entry bs = Some (r, rest) \<Longrightarrow>
   replay_loop visit bs st = replay_loop visit rest (replay_step visit r st)"
  by (auto simp: wal_entry_def replay_loop.simps [of visit bs st] split: if_splits wal_parse.splits)

lemma wal_encode_nonempty: "wal_encode l k v \<noteq> []"
proof
  assume "wal_encode l k v = []"
  then have "length (wal_encode l k v) = 0" by simp
  then show False by (simp add: wal_encode_def Let_def)
qed

interpretation wal: framed_log wal_encode_record wal_entry wal_fits replay_failed
  "replay_step visit" "replay_loop visit" for visit
proof unfold_locales
  fix r rest assume "wal_fits r"
  then have "wal_next (wal_encode_record r @ rest) = WalRecord r rest" by (rule wal_next_encode)
  then show "wal_entry (wal_encode_record r @ rest) = Some (r, rest)"
    by (simp add: wal_entry_def wal_encode_nonempty wal_encode_record_def)
next
  fix st :: "'a replay_state" and bs
  assume "replay_failed st"
  then show "replay_loop visit bs st = st"
    by (auto simp: replay_failed_def replay_loop.simps [of visit bs st])
next
  fix bs and st :: "'a replay_state"
  assume "wal_entry bs = None"
  then show "replay_loop visit bs st = st" by (rule replay_loop_stop)
next
  fix st :: "'a replay_state" and bs r rest
  assume "\<not> replay_failed st" and "wal_entry bs = Some (r, rest)"
  then show "replay_loop visit bs st = replay_loop visit rest (replay_step visit r st)"
    by (simp add: replay_failed_def replay_loop_step)
qed

section \<open>What was appended is what a replay delivers\<close>

primrec wal_append_all :: "(bytes \<times> bytes) list \<Rightarrow> wal_manager \<Rightarrow> wal_manager" where
  "wal_append_all [] w = w"
| "wal_append_all (kv # kvs) w = wal_append_all kvs (snd (wal_append (fst kv) (snd kv) w))"

primrec records_from :: "u64 \<Rightarrow> (bytes \<times> bytes) list \<Rightarrow> wal_record list" where
  "records_from l [] = []"
| "records_from l (kv # kvs) =
     \<lparr>wr_lsn = l + 1, wr_key = fst kv, wr_value = snd kv\<rparr> # records_from (l + 1) kvs"

definition collect_visitor :: "wal_record list visitor" where
  "collect_visitor r acc = (None, acc @ [r])"

lemma wal_append_all_open:
  "wal_is_open w \<Longrightarrow> wal_file w = Some f \<Longrightarrow>
   wal_append_all kvs w =
     w\<lparr>wal_file := Some (f @ concat (map wal_encode_record (records_from (wal_current_lsn w) kvs))),
       wal_current_lsn := wal_current_lsn w + of_nat (length kvs)\<rparr>"
  by (induction kvs arbitrary: w f)
     (auto simp: wal_append_def log_write_def wal_encode_record_def Let_def algebra_simps)

lemma length_records_from [simp]: "length (records_from l kvs) = length kvs"
  by (induction kvs arbitrary: l) auto

lemma records_from_fits:
  "\<forall>(k, v) \<in> set kvs. length k < 65536 \<and> length v < 65536 \<Longrightarrow>
   \<forall>r \<in> set (records_from l kvs). wal_fits r"
  by (induction kvs arbitrary: l) (auto simp: wal_fits_def)

lemma take_records_from: "take n (records_from l kvs) = records_from l (take n kvs)"
  by (induction kvs arbitrary: l n) (auto simp: take_Cons split: nat.splits)

lemma u64_succ_greater: "unat (l :: u64) + 1 < 18446744073709551616 \<Longrightarrow> l < l + 1"
  by (simp add: word_less_nat_alt unat_word_ariths)

lemma feed_collect_step:
  "l < wr_lsn r \<Longrightarrow>
   wal.feed collect_visitor r \<lparr>rs_error = None, rs_lsn = l, rs_count = c, rs_user = acc\<rparr> =
     \<lparr>rs_error = None, rs_lsn = wr_lsn r, rs_count = c + 1, rs_user = acc @ [r]\<rparr>"
  unfolding wal.feed_def replay_failed_def by (simp add: replay_step_def collect_visitor_def)

lemma feed_collect:
  "unat l + length kvs < 18446744073709551616 \<Longrightarrow>
   fold (wal.feed collect_visitor) (records_from l kvs)
     \<lparr>rs_error = None, rs_lsn = l, rs_count = c, rs_user = acc\<rparr> =
     \<lparr>rs_error = None, rs_lsn = l + of_nat (length kvs), rs_count = c + length kvs,
      rs_user = acc @ records_from l kvs\<rparr>"
proof (induction kvs arbitrary: l c acc)
  case Nil
  then show ?case by simp
next
  case (Cons kv kvs)
  have lt: "l < l + 1" using Cons.prems by (intro u64_succ_greater) simp
  have "unat (l + 1) = unat l + 1" using Cons.prems by (simp add: unat_word_ariths)
  then have IH: "fold (wal.feed collect_visitor) (records_from (l + 1) kvs)
      \<lparr>rs_error = None, rs_lsn = l + 1, rs_count = c + 1, rs_user = acc @ [r]\<rparr> =
    \<lparr>rs_error = None, rs_lsn = l + 1 + of_nat (length kvs), rs_count = c + 1 + length kvs,
     rs_user = (acc @ [r]) @ records_from (l + 1) kvs\<rparr>" for r
    using Cons.prems by (intro Cons.IH) simp
  show ?case
    using IH by (simp add: feed_collect_step lt del: add.commute)
qed

subsection \<open>A log cut at any byte\<close>

text \<open>How many whole frames the first \<open>m\<close> bytes of the log hold.\<close>

primrec whole_frames :: "nat \<Rightarrow> wal_record list \<Rightarrow> nat" where
  "whole_frames m [] = 0"
| "whole_frames m (r # rs) =
     (if length (wal_encode_record r) \<le> m
      then Suc (whole_frames (m - length (wal_encode_record r)) rs) else 0)"

lemma length_wal_encode:
  "wal_fits r \<Longrightarrow> length (wal_encode_record r) = 16 + length (wr_key r) + length (wr_value r)"
  by (simp add: wal_encode_record_def wal_fits_def wal_encode_fits)

lemma wal_next_torn:
  assumes "wal_fits r" and "m < length (wal_encode_record r)"
  shows "wal_next (take m (wal_encode_record r)) = WalTorn"
proof (cases "m < 16")
  case True
  then have "length (take m (wal_encode_record r)) < 16" by simp
  then show ?thesis unfolding wal_next_def by (rule if_P)
next
  case False
  let ?c = "calculate_checksum (wr_lsn r) (wr_key r) (wr_value r)"
  have "take m (wal_encode_record r) = put_u32 ?c @ put_u64 (wr_lsn r) @
      put_u16 (word_of_nat (length (wr_key r))) @ put_u16 (word_of_nat (length (wr_value r))) @
      take (m - 16) (wr_key r @ wr_value r)"
    using assms(1) False by (simp add: wal_encode_record_def wal_fits_def wal_encode_fits)
  moreover have "length (take (m - 16) (wr_key r @ wr_value r)) < length (wr_key r) + length (wr_value r)"
    using assms False by (simp add: length_wal_encode)
  ultimately show ?thesis
    using assms(1) by (simp add: wal_next_frame wal_fits_def min_less_iff_disj del: take_append)
qed

lemma take_frames:
  "\<forall>r \<in> set rs. wal_fits r \<Longrightarrow>
   \<exists>tail. take m (concat (map wal_encode_record rs)) =
     concat (map wal_encode_record (take (whole_frames m rs) rs)) @ tail \<and> wal_entry tail = None"
proof (induction rs arbitrary: m)
  case Nil
  then show ?case by (simp add: wal_entry_def)
next
  case (Cons r rs)
  show ?case
  proof (cases "length (wal_encode_record r) \<le> m")
    case True
    with Cons show ?thesis by simp
  next
    case False
    with Cons.prems have "wal_entry (take m (wal_encode_record r)) = None"
      using wal_next_torn [of r m] by (simp add: wal_entry_def)
    with False show ?thesis by simp
  qed
qed

lemma whole_frames_le: "whole_frames m rs \<le> length rs"
  by (induction rs arbitrary: m) auto

lemma wal_file_new_appends:
  "wal_file (wal_append_all kvs (wal_new None True)) =
     Some (concat (map wal_encode_record (records_from 0 kvs)))"
  by (simp add: wal_new_def log_open_def wal_append_all_open)

text \<open>
  C11: Crash recovery of the log. Append any key-value pairs (each shorter than 64 KiB) to a new
  log, cut the file at any byte \<open>m\<close>, and replay it: the visitor receives exactly the records
  whose frames are whole within those \<open>m\<close> bytes, in order, numbered 1, 2, ..., and the LSN
  counter resumes after the last of them.
\<close>

theorem wal_replay_recovers_whole_frames:
  assumes small: "\<forall>(k, v) \<in> set kvs. length k < 65536 \<and> length v < 65536"
    and few: "length kvs < 18446744073709551616"
  shows "let log = the (wal_file (wal_append_all kvs (wal_new None True)));
             n = whole_frames m (records_from 0 kvs)
         in fst (wal_replay collect_visitor [] ok (wal_new (Some (take m log)) True)) =
              \<lparr>rs_error = None, rs_lsn = of_nat n, rs_count = n,
               rs_user = records_from 0 (take n kvs)\<rparr>"
proof -
  let ?rs = "records_from 0 kvs"
  let ?n = "whole_frames m ?rs"
  have fits: "\<forall>r \<in> set ?rs. wal_fits r" by (rule records_from_fits [OF small])
  then obtain tail where
    cut: "take m (concat (map wal_encode_record ?rs)) =
      concat (map wal_encode_record (take ?n ?rs)) @ tail" and tail: "wal_entry tail = None"
    using take_frames by blast
  have n: "?n \<le> length kvs" using whole_frames_le [of m ?rs] by simp
  have "replay_loop collect_visitor (take m (concat (map wal_encode_record ?rs)))
      \<lparr>rs_error = None, rs_lsn = 0, rs_count = 0, rs_user = []\<rparr> =
    fold (wal.feed collect_visitor) (take ?n ?rs) \<lparr>rs_error = None, rs_lsn = 0, rs_count = 0, rs_user = []\<rparr>"
    unfolding cut by (rule wal.run_entries_tail) (use fits tail in \<open>auto dest: in_set_takeD\<close>)
  also have "\<dots> = \<lparr>rs_error = None, rs_lsn = of_nat ?n, rs_count = ?n, rs_user = records_from 0 (take ?n kvs)\<rparr>"
    using few n feed_collect [of 0 "take ?n kvs" 0 "[]"] by (simp add: take_records_from)
  finally show ?thesis
    unfolding Let_def wal_file_new_appends option.sel
    by (simp add: wal_replay_def wal_new_def log_open_def Let_def)
qed

theorem wal_replay_recovers_whole_frames_witness:
  "let kvs = [([1], [2, 3]), ([4], [5])];
       log = the (wal_file (wal_append_all kvs (wal_new None True)));
       n = whole_frames 25 (records_from 0 kvs)
   in n = 1 \<and> rs_user (fst (wal_replay collect_visitor [] True (wal_new (Some (take 25 log)) True)))
        = [\<lparr>wr_lsn = 1, wr_key = [1], wr_value = [2, 3]\<rparr>]"
proof -
  let ?kvs = "[([1], [2, 3]), ([4], [5])] :: (bytes \<times> bytes) list"
  have "whole_frames 25 (records_from 0 ?kvs) = 1"
    by (simp add: length_wal_encode wal_fits_def)
  then show ?thesis
    using wal_replay_recovers_whole_frames [of ?kvs 25 True] by (simp add: Let_def)
qed

section \<open>What the checksum detects\<close>

lemma checksum_add_sum: "checksum_add bs c = c + sum_list (map ucast bs)"
  by (induction bs arbitrary: c) (simp_all add: algebra_simps)

lemma calculate_checksum_sum:
  "calculate_checksum lsn key val = checksum_mix lsn 0 + sum_list (map ucast (key @ val))"
  by (simp add: calculate_checksum_def checksum_add_sum)

lemma ucast_u8_u32_inj: "(ucast (a :: u8) :: u32) = ucast b \<Longrightarrow> a = b"
  using unat_u8_lt [of a] unat_u8_lt [of b]
  by (simp add: word_unat_eq_iff unsigned_ucast_eq take_bit_nat_def)

lemma sum_list_update_changes:
  fixes bs :: bytes
  assumes "i < length bs" and "b \<noteq> bs ! i"
  shows "(sum_list (map ucast (bs[i := b])) :: u32) \<noteq> sum_list (map ucast bs)"
proof -
  have split: "bs = take i bs @ bs ! i # drop (Suc i) bs" using assms(1) by (rule id_take_nth_drop)
  have upd: "bs[i := b] = take i bs @ b # drop (Suc i) bs" using assms(1) by (rule upd_conv_take_nth_drop)
  have "sum_list (map ucast bs) =
      (sum_list (map ucast (take i bs)) + ucast (bs ! i) + sum_list (map ucast (drop (Suc i) bs)) :: u32)"
    by (subst split) (simp add: add.assoc)
  then show ?thesis
    using assms(2) ucast_u8_u32_inj [of b "bs ! i"] by (auto simp: upd)
qed

text \<open>The two 32-bit halves of the LSN are the two halves of its bytes.\<close>

lemma le_nat_append: "le_nat (xs @ ys) = le_nat xs + 256 ^ length xs * le_nat ys"
  by (induction xs) (auto simp: algebra_simps)

lemma checksum_mix_halves:
  assumes "length xs = 4" and "length ys = 4"
  shows "checksum_mix (get_u64 (xs @ ys)) c = (c XOR get_u32 xs) XOR get_u32 ys"
proof -
  let ?v = "get_u64 (xs @ ys)"
  have bx: "le_nat xs < 4294967296" and bys: "le_nat ys < 4294967296"
    using le_nat_bound [of xs] le_nat_bound [of ys] assms by simp_all
  have v: "unat ?v = le_nat xs + 4294967296 * le_nat ys"
    using bx bys assms by (simp add: get_u64_def le_nat_append unat_of_nat del: of_nat_add of_nat_mult)
  have mask: "(0xFFFFFFFF :: u64) = mask 32" by (simp add: mask_eq_exp_minus_1)
  have "(ucast (?v AND 0xFFFFFFFF) :: u32) = get_u32 xs"
    unfolding mask
    by (simp add: word_unat_eq_iff unsigned_ucast_eq take_bit_eq_mask [symmetric] unsigned_take_bit_eq
        take_bit_nat_def v get_u32_def unat_of_nat)
  moreover have "(ucast (drop_bit 32 ?v) :: u32) = get_u32 ys"
  proof -
    have "unat (drop_bit 32 ?v) = drop_bit 32 (unat ?v)"
      by (rule unat_drop_bit_eq)
    also have "\<dots> = le_nat ys" using bx by (simp add: v drop_bit_eq_div)
    finally show ?thesis
      by (simp add: word_unat_eq_iff unsigned_ucast_eq take_bit_nat_def get_u32_def unat_of_nat)
  qed
  ultimately show ?thesis by (simp add: checksum_mix_def)
qed

lemma get_u32_update:
  assumes "length bs = 4" and "i < 4" and "b \<noteq> bs ! i"
  shows "get_u32 (bs[i := b]) \<noteq> get_u32 bs"
proof
  assume "get_u32 (bs[i := b]) = get_u32 bs"
  then have "put_u32 (get_u32 (bs[i := b])) = put_u32 (get_u32 bs)" by simp
  then have "bs[i := b] = bs" using assms(1) by (simp add: put_get_u32)
  then show False using assms by (metis nth_list_update_eq)
qed

lemma xor_left_cancel_u32: "(c :: u32) XOR a = c XOR b \<Longrightarrow> a = b"
proof -
  assume "c XOR a = c XOR b"
  then have "c XOR (c XOR a) = c XOR (c XOR b)" by simp
  then show "a = b" by (simp add: xor.assoc [symmetric])
qed

lemma xor_right_cancel_u32: "(a :: u32) XOR c = b XOR c \<Longrightarrow> a = b"
  using xor_left_cancel_u32 [of c a b] by (simp add: xor.commute)

lemma checksum_mix_update:
  assumes len: "length bs = 8" and i: "i < 8" and b: "b \<noteq> bs ! i"
  shows "checksum_mix (get_u64 (bs[i := b])) c \<noteq> checksum_mix (get_u64 bs) c"
proof -
  let ?xs = "take 4 bs" and ?ys = "drop 4 bs"
  have bs: "checksum_mix (get_u64 bs) c = (c XOR get_u32 ?xs) XOR get_u32 ?ys"
    using checksum_mix_halves [of ?xs ?ys c] len by simp
  show ?thesis
  proof (cases "i < 4")
    case True
    have "bs[i := b] = ?xs[i := b] @ ?ys" using True len list_update_append [of ?xs ?ys i b] by simp
    then have "checksum_mix (get_u64 (bs[i := b])) c = (c XOR get_u32 (?xs[i := b])) XOR get_u32 ?ys"
      using len by (simp add: checksum_mix_halves)
    moreover have "get_u32 (?xs[i := b]) \<noteq> get_u32 ?xs"
      using len True b by (intro get_u32_update) simp_all
    ultimately show ?thesis using bs by (auto dest: xor_left_cancel_u32 xor_right_cancel_u32)
  next
    case False
    have "bs[i := b] = ?xs @ ?ys[i - 4 := b]"
      using False len list_update_append [of ?xs ?ys i b] by simp
    then have "checksum_mix (get_u64 (bs[i := b])) c = (c XOR get_u32 ?xs) XOR get_u32 (?ys[i - 4 := b])"
      using len by (simp add: checksum_mix_halves)
    moreover have "get_u32 (?ys[i - 4 := b]) \<noteq> get_u32 ?ys"
      using len False i b by (intro get_u32_update) simp_all
    ultimately show ?thesis using bs by (auto dest: xor_left_cancel_u32)
  qed
qed

lemma checksum_split_body:
  "length body = k + v \<Longrightarrow>
   calculate_checksum l (take k body) (take v (drop k body)) = checksum_mix l 0 + sum_list (map ucast body)"
proof -
  assume "length body = k + v"
  then have "take k body @ take v (drop k body) = body" by simp
  then show ?thesis by (simp only: calculate_checksum_sum)
qed

lemma wal_next_frame_corrupt:
  assumes "length body = unat k + unat v"
    and "c \<noteq> checksum_mix l 0 + sum_list (map ucast body)"
  shows "wal_next (put_u32 c @ put_u64 l @ put_u16 k @ put_u16 v @ body @ rest) = WalCorrupt l"
  using assms checksum_split_body [of body "unat k" "unat v" l]
  by (simp add: wal_next_frame [where body = "body @ rest"])

lemma wal_next_corrupt_byte:
  assumes fits: "wal_fits r" and i: "i < length (wal_encode_record r)"
    and pos: "i < 12 \<or> 16 \<le> i" and b: "b \<noteq> wal_encode_record r ! i"
  shows "\<exists>l. wal_next ((wal_encode_record r)[i := b] @ rest) = WalCorrupt l"
proof -
  let ?key = "wr_key r" and ?val = "wr_value r" and ?l = "wr_lsn r"
  let ?k = "word_of_nat (length ?key) :: u16" and ?v = "word_of_nat (length ?val) :: u16"
  let ?c = "calculate_checksum ?l ?key ?val"
  let ?lens = "put_u16 ?k @ put_u16 ?v"
  have enc: "wal_encode_record r = put_u32 ?c @ put_u64 ?l @ ?lens @ ?key @ ?val"
    using fits by (simp add: wal_encode_record_def wal_fits_def wal_encode_fits)
  have lens: "length (?key @ ?val) = unat ?k + unat ?v" using fits by (simp add: wal_fits_def)
  have c: "?c = checksum_mix ?l 0 + sum_list (map ucast (?key @ ?val))" by (rule calculate_checksum_sum)
  consider (checksum) "i < 4" | (lsn) "4 \<le> i" "i < 12" | (body) "16 \<le> i" using pos by linarith
  then show ?thesis
  proof cases
    case checksum
    let ?c' = "get_u32 ((put_u32 ?c)[i := b])"
    have "(wal_encode_record r)[i := b] = put_u32 ?c' @ put_u64 ?l @ ?lens @ ?key @ ?val"
      using checksum by (simp add: enc list_update_append put_get_u32)
    moreover have "?c' \<noteq> ?c"
      using get_u32_update [of "put_u32 ?c" i b] checksum b by (simp add: enc nth_append)
    ultimately show ?thesis using wal_next_frame_corrupt [OF lens] c by auto
  next
    case lsn
    let ?l' = "get_u64 ((put_u64 ?l)[i - 4 := b])"
    have j: "i - 4 < 8" using lsn by simp
    have "(wal_encode_record r)[i := b] = put_u32 ?c @ put_u64 ?l' @ ?lens @ ?key @ ?val"
      using lsn j by (simp add: enc list_update_append put_get_u64)
    moreover have "checksum_mix ?l' 0 \<noteq> checksum_mix ?l 0"
      using checksum_mix_update [of "put_u64 ?l" "i - 4" b 0] lsn b j by (simp add: enc nth_append)
    ultimately show ?thesis using wal_next_frame_corrupt [OF lens] c by auto
  next
    case body
    let ?body = "(?key @ ?val)[i - 16 := b]"
    let ?hd = "put_u32 ?c @ put_u64 ?l @ ?lens"
    have hd: "wal_encode_record r = ?hd @ (?key @ ?val)" "length ?hd = 16" by (simp_all add: enc)
    then have "(wal_encode_record r)[i := b] = ?hd @ ?body"
      using body list_update_append [of ?hd "?key @ ?val" i b] by (simp only: hd) auto
    moreover have "b \<noteq> (?key @ ?val) ! (i - 16)"
      using b body unfolding hd(1) by (simp only: nth_append hd(2)) auto
    then have "(sum_list (map ucast ?body) :: u32) \<noteq> sum_list (map ucast (?key @ ?val))"
      using body i hd by (intro sum_list_update_changes) auto
    ultimately show ?thesis using wal_next_frame_corrupt [of ?body ?k ?v ?c ?l rest] lens c by auto
  qed
qed

lemma wal_entry_corrupt: "wal_next bs = WalCorrupt l \<Longrightarrow> wal_entry bs = None"
  by (simp add: wal_entry_def)

lemma feed_collect_user:
  "rs_error st = None \<Longrightarrow>
   rs_error (fold (wal.feed collect_visitor) rs st) = None \<and>
   rs_user (fold (wal.feed collect_visitor) rs st) = rs_user st @ rs"
proof (induction rs arbitrary: st)
  case Nil
  then show ?case by simp
next
  case (Cons r rs)
  have "rs_error (wal.feed collect_visitor r st) = None \<and>
      rs_user (wal.feed collect_visitor r st) = rs_user st @ [r]"
    using Cons.prems unfolding wal.feed_def replay_failed_def
    by (simp add: replay_step_def collect_visitor_def)
  with Cons.IH [of "wal.feed collect_visitor r st"] show ?case by simp
qed

lemma replay_collect_stops:
  assumes "\<forall>r \<in> set rs. wal_fits r" and "wal_entry tail = None" and "rs_error st = None"
  shows "rs_user (replay_loop collect_visitor (concat (map wal_encode_record rs) @ tail) st) = rs_user st @ rs"
  using assms feed_collect_user [of st rs] by (simp add: wal.run_entries_tail)

text \<open>
  C36: One corrupted byte in the checksum, the LSN, the key or the value of a logged record (any
  byte of its frame but the four that hold the lengths) is detected: the replay delivers exactly
  the records before it, whatever follows in the log.
\<close>

theorem wal_replay_stops_at_corrupt_byte:
  assumes "\<forall>r' \<in> set rs. wal_fits r'" and "wal_fits r"
    and "i < length (wal_encode_record r)" and "i < 12 \<or> 16 \<le> i" and "b \<noteq> wal_encode_record r ! i"
  shows "rs_user (fst (wal_replay collect_visitor [] ok
      (wal_new (Some (concat (map wal_encode_record rs) @ (wal_encode_record r)[i := b] @ later)) True))) = rs"
proof -
  have "wal_entry ((wal_encode_record r)[i := b] @ later) = None"
    using wal_next_corrupt_byte [OF assms(2-5)] wal_entry_corrupt by blast
  from replay_collect_stops [OF assms(1) this, of "\<lparr>rs_error = None, rs_lsn = 0, rs_count = 0, rs_user = []\<rparr>"]
  show ?thesis by (simp add: wal_replay_def wal_new_def log_open_def Let_def)
qed

theorem wal_replay_stops_at_corrupt_byte_witness:
  "let r = \<lparr>wr_lsn = 2, wr_key = [7], wr_value = [8]\<rparr>;
       first = \<lparr>wr_lsn = 1, wr_key = [5], wr_value = [6]\<rparr>
   in rs_user (fst (wal_replay collect_visitor [] True
        (wal_new (Some (concat (map wal_encode_record [first]) @ (wal_encode_record r)[17 := 9] @
                        wal_encode_record r)) True))) = [first]"
proof -
  let ?r = "\<lparr>wr_lsn = 2, wr_key = [7], wr_value = [8]\<rparr>"
  let ?first = "\<lparr>wr_lsn = 1, wr_key = [5], wr_value = [6]\<rparr>"
  have "wal_encode_record ?r ! 17 = 8"
    by (simp add: wal_encode_record_def wal_encode_fits nth_append)
  then show ?thesis
    using wal_replay_stops_at_corrupt_byte [of "[?first]" ?r 17 9 True "wal_encode_record ?r"]
    by (simp add: wal_fits_def length_wal_encode)
qed

text \<open>What the cut of a length to 16 bits leaves of the bytes, and what it drops of key and value, as the checksum counts it.\<close>

definition cut16 :: "bytes \<Rightarrow> bytes" where
  "cut16 bs = take (length bs mod 65536) bs"

definition dropped_sum :: "bytes \<Rightarrow> bytes \<Rightarrow> u32" where
  "dropped_sum key val = sum_list (map ucast (drop (length key mod 65536) key @ drop (length val mod 65536) val))"

lemma checksum_cut: "calculate_checksum lsn key val = calculate_checksum lsn (cut16 key) (cut16 val) + dropped_sum key val"
proof -
  have cut: "sum_list (map ucast bs) = (sum_list (map ucast (cut16 bs)) + sum_list (map ucast (drop (length bs mod 65536) bs)) :: u32)"
    for bs :: bytes unfolding cut16_def by (metis append_take_drop_id map_append sum_list_append)
  show ?thesis
    using cut [of key] cut [of val] by (simp add: calculate_checksum_sum dropped_sum_def algebra_simps)
qed

lemma wal_encode_cut: "wal_encode lsn key val = put_u32 (calculate_checksum lsn key val) @ put_u64 lsn @
    put_u16 (word_of_nat (length key)) @ put_u16 (word_of_nat (length val)) @ cut16 key @ cut16 val"
  by (simp add: wal_encode_def Let_def unat_of_nat cut16_def)

lemma wal_encode_of_cut:
  assumes "dropped_sum key val = 0"
  shows "wal_encode lsn key val = wal_encode lsn (cut16 key) (cut16 val)"
proof -
  have len: "(word_of_nat (length (cut16 bs)) :: u16) = word_of_nat (length bs)" for bs
    by (simp add: word_unat_eq_iff unat_of_nat cut16_def min_absorb2)
  have "cut16 (cut16 bs) = cut16 bs" for bs by (simp add: cut16_def)
  then show ?thesis using assms checksum_cut [of lsn key val] by (simp add: wal_encode_cut len)
qed

lemma oversized_stops:
  assumes "dropped_sum key val \<noteq> 0"
  shows "wal_entry (wal_encode lsn key val @ later) = None"
proof -
  have "calculate_checksum lsn key val \<noteq> checksum_mix lsn 0 + sum_list (map ucast (cut16 key @ cut16 val))"
    using assms checksum_cut [of lsn key val] calculate_checksum_sum [of lsn "cut16 key" "cut16 val"] by simp
  moreover have "length (cut16 key @ cut16 val) = unat (word_of_nat (length key) :: u16) + unat (word_of_nat (length val) :: u16)"
    by (simp add: cut16_def unat_of_nat)
  ultimately have "wal_next (wal_encode lsn key val @ later) = WalCorrupt lsn"
    using wal_next_frame_corrupt [of "cut16 key @ cut16 val" "word_of_nat (length key)" "word_of_nat (length val)"]
    by (simp add: wal_encode_cut)
  then show ?thesis by (rule wal_entry_corrupt)
qed

text \<open>
  C37: The lengths are cut to 16 bits when a record is logged, the checksum is not. So when the bytes that this drops
  of a key or value of 64 KiB or more do not sum to 0 modulo \<open>2^32\<close>, the frame is corrupt: the replay stops in front
  of it, and it and every record appended after it are lost. When they do sum to 0 the frame passes for that of the
  record with key and value cut short, and the replay delivers this one in its place.
\<close>

theorem wal_oversized_record_cuts_the_log:
  assumes "\<forall>r \<in> set rs. wal_fits r"
  shows "rs_user (fst (wal_replay collect_visitor [] ok
      (wal_new (Some (concat (map wal_encode_record rs) @ wal_encode lsn key val @ later)) True))) =
    (if dropped_sum key val \<noteq> 0 then rs
     else rs_user (fst (wal_replay collect_visitor [] ok
       (wal_new (Some (concat (map wal_encode_record rs) @ wal_encode lsn (cut16 key) (cut16 val) @ later)) True))))"
proof (cases "dropped_sum key val = 0")
  case True
  then show ?thesis using wal_encode_of_cut by simp
next
  case False
  from replay_collect_stops [OF assms oversized_stops [OF this], of "\<lparr>rs_error = None, rs_lsn = 0, rs_count = 0, rs_user = []\<rparr>"]
  show ?thesis using False by (simp add: wal_replay_def wal_new_def log_open_def Let_def)
qed

theorem wal_oversized_record_cuts_the_log_witness:
  "rs_user (fst (wal_replay collect_visitor [] True
      (wal_new (Some (concat (map wal_encode_record []) @ wal_encode 1 [7] (replicate 65536 1) @
                      wal_encode 2 [8] [9])) True))) = [] \<and>
   rs_user (fst (wal_replay collect_visitor [] True
      (wal_new (Some (concat (map wal_encode_record []) @ wal_encode 1 [7] (replicate 65536 0) @
                      wal_encode 2 [8] [9])) True))) =
     [\<lparr>wr_lsn = 1, wr_key = [7], wr_value = []\<rparr>, \<lparr>wr_lsn = 2, wr_key = [8], wr_value = [9]\<rparr>]"
proof -
  have sums: "dropped_sum [7] (replicate 65536 1) = 65536" "dropped_sum [7] (replicate 65536 0) = 0"
    by (simp_all add: dropped_sum_def sum_list_replicate)
  have cut: "cut16 [7] = [7]" "cut16 (replicate 65536 0) = []" by (simp_all add: cut16_def)
  let ?rs = "[\<lparr>wr_lsn = 1, wr_key = [7], wr_value = []\<rparr>, \<lparr>wr_lsn = 2, wr_key = [8], wr_value = [9]\<rparr>]"
  have "wal_entry [] = None" by (simp add: wal_entry_def)
  then have "rs_user (fst (wal_replay collect_visitor [] True (wal_new (Some (concat (map wal_encode_record ?rs) @ [])) True))) = ?rs"
    using replay_collect_stops [of ?rs "[]" "\<lparr>rs_error = None, rs_lsn = 0, rs_count = 0, rs_user = []\<rparr>"]
    by (simp add: wal_fits_def wal_replay_def wal_new_def log_open_def Let_def)
  then show ?thesis
    using wal_oversized_record_cuts_the_log [of "[]" True 1 "[7]" "replicate 65536 1" "wal_encode 2 [8] [9]"]
      wal_oversized_record_cuts_the_log [of "[]" True 1 "[7]" "replicate 65536 0" "wal_encode 2 [8] [9]"]
    by (simp add: sums cut wal_encode_record_def)
qed

text \<open>
  A torn record at the end of the log is skipped by the replay but stays in the file, and the
  log is reopened for appending behind it. Records appended after such a recovery sit behind the
  torn one and are not delivered by the next replay: here a log whose only record lost its last
  byte is replayed, a record is appended (with LSN 1), and the next replay delivers nothing.
\<close>

theorem wal_append_after_torn_tail_is_lost:
  "let torn = take 17 (wal_encode 1 [1] [2]);
       recovered = snd (wal_replay collect_visitor [] True (wal_new (Some torn) True));
       (lsn, appended) = wal_append [3] [4] recovered
   in lsn = 1 \<and> wal_file appended = Some (torn @ wal_encode 1 [3] [4]) \<and>
      rs_user (fst (wal_replay collect_visitor [] True (wal_new (wal_file appended) True))) = []"
  by code_simp

end
