(* ===== verification/Database.thy ===== *)
theory Database
  imports Hash_Index Lru_Cache Wal_Manager
begin

text \<open>
  \<open>src/src/db/database.{h,cpp}\<close>: the database, which puts the write-ahead log, the storage writer, the
  index, the record cache and the storage engine together.
\<close>

section \<open>The class\<close>

text \<open>
  The engine's operating system holds the database file, which the storage writer appends to. The log's file
  is with the log manager. The record cache has no policy. Times and messages are left out.
\<close>

record database =
  db_engine :: engine
  db_writer :: storage_writer
  db_index :: hash_index
  db_cache :: lru_cache
  db_wal :: wal_manager

definition wal_path :: "string \<Rightarrow> string" where
  "wal_path path = path @ ''.wal''"

definition engine_path :: "engine \<Rightarrow> string" where
  "engine_path en = mf_path (pc_file (en_cache en))"

definition engine_file :: "engine \<Rightarrow> bytes" where
  "engine_file en = disk_bytes (en_cache en)"

definition set_file :: "bytes \<Rightarrow> engine \<Rightarrow> engine" where
  "set_file f en = en\<lparr>en_cache := (en_cache en)\<lparr>pc_os := os_write (engine_path en) f (pc_os (en_cache en))\<rparr>\<rparr>"

text \<open>A method of the writer, on the file that the engine maps.\<close>

definition on_writer :: "(storage_writer \<Rightarrow> 'a \<times> storage_writer) \<Rightarrow> database \<Rightarrow> 'a \<times> database" where
  "on_writer meth db =
     (let (r, w) = meth ((db_writer db)\<lparr>sw_file := engine_file (db_engine db)\<rparr>)
      in (r, db\<lparr>db_writer := w, db_engine := set_file (sw_file w) (db_engine db)\<rparr>))"

definition set_workload_hint :: "workload_hint \<Rightarrow> database \<Rightarrow> database" where
  "set_workload_hint h db = db\<lparr>db_engine := (db_engine db)\<lparr>en_hint := h\<rparr>\<rparr>"

text \<open>What \<open>put\<close> and the replay of the log do with a record.\<close>

definition store_record :: "bytes \<Rightarrow> bytes \<Rightarrow> database \<Rightarrow> unit result \<times> database" where
  "store_record key val db =
     (case on_writer (writer_append key val) db of
        (Inl e, db1) \<Rightarrow> (Inl e, db1)
      | (Inr rid, db1) \<Rightarrow>
          let db2 = db1\<lparr>db_index := index_insert key rid (db_index db1)\<rparr>
          in case lru_put None key val (db_cache db2) of
               Inl e \<Rightarrow> (Inl e, db2)
             | Inr c \<Rightarrow> (Inr (), db2\<lparr>db_cache := c\<rparr>))"

definition db_put :: "bytes \<Rightarrow> bytes \<Rightarrow> database \<Rightarrow> unit result \<times> database" where
  "db_put key val db =
     (let (_, wal) = wal_append key val (db_wal db) in store_record key val (db\<lparr>db_wal := wal\<rparr>))"

definition db_get :: "bytes \<Rightarrow> database \<Rightarrow> bytes option result \<times> database" where
  "db_get key db =
     (case lru_get key (db_cache db) of
        Inl e \<Rightarrow> (Inl e, db)
      | Inr (Some val, c) \<Rightarrow> (Inr (Some val), db\<lparr>db_cache := c\<rparr>)
      | Inr (None, c) \<Rightarrow>
          let db1 = db\<lparr>db_cache := c\<rparr>
          in case index_lookup key (db_index db1) of
               None \<Rightarrow> (Inr None, db1)
             | Some rid \<Rightarrow>
                 let (r, en) = read_record rid (db_engine db1); db2 = db1\<lparr>db_engine := en\<rparr>
                 in case r of
                      Inl e \<Rightarrow> (Inl e, db2)
                    | Inr None \<Rightarrow> (Inr None, db2)
                    | Inr (Some (k, val)) \<Rightarrow>
                        if k = key then
                          (case lru_put None key val (db_cache db2) of
                             Inl e \<Rightarrow> (Inl e, db2)
                           | Inr c' \<Rightarrow> (Inr (Some val), db2\<lparr>db_cache := c'\<rparr>))
                        else (Inr None, db2))"

text \<open>An exception of the callback or of a fetch skips the second change of the hint.\<close>

definition db_scan ::
  "(record_id \<Rightarrow> bytes \<Rightarrow> bytes \<Rightarrow> 'c \<Rightarrow> unit result \<times> 'c) \<Rightarrow> 'c \<Rightarrow> database \<Rightarrow>
   (unit result \<times> 'c) \<times> database" where
  "db_scan cb c db =
     (let db1 = set_workload_hint Scan db;
          ((r, c'), en) = reader_scan cb c (db_engine db1);
          db2 = db1\<lparr>db_engine := en\<rparr>
      in case r of Inl e \<Rightarrow> ((Inl e, c'), db2)
         | Inr _ \<Rightarrow> ((Inr (), c'), set_workload_hint PointLookup db2))"

definition db_get_cache_hits :: "database \<Rightarrow> nat" where
  "db_get_cache_hits db = lru_get_hits (db_cache db)"

definition db_get_cache_misses :: "database \<Rightarrow> nat" where
  "db_get_cache_misses db = lru_get_misses (db_cache db)"

definition get_record_count :: "database \<Rightarrow> nat" where
  "get_record_count db = index_size (db_index db)"

definition db_recover :: "database \<Rightarrow> unit result \<times> database" where
  "db_recover db =
     (if get_total_pages (db_engine db) > 0 then
        let db1 = set_workload_hint Scan db;
            ((r, m), en) = index_rebuild (db_engine db1);
            db2 = db1\<lparr>db_index := m, db_engine := en\<rparr>
        in case r of Inl e \<Rightarrow> (Inl e, db2) | Inr _ \<Rightarrow> (Inr (), set_workload_hint PointLookup db2)
      else (Inr (), db))"

section \<open>Opening and closing\<close>

text \<open>The files as they are; what a crash leaves of them; what the destructor leaves of them.\<close>

definition db_files :: "database \<Rightarrow> os" where
  "db_files db =
     (case wal_file (db_wal db) of
        None \<Rightarrow> pc_os (en_cache (db_engine db))
      | Some f \<Rightarrow> os_write (wal_path (engine_path (db_engine db))) f (pc_os (en_cache (db_engine db))))"

definition db_crash :: "database \<Rightarrow> os" where
  "db_crash db = mf_destroy (pc_file (en_cache (db_engine db))) (db_files db)"

definition db_close :: "database \<Rightarrow> os" where
  "db_close db = db_crash (snd (on_writer (\<lambda>w. ((), writer_flush w)) db))"

text \<open>What the surroundings decide when a database is opened: results of system calls and the schedule.\<close>

record environment =
  env_fd :: int
  env_stat :: bool
  env_mmap :: bool
  env_writer :: bool
  env_wal :: bool
  env_wal_reopen :: bool
  env_obs :: observers
  env_observer :: observer_ptr
  env_schedule :: "nat list list"

definition replay_visitor :: "database visitor" where
  "replay_visitor rec db =
     (case store_record (wr_key rec) (wr_value rec) db of
        (Inl e, db') \<Rightarrow> (Some e, db')
      | (Inr _, db') \<Rightarrow> (None, db'))"

text \<open>The constructor; an exception in it destroys the members that were constructed.\<close>

definition db_open ::
  "environment \<Rightarrow> string \<Rightarrow> nat \<Rightarrow> nat \<Rightarrow> os \<Rightarrow> database result \<times> os" where
  "db_open env path cache_size_pages record_cache_size sys =
     (case engine_new path (env_fd env) (env_stat env) (env_mmap env) sys (env_obs env) cache_size_pages
             (env_observer env) (env_schedule env) of
        (Inl e, sys1) \<Rightarrow> (Inl e, sys1)
      | (Inr en, sys1) \<Rightarrow>
          (case writer_open (os_files sys1 path) (env_writer env) of
             Inl e \<Rightarrow> (Inl e, mf_destroy (pc_file (en_cache en)) sys1)
           | Inr w \<Rightarrow>
               let wal = wal_new (os_files sys1 (wal_path path)) (env_wal env);
                   db0 = \<lparr>db_engine = set_file (sw_file w) en, db_writer = w, db_index = Map.empty,
                          db_cache = lru_new record_cache_size, db_wal = wal\<rparr>;
                   (st, wal1) = wal_replay replay_visitor db0 (env_wal_reopen env) wal;
                   db1 = (rs_user st)\<lparr>db_wal := wal1\<rparr>
               in case rs_error st of
                    Some e \<Rightarrow> (Inl e, db_close db1)
                  | None \<Rightarrow>
                      (case db_recover db1 of
                         (Inl e, db2) \<Rightarrow> (Inl e, db_close db2)
                       | (Inr _, db2) \<Rightarrow> (Inr db2, db_files db2))))"

section \<open>Appending to the file behind the mapping\<close>

lemma try_insert_file: "try_insert_in_page key val w = Inr (Some (s, w')) \<Longrightarrow> sw_file w' = sw_file w"
  by (auto simp: try_insert_in_page_def Let_def bind_result_def split: if_splits sum.splits)

lemma writer_append_file: "\<exists>x. sw_file (snd (writer_append key val w)) = sw_file w @ x"
  by (auto simp: writer_append_def Let_def write_page_to_disk_def reset_current_page_def try_insert_file
      split: sum.split option.split prod.split dest!: try_insert_file)

lemma writer_flush_file: "\<exists>x. sw_file (writer_flush w) = sw_file w @ x"
  by (simp add: writer_flush_def write_page_to_disk_def Let_def)

lemma engine_file_set [simp]: "engine_file (set_file f en) = f" "engine_path (set_file f en) = engine_path en"
  by (simp_all add: engine_file_def set_file_def engine_path_def disk_bytes_def)

lemma set_file_fields [simp]:
  "get_total_pages (set_file f en) = get_total_pages en" "engine_roomy (set_file f en) = engine_roomy en"
  "pc_file (en_cache (set_file f en)) = pc_file (en_cache en)" "en_hint (set_file f en) = en_hint en"
  "pc_os (en_cache (set_file f en)) = os_write (engine_path en) f (pc_os (en_cache en))"
  by (simp_all add: set_file_def get_total_pages_def engine_roomy_def)

lemma set_file_ok:
  assumes ok: "engine_ok hs en" and f: "f = engine_file en @ x"
  shows "engine_ok hs (set_file f en)"
    and "unat q < unat (get_total_pages en) \<Longrightarrow> engine_view (set_file f en) q = engine_view en q"
proof -
  let ?pc = "en_cache en"
  let ?pc' = "?pc\<lparr>pc_os := os_write (mf_path (pc_file ?pc)) f (pc_os ?pc)\<rparr>"
  have en': "set_file f en = en\<lparr>en_cache := ?pc'\<rparr>" by (simp add: set_file_def engine_path_def)
  have h: "handles_ok ?pc (hs @ thread_handles (en_threads en))" using ok by (simp add: engine_ok_def)
  have c: "cache_ok ?pc" by (rule handles_okD(1) [OF h])
  have f': "f = os_content (pc_os ?pc) (mf_path (pc_file ?pc)) @ x"
    by (simp add: f engine_file_def disk_bytes_def)
  have "cache_ok ?pc'" using c f' by (simp add: cache_ok_def mf_ok_def)
  then have "handles_ok ?pc' (hs @ thread_handles (en_threads en))"
    using h by (simp add: handles_ok_def get_pin_count_for_test_def cong: option.case_cong)
  then show "engine_ok hs (set_file f en)" using ok by (simp add: engine_ok_def en')
  show "engine_view (set_file f en) q = engine_view en q" if "unat q < unat (get_total_pages en)"
  proof -
    have "q < mf_page_count (pc_file ?pc)"
      using that by (simp add: get_total_pages_def mf_get_page_count_def word_less_nat_alt)
    then have "4096 * Suc (unat q) \<le> length (os_content (pc_os ?pc) (mf_path (pc_file ?pc)))"
      using mf_get_page_ok(3) [OF cache_okD(1) [OF c]] by blast
    then show ?thesis
      unfolding engine_view_def en' cache_view_def disk_page_def
      by (simp add: f' page_at_append1 cong: option.case_cong)
  qed
qed

section \<open>Invariant\<close>

text \<open>
  \<open>db_holds hs rss log db\<close>: the engine serves the pages \<open>rss\<close> of records that the file had when it was opened
  and has a frame for each; the writer, which works on the same file, holds the pages and the page in memory of
  \<open>log\<close>; the pages of the pool are on disk; the calls that are under way hold the handles \<open>hs\<close>. Between the
  calls (\<open>db_ok\<close>) there are none.
\<close>

definition db_holds :: "page_handle list \<Rightarrow> kv list list \<Rightarrow> kv list list \<times> kv list \<Rightarrow> database \<Rightarrow> bool" where
  "db_holds hs rss log db \<longleftrightarrow> engine_ok hs (db_engine db) \<and> store_image (db_engine db) rss \<and>
     engine_roomy (db_engine db) \<and>
     (\<forall>i < length rss. page_at (engine_file (db_engine db)) i = engine_view (db_engine db) (word_of_nat i)) \<and>
     log_ok ((db_writer db)\<lparr>sw_file := engine_file (db_engine db)\<rparr>) (fst log) (snd log) \<and>
     length rss \<le> length (fst log) \<and> lru_usable (db_cache db)"

abbreviation db_ok :: "kv list list \<Rightarrow> kv list list \<times> kv list \<Rightarrow> database \<Rightarrow> bool" where
  "db_ok \<equiv> db_holds []"

abbreviation cached :: "database \<Rightarrow> bytes \<rightharpoonup> bytes" where
  "cached db \<equiv> map_of (lru_view (db_cache db))"

text \<open>What \<open>get\<close> finds: what the record cache holds, otherwise the record that the index names.\<close>

definition found :: "kv list list \<Rightarrow> database \<Rightarrow> bytes \<rightharpoonup> bytes" where
  "found rss db k =
     (case cached db k of Some v \<Rightarrow> Some v
      | None \<Rightarrow> (case index_lookup k (db_index db) of None \<Rightarrow> None
          | Some rid \<Rightarrow> (case record_at rss rid of None \<Rightarrow> None
              | Some (k', v) \<Rightarrow> if k' = k then Some v else None)))"

text \<open>The value of a key in the pages that the engine serves, by way of the index.\<close>

definition indexed :: "kv list list \<Rightarrow> hash_index \<Rightarrow> bytes \<rightharpoonup> bytes" where
  "indexed rss idx k =
     (case idx k of None \<Rightarrow> None
      | Some rid \<Rightarrow> (case record_at rss rid of None \<Rightarrow> None | Some (k', v) \<Rightarrow> if k' = k then Some v else None))"

lemma found_indexed:
  "found rss db = indexed rss (db_index db) ++ cached db"
  by (auto simp: fun_eq_iff map_add_def found_def indexed_def index_lookup_def split: option.split)

lemma indexed_insert: "record_at rss rid = None \<Longrightarrow> indexed rss (idx(k \<mapsto> rid)) = (indexed rss idx)(k := None)"
  by (simp add: indexed_def fun_eq_iff)

lemma found_cached: "cached db k = Some v \<Longrightarrow> found rss db k = Some v"
  by (simp add: found_def)

lemma found_cong: "cached db' k = cached db k \<Longrightarrow> db_index db' k = db_index db k \<Longrightarrow> found rss db' k = found rss db k"
  by (simp add: found_def index_lookup_def cong: option.case_cong)

lemma db_okD:
  assumes "db_holds hs rss log db"
  shows "engine_ok hs (db_engine db)" "store_image (db_engine db) rss" "engine_roomy (db_engine db)"
    "i < length rss \<Longrightarrow> page_at (engine_file (db_engine db)) i = engine_view (db_engine db) (word_of_nat i)"
    "log_ok ((db_writer db)\<lparr>sw_file := engine_file (db_engine db)\<rparr>) (fst log) (snd log)"
    "length rss \<le> length (fst log)" "lru_usable (db_cache db)"
  using assms by (simp_all add: db_holds_def)

text \<open>Reading pages leaves the file alone.\<close>

lemma settled_file_same:
  assumes same: "same_store en en'" and tot: "unat (get_total_pages en) = n"
    and settled: "\<forall>i < n. page_at (engine_file en) i = engine_view en (word_of_nat i)"
  shows "length (engine_file en') = length (engine_file en)" "page_at (engine_file en') i = page_at (engine_file en) i"
  using same settled tot
  by (auto simp: same_store_def same_disk_def engine_file_def engine_view_def get_total_pages_def
      mf_get_page_count_def)

lemma same_store_path: "same_store en en' \<Longrightarrow> engine_path en' = engine_path en"
  by (simp add: same_store_def engine_path_def)

lemma db_ok_read:
  assumes ok: "db_holds hs' rss log db" and en': "engine_ok hs en'" and same: "same_store (db_engine db) en'"
  shows "db_holds hs rss log (db\<lparr>db_engine := en'\<rparr>)"
proof -
  note d = db_okD [OF ok]
  have "unat (get_total_pages (db_engine db)) = length rss" using d(2) by (simp add: store_image_def)
  then have file_same: "length (engine_file en') = length (engine_file (db_engine db))"
    "page_at (engine_file en') i = page_at (engine_file (db_engine db)) i" for i
    using settled_file_same [OF same] d(4) by blast+
  have "log_ok ((db_writer db)\<lparr>sw_file := engine_file en'\<rparr>) (fst log) (snd log)"
    using d(5) file_same by (simp add: log_ok_def file_image_def writer_ok_def)
  moreover have "page_at (engine_file en') i = engine_view en' (word_of_nat i)" if "i < length rss" for i
    using d(4) [OF that] file_same(2) same by (simp add: same_store_def)
  ultimately show ?thesis
    using d en' store_image_same [OF same] same_store_roomy [OF same] by (simp add: db_holds_def)
qed

lemma db_ok_fields:
  assumes "db_holds hs rss log db"
  shows "db_holds hs rss log (db\<lparr>db_index := m\<rparr>)" "db_holds hs rss log (db\<lparr>db_wal := wal\<rparr>)"
    "lru_usable c \<Longrightarrow> db_holds hs rss log (db\<lparr>db_cache := c\<rparr>)" "db_holds hs rss log (set_workload_hint h db)"
  using assms
  by (simp_all add: db_holds_def set_workload_hint_def store_image_def engine_ok_def engine_roomy_def engine_view_def
      engine_file_def get_total_pages_def)

section \<open>The operations\<close>

text \<open>A record that fits a page is stored where \<open>place\<close> puts it, which the engine does not see.\<close>

lemma on_writer_ok:
  assumes ok: "db_holds hs rss log db" and w: "meth ((db_writer db)\<lparr>sw_file := engine_file (db_engine db)\<rparr>) = (r, w)"
    and f: "sw_file w = engine_file (db_engine db) @ x"
    and log: "log_ok w (fst log') (snd log')" "length (fst log) \<le> length (fst log')"
  shows "on_writer meth db = (r, db\<lparr>db_writer := w, db_engine := set_file (sw_file w) (db_engine db)\<rparr>)"
    and "db_holds hs rss log' (db\<lparr>db_writer := w, db_engine := set_file (sw_file w) (db_engine db)\<rparr>)"
proof -
  note d = db_okD [OF ok]
  show "on_writer meth db = (r, db\<lparr>db_writer := w, db_engine := set_file (sw_file w) (db_engine db)\<rparr>)"
    using w by (simp add: on_writer_def)
  let ?en = "set_file (sw_file w) (db_engine db)"
  note sf = set_file_ok [OF d(1) f]
  have tot: "unat (get_total_pages (db_engine db)) = length rss" using d(2) by (simp add: store_image_def)
  then have lt: "length rss < 4294967296" using unat_u32_lt [of "get_total_pages (db_engine db)"] by simp
  have view: "engine_view ?en (word_of_nat i) = engine_view (db_engine db) (word_of_nat i)" if "i < length rss" for i
    using that lt tot by (intro sf(2)) simp
  have len: "length (engine_file (db_engine db)) = 4096 * length (fst log)"
    using d(5) by (simp add: log_ok_def file_image_def)
  have "page_at (sw_file w) i = page_at (engine_file (db_engine db)) i" if "i < length rss" for i
    unfolding f using that d(6) len by (intro page_at_append1) simp
  then show "db_holds hs rss log' (db\<lparr>db_writer := w, db_engine := ?en\<rparr>)"
    using d(2-4,6,7) sf(1) view log by (simp add: db_holds_def store_image_def)
qed

text \<open>The writer's part of a put: the record is stored, or it is too large, which ends the page in memory.\<close>

lemma append_record_ok:
  assumes ok: "db_holds hs rss log db" and few: "Suc (length (fst log)) < 4294967296"
  obtains r db' where "on_writer (writer_append key val) db = (r, db')"
    "db_index db' = db_index db" "db_cache db' = db_cache db" "db_wal db' = db_wal db"
    "engine_path (db_engine db') = engine_path (db_engine db)" "en_hint (db_engine db') = en_hint (db_engine db)"
    "if fits_page (key, val)
     then r = Inr (rid_of_last (place (key, val) log)) \<and> record_at rss (rid_of_last (place (key, val) log)) = None \<and>
       db_holds hs rss (place (key, val) log) db'
     else r = Inl RecordTooLarge \<and> db_holds hs rss (log_pages log, []) db'"
proof -
  note d = db_okD [OF ok]
  let ?w = "(db_writer db)\<lparr>sw_file := engine_file (db_engine db)\<rparr>"
  let ?log' = "if fits_page (key, val) then place (key, val) log else (log_pages log, [])"
  let ?r = "if fits_page (key, val) then Inr (rid_of_last ?log') else Inl RecordTooLarge"
  obtain w' where w': "writer_append key val ?w = (?r, w')" "log_ok w' (fst ?log') (snd ?log')"
    using writer_append_ok [OF d(5) _ few, of key val] writer_append_too_large [OF d(5) _ few, of key val]
    by (cases "fits_page (key, val)") (auto simp: log_pages_def)
  obtain x where x: "sw_file w' = engine_file (db_engine db) @ x"
    using writer_append_file [of key val ?w] w'(1) by auto
  have le: "length (fst log) \<le> length (fst ?log')" by (simp add: place_def log_pages_def)
  note on = on_writer_ok [where meth = "writer_append key val", OF ok w'(1) x w'(2) le]
  have "record_at rss (rid_of_last (place (key, val) log)) = None"
  proof -
    have "length (fst (place (key, val) log)) < 4294967296" using few by (simp add: place_def)
    then have "unat (rid_page_id (rid_of_last (place (key, val) log))) = length (fst (place (key, val) log))"
      by (simp add: rid_of_last_def)
    moreover have "length (fst log) \<le> length (fst (place (key, val) log))" by (simp add: place_def)
    ultimately show ?thesis using d(6) by (simp add: record_at_def)
  qed
  with on show thesis
    by (intro that [of ?r "db\<lparr>db_writer := w', db_engine := set_file (sw_file w') (db_engine db)\<rparr>"])
      (auto split: if_splits)
qed

lemma store_record_ok:
  assumes ok: "db_holds hs rss log db" and fits: "fits_page (key, val)" and few: "Suc (length (fst log)) < 4294967296"
  shows "\<exists>db' rid. store_record key val db = (Inr (), db') \<and> db_holds hs rss (place (key, val) log) db' \<and>
    db_index db' = (db_index db)(key \<mapsto> rid) \<and> record_at rss rid = None \<and>
    lru_put None key val (db_cache db) = Inr (db_cache db') \<and> db_wal db' = db_wal db \<and>
    engine_path (db_engine db') = engine_path (db_engine db)"
proof -
  let ?rid = "rid_of_last (place (key, val) log)"
  obtain db1 where w: "on_writer (writer_append key val) db = (Inr ?rid, db1)" "record_at rss ?rid = None"
    "db_holds hs rss (place (key, val) log) db1" "db_index db1 = db_index db" "db_cache db1 = db_cache db"
    "db_wal db1 = db_wal db" "engine_path (db_engine db1) = engine_path (db_engine db)"
    using append_record_ok [OF ok few, of key val] fits by metis
  obtain c where c: "lru_put None key val (db_cache db) = Inr c" "lru_usable c"
    using lru.put_view [OF db_okD(7) [OF ok]] by blast
  let ?db' = "db1\<lparr>db_index := index_insert key ?rid (db_index db), db_cache := c\<rparr>"
  have "store_record key val db = (Inr (), ?db')"
    using w(1,4,5) c(1) by (simp add: store_record_def)
  moreover have "db_holds hs rss (place (key, val) log) ?db'"
    using db_ok_fields(3) [OF db_ok_fields(1) [OF w(3)] c(2)] by simp
  ultimately show ?thesis
    using c(1) w(2,6,7) by (intro exI [of _ ?db'] exI [of _ ?rid]) (simp add: index_insert_def)
qed

text \<open>A record that is too large ends the page in memory.\<close>

lemma store_record_too_large:
  assumes ok: "db_holds hs rss log db" and large: "\<not> fits_page (key, val)" and few: "Suc (length (fst log)) < 4294967296"
  shows "\<exists>db'. store_record key val db = (Inl RecordTooLarge, db') \<and> db_holds hs rss (log_pages log, []) db' \<and>
    db_wal db' = db_wal db \<and> engine_path (db_engine db') = engine_path (db_engine db)"
proof -
  obtain db1 where "on_writer (writer_append key val) db = (Inl RecordTooLarge, db1)"
    "db_holds hs rss (log_pages log, []) db1" "db_wal db1 = db_wal db"
    "engine_path (db_engine db1) = engine_path (db_engine db)"
    using append_record_ok [OF ok few, of key val] large by metis
  then show ?thesis by (intro exI [of _ db1]) (simp add: store_record_def)
qed

lemma db_get_ok:
  assumes ok: "db_ok rss log db"
  shows "\<exists>db' c. db_get key db = (Inr (found rss db key), db') \<and> db_ok rss log db' \<and>
    db_index db' = db_index db \<and> db_wal db' = db_wal db \<and> engine_path (db_engine db') = engine_path (db_engine db) \<and>
    lru_get key (db_cache db) = Inr (cached db key, c) \<and>
    lru_usable c \<and> map_of (lru_view c) = cached db \<and> lc_capacity c = lc_capacity (db_cache db) \<and>
    (db_cache db' = c \<or> (\<exists>v. found rss db key = Some v \<and> lru_put None key v c = Inr (db_cache db')))"
proof -
  note d = db_okD [OF ok]
  obtain c where c: "lru_get key (db_cache db) = Inr (cached db key, c)" "lru_usable c"
    "map_of (lru_view c) = cached db" "lc_capacity c = lc_capacity (db_cache db)"
    using sized_lru.get_within [OF d(7)] by blast
  have okc: "db_ok rss log (db\<lparr>db_cache := c\<rparr>)" by (rule db_ok_fields(3) [OF ok c(2)])
  consider (hit) v where "cached db key = Some v"
    | (unknown) "cached db key = None" "index_lookup key (db_index db) = None"
    | (read) rid where "cached db key = None" "index_lookup key (db_index db) = Some rid" by fastforce
  then show ?thesis
  proof cases
    case hit
    then have "db_get key db = (Inr (found rss db key), db\<lparr>db_cache := c\<rparr>)"
      using c(1) by (simp add: db_get_def found_def)
    with okc c show ?thesis by (intro exI [of _ "db\<lparr>db_cache := c\<rparr>"] exI [of _ c]) simp
  next
    case unknown
    then have "db_get key db = (Inr (found rss db key), db\<lparr>db_cache := c\<rparr>)"
      using c(1) by (simp add: db_get_def found_def)
    with okc c show ?thesis by (intro exI [of _ "db\<lparr>db_cache := c\<rparr>"] exI [of _ c]) simp
  next
    case read
    obtain r en where rr: "read_record rid (db_engine db) = (r, en)" by fastforce
    have r: "r = Inr (record_at rss rid)" using read_record_image [OF d(1-3), of rid] rr by simp
    have en: "engine_ok [] en" "same_store (db_engine db) en" using read_record_ok [OF d(1) rr] by simp_all
    let ?db2 = "db\<lparr>db_cache := c, db_engine := en\<rparr>"
    have ok2: "db_ok rss log ?db2" using db_ok_read [OF okc] en by simp
    have path: "engine_path en = engine_path (db_engine db)" by (rule same_store_path [OF en(2)])
    show ?thesis
    proof (cases "found rss db key")
      case None
      then have "db_get key db = (Inr None, ?db2)"
        using c(1) read rr r by (auto simp: db_get_def found_def split: option.splits if_splits)
      with ok2 c None path show ?thesis by (intro exI [of _ ?db2] exI [of _ c]) simp
    next
      case (Some v)
      then have at: "record_at rss rid = Some (key, v)"
        using read by (auto simp: found_def split: option.splits if_splits)
      obtain c' where c': "lru_put None key v c = Inr c'" "lru_usable c'" using lru.put_view [OF c(2)] by blast
      have "db_get key db = (Inr (Some v), ?db2\<lparr>db_cache := c'\<rparr>)"
        using c(1) c'(1) read rr r at by (simp add: db_get_def)
      with db_ok_fields(3) [OF ok2 c'(2)] c c' Some path show ?thesis
        by (intro exI [of _ "?db2\<lparr>db_cache := c'\<rparr>"] exI [of _ c]) simp
    qed
  qed
qed

section \<open>Recovery\<close>

abbreviation kv_of :: "wal_record \<Rightarrow> kv" where
  "kv_of r \<equiv> (wr_key r, wr_value r)"

lemma replay_visitor_error: "wal.feed replay_visitor r st = st" if "rs_error st \<noteq> None"
  using that unfolding wal.feed_def replay_failed_def by simp

lemma replay_stores:
  assumes "rs_error st = None" and "db_ok rss log (rs_user st)" and "\<forall>r \<in> set ws. fits_page (kv_of r)"
    and "length (fst log) + length ws + 1 < 4294967296"
  shows "\<exists>db'. rs_error (fold (wal.feed replay_visitor) ws st) = None \<and>
    rs_user (fold (wal.feed replay_visitor) ws st) = db' \<and> db_ok rss (place_all (map kv_of ws) log) db' \<and>
    cached db' \<subseteq>\<^sub>m cached (rs_user st) ++ latest (map kv_of ws) \<and>
    lc_capacity (db_cache db') = lc_capacity (db_cache (rs_user st)) \<and> db_wal db' = db_wal (rs_user st) \<and>
    engine_path (db_engine db') = engine_path (db_engine (rs_user st)) \<and>
    (card (dom (cached (rs_user st)) \<union> wr_key ` set ws) \<le> lc_capacity (db_cache (rs_user st)) \<longrightarrow>
      cached db' = cached (rs_user st) ++ latest (map kv_of ws)) \<and>
    lru_view (db_cache db') = fold (\<lambda>(k, v). lru_touch (lc_capacity (db_cache (rs_user st))) k v) (map kv_of ws)
      (lru_view (db_cache (rs_user st)))"
  using assms
proof (induction ws arbitrary: st log)
  case Nil
  then show ?case by simp
next
  case (Cons r ws)
  let ?db = "rs_user st" and ?k = "wr_key r" and ?v = "wr_value r"
  have few: "Suc (length (fst log)) < 4294967296" and fits: "fits_page (?k, ?v)" using Cons.prems by simp_all
  obtain db1 rid where s: "store_record ?k ?v ?db = (Inr (), db1)" "db_ok rss (place (?k, ?v) log) db1"
    "lru_put None ?k ?v (db_cache ?db) = Inr (db_cache db1)" "db_wal db1 = db_wal ?db"
    "engine_path (db_engine db1) = engine_path (db_engine ?db)"
    using store_record_ok [OF Cons.prems(2) fits few] by blast
  have u: "lru_usable (db_cache ?db)" by (rule db_okD(7) [OF Cons.prems(2)])
  have view1: "cached db1 \<subseteq>\<^sub>m (cached ?db)(?k \<mapsto> ?v)" "cached db1 ?k = Some ?v"
    using lru.put_view [OF u, of None ?k ?v] s(3) by auto
  have cap1: "lc_capacity (db_cache db1) = lc_capacity (db_cache ?db)" by (rule sized_lru.put_limit [OF u s(3)])
  define st1 where "st1 = wal.feed replay_visitor r st"
  have st1: "rs_error st1 = None" "rs_user st1 = db1"
    using Cons.prems(1) s(1) unfolding st1_def wal.feed_def replay_failed_def
    by (simp_all add: replay_step_def replay_visitor_def)
  have prems: "db_ok rss (place (?k, ?v) log) (rs_user st1)" "\<forall>r \<in> set ws. fits_page (kv_of r)"
    "length (fst (place (?k, ?v) log)) + length ws + 1 < 4294967296"
    using s(2) Cons.prems(3,4) by (simp_all add: st1 place_def)
  from Cons.IH [OF st1(1) prems] obtain db' where ih:
    "rs_error (fold (wal.feed replay_visitor) ws st1) = None"
    "rs_user (fold (wal.feed replay_visitor) ws st1) = db'"
    "db_ok rss (place_all (map kv_of ws) (place (?k, ?v) log)) db'"
    "cached db' \<subseteq>\<^sub>m cached db1 ++ latest (map kv_of ws)"
    "lc_capacity (db_cache db') = lc_capacity (db_cache db1)" "db_wal db' = db_wal db1"
    "engine_path (db_engine db') = engine_path (db_engine db1)"
    "card (dom (cached db1) \<union> wr_key ` set ws) \<le> lc_capacity (db_cache db1) \<longrightarrow>
      cached db' = cached db1 ++ latest (map kv_of ws)"
    "lru_view (db_cache db') = fold (\<lambda>(k, v). lru_touch (lc_capacity (db_cache db1)) k v) (map kv_of ws) (lru_view (db_cache db1))"
    by (auto simp: st1)
  have lat: "(m(?k \<mapsto> ?v)) ++ latest (map kv_of ws) = m ++ latest (map kv_of (r # ws))" for m
    by (simp add: latest_def map_add_upd_left)
  have "cached db' \<subseteq>\<^sub>m cached ?db ++ latest (map kv_of (r # ws))"
  proof -
    have "cached db1 ++ latest (map kv_of ws) \<subseteq>\<^sub>m (cached ?db)(?k \<mapsto> ?v) ++ latest (map kv_of ws)"
      by (rule map_le_add_right [OF view1(1)])
    with ih(4) show ?thesis unfolding lat by (rule map_le_trans)
  qed
  moreover have "cached db' = cached ?db ++ latest (map kv_of (r # ws))"
    if room: "card (dom (cached ?db) \<union> wr_key ` set (r # ws)) \<le> lc_capacity (db_cache ?db)"
  proof -
    have "card (insert ?k (dom (cached ?db))) \<le> card (dom (cached ?db) \<union> wr_key ` set (r # ws))"
      by (rule card_mono) (auto simp: finite_dom_map_of)
    then have "card (insert ?k (dom (cached ?db))) \<le> lc_capacity (db_cache ?db)" using room by (rule le_trans)
    then have v1: "cached db1 = (cached ?db)(?k \<mapsto> ?v)" by (rule sized_lru.put_room [OF u s(3)])
    then have "dom (cached db1) \<union> wr_key ` set ws = dom (cached ?db) \<union> wr_key ` set (r # ws)" by auto
    then show ?thesis using ih(8) room cap1 v1 lat by simp
  qed
  ultimately show ?case
    using ih(1-3,5-7,9) s(4,5) cap1 lru_put_view [OF u s(3)] by (simp add: st1_def [symmetric])
qed

lemma db_recover_ok:
  assumes ok: "db_ok rss log db"
  shows "\<exists>db'. db_recover db = (Inr (), db') \<and> db_ok rss log db' \<and> db_cache db' = db_cache db \<and>
    db_wal db' = db_wal db \<and> engine_path (db_engine db') = engine_path (db_engine db) \<and>
    db_index db' = (if rss = [] then db_index db else index_of_records (all_records rss))"
proof -
  have tot: "unat (get_total_pages (db_engine db)) = length rss"
    using db_okD(2) [OF ok] by (simp add: store_image_def)
  then have some: "get_total_pages (db_engine db) > 0 \<longleftrightarrow> rss \<noteq> []"
    by (auto simp: word_gt_0 unat_eq_0 [symmetric])
  show ?thesis
  proof (cases "rss = []")
    case True
    with ok some show ?thesis by (intro exI [of _ db]) (simp add: db_recover_def)
  next
    case False
    let ?db1 = "set_workload_hint Scan db"
    have ok1: "db_ok rss log ?db1" by (rule db_ok_fields(4) [OF ok])
    note d = db_okD [OF ok1]
    obtain en where en: "index_rebuild (db_engine ?db1) = ((Inr (), index_of_records (all_records rss)), en)"
      "engine_ok [] en" "same_store (db_engine ?db1) en"
      using rebuild_image [OF d(1-3)] by blast
    let ?db2 = "?db1\<lparr>db_index := index_of_records (all_records rss), db_engine := en\<rparr>"
    have "db_recover db = (Inr (), set_workload_hint PointLookup ?db2)"
      using some False en(1) by (simp add: db_recover_def)
    moreover have "db_ok rss log (set_workload_hint PointLookup ?db2)"
      using db_ok_read [OF db_ok_fields(1) [OF ok1] en(2)] en(3) by (intro db_ok_fields(4)) simp
    moreover have "engine_path en = engine_path (db_engine db)"
      using same_store_path [OF en(3)] by (simp add: set_workload_hint_def engine_path_def)
    ultimately show ?thesis
      using False by (intro exI [of _ "set_workload_hint PointLookup ?db2"])
        (simp add: set_workload_hint_def engine_path_def)
  qed
qed

text \<open>What is found after recovery: the record cache before the file.\<close>

lemma found_recovered:
  assumes image: "store_image en rss" and index: "rss \<noteq> [] \<Longrightarrow> db_index db = index_of_records (all_records rss)"
  shows "found rss db = latest (concat rss) ++ cached db"
proof
  fix k
  show "found rss db k = (latest (concat rss) ++ cached db) k"
  proof (cases "cached db k")
    case None
    show ?thesis
    proof (cases "rss = []")
      case True
      with None show ?thesis
        by (auto simp: found_def record_at_def map_add_def split: option.splits)
    next
      case False
      note il = index_latest [of "all_records rss" k]
      show ?thesis
      proof (cases "index_of_records (all_records rss) k")
        case None
        with il \<open>cached db k = None\<close> index [OF False] show ?thesis
          by (simp add: found_def index_lookup_def map_add_def all_records_values)
      next
        case (Some rid)
        with il obtain v where v: "(rid, (k, v)) \<in> set (all_records rss)" "latest (concat rss) k = Some v"
          by (auto simp: all_records_values)
        with record_at_all_records [OF image v(1)] Some \<open>cached db k = None\<close> index [OF False] show ?thesis
          by (simp add: found_def index_lookup_def map_add_def)
      qed
    qed
  qed (simp add: found_def)
qed

section \<open>Opening and closing files\<close>

text \<open>
  The files of a database: pages of records, and a log of whole frames that is followed by bytes that are
  not one. Every logged record fits a page.
\<close>

definition files_hold :: "string \<Rightarrow> os \<Rightarrow> kv list list \<Rightarrow> wal_record list \<Rightarrow> bytes \<Rightarrow> bool" where
  "files_hold path sys pages ws tail \<longleftrightarrow> file_image (os_content sys path) pages \<and>
     os_content sys (wal_path path) = concat (map wal_encode_record ws) @ tail \<and> wal_entry tail = None \<and>
     (\<forall>r \<in> set ws. wal_fits r)"

definition env_good :: "environment \<Rightarrow> bool" where
  "env_good env \<longleftrightarrow> env_fd env \<noteq> -1 \<and> env_stat env \<and> env_mmap env \<and> env_writer env \<and> env_wal env \<and> env_wal_reopen env"

lemma wal_path_neq [simp]: "wal_path path \<noteq> path" "path \<noteq> wal_path path"
  by (simp_all add: wal_path_def)

lemma fits_page_wal: "fits_page (kv_of r) \<Longrightarrow> wal_fits r"
  by (simp add: fits_page_def has_room_def used_def rec_size_def wal_fits_def)

lemma writer_open_file: "writer_open (Some f) True = Inr w \<Longrightarrow> sw_file w = f"
  by (auto simp: writer_open_def Let_def reset_current_page_def)

text \<open>A database before its log is replayed.\<close>

lemma db_before_replay:
  assumes env: "env_good env" and image: "file_image (os_content sys path) pages" and few: "length pages < 2 ^ 20"
    and cap: "length pages \<le> pc_size" and rc: "0 < rc_size"
  obtains en sys1 w where
    "engine_new path (env_fd env) (env_stat env) (env_mmap env) sys (env_obs env) pc_size (env_observer env)
       (env_schedule env) = (Inr en, sys1)"
    "writer_open (os_files sys1 path) (env_writer env) = Inr w"
    "os_files sys1 (wal_path path) = os_files sys (wal_path path)"
    "engine_path (set_file (sw_file w) en) = path"
    "\<And>wal. db_ok pages (pages, []) \<lparr>db_engine = set_file (sw_file w) en, db_writer = w, db_index = Map.empty,
       db_cache = lru_new rc_size, db_wal = wal\<rparr>"
proof -
  let ?f = "os_content sys path"
  have fd: "env_fd env \<noteq> -1" using env by (simp add: env_good_def)
  obtain en sys1 where en: "engine_new path (env_fd env) True True sys (env_obs env) pc_size (env_observer env)
       (env_schedule env) = (Inr en, sys1)" "engine_ok [] en" "store_image en pages" "engine_roomy en"
    "pc_os (en_cache en) = sys1" "os_files sys1 = (os_files sys)(path \<mapsto> ?f)" "mf_path (pc_file (en_cache en)) = path"
    "\<forall>i < length pages. engine_view en (word_of_nat i) = page_at ?f i"
    using engine_new_image [OF fd refl image few cap] by blast
  obtain w where w: "writer_open (Some ?f) True = Inr w" "log_ok w pages []"
    using log_ok_open [OF image] few by auto
  have wf: "sw_file w = ?f" by (rule writer_open_file [OF w(1)])
  have ef: "engine_file en = ?f"
    using en(5-7) by (simp add: engine_file_def disk_bytes_def) (simp add: os_content_def)
  have f0: "sw_file w = engine_file en @ []" by (simp add: wf ef)
  note sf = set_file_ok [OF en(2) f0]
  let ?en = "set_file (sw_file w) en"
  have wid: "w\<lparr>sw_file := ?f\<rparr> = w" by (simp add: wf [symmetric])
  have tot: "unat (get_total_pages en) = length pages" using en(3) by (simp add: store_image_def)
  have view: "engine_view ?en (word_of_nat i) = engine_view en (word_of_nat i)" if "i < length pages" for i
    using that few tot by (intro sf(2)) simp
  have "db_ok pages (pages, []) \<lparr>db_engine = ?en, db_writer = w, db_index = Map.empty,
       db_cache = lru_new rc_size, db_wal = wal\<rparr>" for wal
    using sf(1) en(3,4,8) view w(2) rc
    by (simp add: db_holds_def store_image_def lru_usable_def lru_ok_new wf wid) (simp add: lru_new_def)
  then show thesis
    using en(1,6,7) w(1) env by (intro that [of en sys1 w]) (simp_all add: env_good_def engine_path_def)
qed

text \<open>Opening is replaying the records of the log, then recovering the index.\<close>

lemma db_open_replay:
  assumes env: "env_good env" and hold: "files_hold path sys pages ws tail"
    and few: "length pages < 2 ^ 20" and cap: "length pages \<le> pc_size" and rc: "0 < rc_size"
  obtains st0 wal where
    "rs_error st0 = None" "db_ok pages (pages, []) (rs_user st0)" "engine_path (db_engine (rs_user st0)) = path"
    "cached (rs_user st0) = Map.empty" "lc_capacity (db_cache (rs_user st0)) = rc_size"
    "\<And>st. wal_file (wal st) = Some (os_content sys (wal_path path))"
    "\<And>st. rs_error st = None \<Longrightarrow> wal_is_open (wal st)"
    "db_open env path pc_size rc_size sys =
       (let st = fold (wal.feed replay_visitor) ws st0; db1 = (rs_user st)\<lparr>db_wal := wal st\<rparr>
        in case rs_error st of
             Some e \<Rightarrow> (Inl e, db_close db1)
           | None \<Rightarrow> (case db_recover db1 of
               (Inl e, db2) \<Rightarrow> (Inl e, db_close db2) | (Inr _, db2) \<Rightarrow> (Inr db2, db_files db2)))"
proof -
  from hold obtain en sys1 w where o: "engine_new path (env_fd env) (env_stat env) (env_mmap env) sys (env_obs env)
       pc_size (env_observer env) (env_schedule env) = (Inr en, sys1)"
    "writer_open (os_files sys1 path) (env_writer env) = Inr w"
    "os_files sys1 (wal_path path) = os_files sys (wal_path path)"
    "engine_path (set_file (sw_file w) en) = path"
    "\<And>wal. db_ok pages (pages, []) \<lparr>db_engine = set_file (sw_file w) en, db_writer = w, db_index = Map.empty,
       db_cache = lru_new rc_size, db_wal = wal\<rparr>"
    using db_before_replay [OF env _ few cap rc, of sys path] by (auto simp: files_hold_def)
  let ?log = "os_content sys (wal_path path)"
  let ?wal = "wal_new (os_files sys1 (wal_path path)) True"
  let ?db0 = "\<lparr>db_engine = set_file (sw_file w) en, db_writer = w, db_index = Map.empty,
       db_cache = lru_new rc_size, db_wal = ?wal\<rparr>"
  let ?st0 = "\<lparr>rs_error = None, rs_lsn = wal_current_lsn ?wal, rs_count = 0, rs_user = ?db0\<rparr>"
  let ?closed = "\<lambda>st :: database replay_state. ?wal\<lparr>wal_is_open := False, wal_current_lsn := rs_lsn st\<rparr>"
  let ?after = "\<lambda>st. if rs_error st = None then log_open True (?closed st) else ?closed st"
  have wal: "wal_file ?wal = Some ?log"
    using o(3) by (simp add: wal_new_def log_open_def os_content_def)
  have "replay_loop replay_visitor ?log ?st0 = fold (wal.feed replay_visitor) ws ?st0"
    using hold by (simp add: files_hold_def wal.run_entries_tail)
  then have "wal_replay replay_visitor ?db0 True ?wal =
      (fold (wal.feed replay_visitor) ws ?st0, ?after (fold (wal.feed replay_visitor) ws ?st0))"
    using wal by (simp add: wal_replay_def Let_def)
  then have "db_open env path pc_size rc_size sys =
       (let st = fold (wal.feed replay_visitor) ws ?st0; db1 = (rs_user st)\<lparr>db_wal := ?after st\<rparr>
        in case rs_error st of
             Some e \<Rightarrow> (Inl e, db_close db1)
           | None \<Rightarrow> (case db_recover db1 of
               (Inl e, db2) \<Rightarrow> (Inl e, db_close db2) | (Inr _, db2) \<Rightarrow> (Inr db2, db_files db2)))"
    using o(1,2) env by (simp add: db_open_def env_good_def Let_def)
  moreover have "wal_file (?after st) = Some ?log" "rs_error st = None \<Longrightarrow> wal_is_open (?after st)" for st
    using wal by (simp_all add: log_open_def)
  moreover have "cached ?db0 = Map.empty" "lc_capacity (db_cache ?db0) = rc_size"
    by (simp_all add: lru_view_new) (simp add: lru_new_def)
  ultimately show thesis using that [of ?st0 ?after] o(4) o(5) [of ?wal] by simp
qed

lemma db_open_ok:
  assumes env: "env_good env" and hold: "files_hold path sys pages ws tail"
    and fits: "\<forall>r \<in> set ws. fits_page (kv_of r)" and few: "length pages + length ws < 2 ^ 20 - 1"
    and cap: "length pages \<le> pc_size" and rc: "0 < rc_size"
  shows "\<exists>db. db_open env path pc_size rc_size sys = (Inr db, db_files db) \<and>
    db_ok pages (place_all (map kv_of ws) (pages, [])) db \<and> engine_path (db_engine db) = path \<and>
    wal_is_open (db_wal db) \<and> wal_file (db_wal db) = Some (os_content sys (wal_path path)) \<and>
    lc_capacity (db_cache db) = rc_size \<and> cached db \<subseteq>\<^sub>m latest (map kv_of ws) \<and>
    (card (wr_key ` set ws) \<le> rc_size \<longrightarrow> cached db = latest (map kv_of ws)) \<and>
    cached db = latest (map kv_of ws) |` set (most_recent rc_size (map wr_key ws)) \<and>
    found pages db = latest (concat pages) ++ cached db \<and>
    (pages \<noteq> [] \<longrightarrow> db_index db = index_of_records (all_records pages))"
proof -
  have few1: "length pages < 2 ^ 20" and len: "length (fst (pages, [] :: kv list)) + length ws + 1 < 4294967296"
    using few by simp_all
  obtain st0 wal where o: "rs_error st0 = None" "db_ok pages (pages, []) (rs_user st0)"
    "engine_path (db_engine (rs_user st0)) = path"
    "cached (rs_user st0) = Map.empty" "lc_capacity (db_cache (rs_user st0)) = rc_size"
    "\<And>st. wal_file (wal st) = Some (os_content sys (wal_path path))"
    "\<And>st. rs_error st = None \<Longrightarrow> wal_is_open (wal st)"
    "db_open env path pc_size rc_size sys =
       (let st = fold (wal.feed replay_visitor) ws st0; db1 = (rs_user st)\<lparr>db_wal := wal st\<rparr>
        in case rs_error st of
             Some e \<Rightarrow> (Inl e, db_close db1)
           | None \<Rightarrow> (case db_recover db1 of
               (Inl e, db2) \<Rightarrow> (Inl e, db_close db2) | (Inr _, db2) \<Rightarrow> (Inr db2, db_files db2)))"
    by (rule db_open_replay [OF env hold few1 cap rc]) (rule that; assumption)
  have view0: "lru_view (db_cache (rs_user st0)) = []" using o(4) by simp
  define st where "st = fold (wal.feed replay_visitor) ws st0"
  obtain db' where r: "rs_error st = None" "rs_user st = db'"
    "db_ok pages (place_all (map kv_of ws) (pages, [])) db'"
    "cached db' \<subseteq>\<^sub>m latest (map kv_of ws)" "lc_capacity (db_cache db') = rc_size" "engine_path (db_engine db') = path"
    "card (wr_key ` set ws) \<le> rc_size \<longrightarrow> cached db' = latest (map kv_of ws)"
    "lru_view (db_cache db') = fold (\<lambda>(k, v). lru_touch rc_size k v) (map kv_of ws) []"
    using replay_stores [OF o(1,2) fits len, folded st_def] by (auto simp: o(3,5) view0)
  obtain db where rec: "db_recover (db'\<lparr>db_wal := wal st\<rparr>) = (Inr (), db)"
    "db_ok pages (place_all (map kv_of ws) (pages, [])) db" "db_cache db = db_cache db'" "db_wal db = wal st"
    "engine_path (db_engine db) = path"
    "db_index db = (if pages = [] then db_index db' else index_of_records (all_records pages))"
    using db_recover_ok [OF db_ok_fields(2) [OF r(3)], of "wal st"] r(6) by auto
  have "db_open env path pc_size rc_size sys = (Inr db, db_files db)"
    using o(8) r(1,2) rec(1) by (simp add: st_def [symmetric] Let_def)
  moreover have "found pages db = latest (concat pages) ++ cached db"
    using found_recovered [OF db_okD(2) [OF rec(2)]] rec(6) by simp
  moreover have "cached db = latest (map kv_of ws) |` set (most_recent rc_size (map wr_key ws))"
    using lru_touch_all [of rc_size "map kv_of ws"] unfolding rec(3) r(8) by (simp add: latest_def comp_def)
  ultimately show ?thesis
    using rec r(1,4,5,7) o(6,7) by (intro exI [of _ db]) simp
qed

text \<open>What a crash and the destructor leave.\<close>

lemma db_crash_files:
  assumes ok: "db_ok rss log db" and wal: "wal_file (db_wal db) = Some f" and path: "engine_path (db_engine db) = path"
  shows "file_image (os_content (db_crash db) path) (fst log)" "os_content (db_crash db) (wal_path path) = f"
proof -
  have "os_content (db_crash db) path = engine_file (db_engine db)"
    using path by (simp add: db_crash_def db_files_def wal engine_file_def disk_bytes_def engine_path_def)
  then show "file_image (os_content (db_crash db) path) (fst log)"
    using db_okD(5) [OF ok] by (simp add: log_ok_def)
  show "os_content (db_crash db) (wal_path path) = f"
    using path by (simp add: db_crash_def db_files_def wal)
qed

lemma db_close_files:
  assumes ok: "db_ok rss log db" and wal: "wal_file (db_wal db) = Some f" and path: "engine_path (db_engine db) = path"
  obtains pages where "file_image (os_content (db_close db) path) pages" "concat pages = concat (log_pages log)"
    "length pages \<le> Suc (length (fst log))" "os_content (db_close db) (wal_path path) = f"
proof -
  let ?w = "(db_writer db)\<lparr>sw_file := engine_file (db_engine db)\<rparr>"
  let ?db1 = "snd (on_writer (\<lambda>w. ((), writer_flush w)) db)"
  obtain pages where p: "file_image (writer_close ?w) pages" "concat pages = concat (fst log) @ snd log"
    "length pages \<le> Suc (length (fst log))"
    using close_image_pages [OF db_okD(5) [OF ok]] by blast
  have db1: "engine_file (db_engine ?db1) = writer_close ?w" "engine_path (db_engine ?db1) = path"
    "db_wal ?db1 = db_wal db"
    using path by (simp_all add: on_writer_def writer_close_def)
  have "os_content (db_close db) path = writer_close ?w" "os_content (db_close db) (wal_path path) = f"
    using db1 wal unfolding db_close_def db_crash_def db_files_def
    by (simp_all add: engine_file_def disk_bytes_def engine_path_def)
  with p show thesis by (intro that) (simp_all add: log_pages_def)
qed

section \<open>Runs of a session\<close>

datatype db_op = DbPut bytes bytes | DbGet bytes

text \<open>The result of a put that returns is \<open>None\<close>; after an exception the client goes on.\<close>

primrec db_step :: "db_op \<Rightarrow> database \<Rightarrow> bytes option result \<times> database" where
  "db_step (DbPut k v) db = (case db_put k v db of (Inl e, db') \<Rightarrow> (Inl e, db') | (Inr _, db') \<Rightarrow> (Inr None, db'))"
| "db_step (DbGet k) db = db_get k db"

primrec db_run :: "db_op list \<Rightarrow> database \<Rightarrow> bytes option result list \<times> database" where
  "db_run [] db = ([], db)"
| "db_run (x # xs) db = (let (r, db1) = db_step x db; (rs, db2) = db_run xs db1 in (r # rs, db2))"

text \<open>The specification: a map.\<close>

primrec spec_step :: "db_op \<Rightarrow> (bytes \<rightharpoonup> bytes) \<Rightarrow> bytes option \<times> (bytes \<rightharpoonup> bytes)" where
  "spec_step (DbPut k v) m = (None, m(k \<mapsto> v))"
| "spec_step (DbGet k) m = (m k, m)"

primrec spec_ops :: "db_op list \<Rightarrow> (bytes \<rightharpoonup> bytes) \<Rightarrow> bytes option list \<times> (bytes \<rightharpoonup> bytes)" where
  "spec_ops [] m = ([], m)"
| "spec_ops (x # xs) m = (let (r, m1) = spec_step x m; (rs, m2) = spec_ops xs m1 in (r # rs, m2))"

primrec puts_of :: "db_op list \<Rightarrow> kv list" where
  "puts_of [] = []"
| "puts_of (x # xs) = (case x of DbPut k v \<Rightarrow> (k, v) # puts_of xs | DbGet k \<Rightarrow> puts_of xs)"

lemma spec_ops_map: "snd (spec_ops ops m) = m ++ latest (puts_of ops)"
proof (induction ops arbitrary: m)
  case (Cons x ops)
  then show ?case by (cases x) (simp_all add: case_prod_unfold latest_def map_add_upd_left)
qed simp

lemma db_put_ok:
  assumes ok: "db_ok rss log db" and fits: "fits_page (key, val)" and few: "Suc (length (fst log)) < 4294967296"
    and wal: "wal_is_open (db_wal db)" "wal_file (db_wal db) = Some f"
  shows "\<exists>db' rid r. db_put key val db = (Inr (), db') \<and> db_ok rss (place (key, val) log) db' \<and>
    db_index db' = (db_index db)(key \<mapsto> rid) \<and> record_at rss rid = None \<and>
    lru_put None key val (db_cache db) = Inr (db_cache db') \<and>
    kv_of r = (key, val) \<and> wal_is_open (db_wal db') \<and> wal_file (db_wal db') = Some (f @ wal_encode_record r) \<and>
    engine_path (db_engine db') = engine_path (db_engine db)"
proof -
  let ?r = "\<lparr>wr_lsn = wal_current_lsn (db_wal db) + 1, wr_key = key, wr_value = val\<rparr>"
  obtain l wal where a: "wal_append key val (db_wal db) = (l, wal)" "wal_is_open wal"
    "wal_file wal = Some (f @ wal_encode_record ?r)"
    using wal by (auto simp: wal_append_def log_write_def wal_encode_record_def Let_def)
  have "db_ok rss log (db\<lparr>db_wal := wal\<rparr>)" by (rule db_ok_fields(2) [OF ok])
  from store_record_ok [OF this fits few] obtain db' rid where
    "store_record key val (db\<lparr>db_wal := wal\<rparr>) = (Inr (), db')" "db_ok rss (place (key, val) log) db'"
    "db_index db' = (db_index db)(key \<mapsto> rid)" "record_at rss rid = None"
    "lru_put None key val (db_cache db) = Inr (db_cache db')" "db_wal db' = wal"
    "engine_path (db_engine db') = engine_path (db_engine db)" by auto
  with a show ?thesis
    by (intro exI [of _ db'] exI [of _ rid] exI [of _ ?r]) (simp add: db_put_def)
qed

text \<open>
  A run of a session against the map \<open>m\<close>: an invariant \<open>I\<close> of the operations to come, the database and the map gives
  the relation \<open>R\<close> between what each operation returns and what the map says.
\<close>

definition answers :: "(bytes option \<Rightarrow> bytes option \<Rightarrow> bool) \<Rightarrow> bytes option result list \<Rightarrow> bytes option list \<Rightarrow> bool" where
  "answers R rs ss \<longleftrightarrow> list_all2 (\<lambda>r s. \<exists>x. r = Inr x \<and> R x s) rs ss"

lemma answers_simps [simp]: "answers R [] []" "answers R (Inr x # rs) (y # ss) \<longleftrightarrow> R x y \<and> answers R rs ss"
  by (simp_all add: answers_def)

lemma answers_eq: "answers (=) rs ss \<longleftrightarrow> rs = map Inr ss"
  unfolding answers_def by (induction rs arbitrary: ss) (auto simp: list_all2_Cons1)

text \<open>What a get leaves of the record cache and of the index.\<close>

definition got :: "kv list list \<Rightarrow> bytes \<Rightarrow> database \<Rightarrow> database \<Rightarrow> bool" where
  "got rss k db db1 \<longleftrightarrow> db_index db1 = db_index db \<and> (\<exists>c. lru_get k (db_cache db) = Inr (cached db k, c) \<and>
     lru_usable c \<and> map_of (lru_view c) = cached db \<and> lc_capacity c = lc_capacity (db_cache db) \<and>
     (db_cache db1 = c \<or> (\<exists>v. found rss db k = Some v \<and> lru_put None k v c = Inr (db_cache db1))))"

text \<open>What a put does to them.\<close>

definition stored :: "kv list list \<Rightarrow> bytes \<Rightarrow> bytes \<Rightarrow> database \<Rightarrow> database \<Rightarrow> bool" where
  "stored rss k v db db1 \<longleftrightarrow> lru_usable (db_cache db) \<and>
     (\<exists>rid. db_index db1 = (db_index db)(k \<mapsto> rid) \<and> record_at rss rid = None) \<and>
     lru_put None k v (db_cache db) = Inr (db_cache db1)"

lemma db_run_inv:
  assumes put: "\<And>k v ops db db1 m. I (DbPut k v # ops) db m \<Longrightarrow> stored rss k v db db1 \<Longrightarrow> I ops db1 (m(k \<mapsto> v))"
    and get: "\<And>k ops db db1 m. I (DbGet k # ops) db m \<Longrightarrow> lru_usable (db_cache db) \<Longrightarrow> got rss k db db1 \<Longrightarrow>
      R (found rss db k) (m k) \<and> I ops db1 m"
    and none: "R None None"
    and "db_ok rss log db" and "wal_is_open (db_wal db)" and "wal_file (db_wal db) = Some (f @ concat (map wal_encode_record ws))"
    and "\<forall>x \<in> set (puts_of ops). fits_page x" and "length (fst log) + length (puts_of ops) + 1 < 4294967296"
    and "I ops db m"
  shows "\<exists>db' ws'. answers R (fst (db_run ops db)) (fst (spec_ops ops m)) \<and> snd (db_run ops db) = db' \<and>
    db_ok rss (place_all (puts_of ops) log) db' \<and> map kv_of ws' = puts_of ops \<and> wal_is_open (db_wal db') \<and>
    wal_file (db_wal db') = Some (f @ concat (map wal_encode_record (ws @ ws'))) \<and>
    engine_path (db_engine db') = engine_path (db_engine db) \<and> I [] db' (snd (spec_ops ops m))"
  using assms(4-9)
proof (induction ops arbitrary: db log ws m)
  case Nil
  then show ?case by (intro exI [of _ db] exI [of _ "[]"]) simp
next
  case (Cons x ops)
  show ?case
  proof (cases x)
    case (DbPut k v)
    have fits: "fits_page (k, v)" and few: "Suc (length (fst log)) < 4294967296"
      using Cons.prems(4,5) by (simp_all add: DbPut)
    obtain db1 rid r where s: "db_put k v db = (Inr (), db1)" "db_ok rss (place (k, v) log) db1"
      "db_index db1 = (db_index db)(k \<mapsto> rid)" "record_at rss rid = None"
      "lru_put None k v (db_cache db) = Inr (db_cache db1)" "kv_of r = (k, v)" "wal_is_open (db_wal db1)"
      "wal_file (db_wal db1) = Some (f @ concat (map wal_encode_record (ws @ [r])))"
      "engine_path (db_engine db1) = engine_path (db_engine db)"
      using db_put_ok [OF Cons.prems(1) fits few Cons.prems(2,3)] by auto
    have "stored rss k v db db1" using s(3-5) db_okD(7) [OF Cons.prems(1)] by (auto simp: stored_def)
    with put Cons.prems(6) have "I ops db1 (m(k \<mapsto> v))" by (auto simp: DbPut)
    moreover have "length (fst (place (k, v) log)) + length (puts_of ops) + 1 < 4294967296" "\<forall>x \<in> set (puts_of ops). fits_page x"
      using Cons.prems(4,5) by (simp_all add: DbPut place_def)
    ultimately obtain db' ws' where "answers R (fst (db_run ops db1)) (fst (spec_ops ops (m(k \<mapsto> v))))" "snd (db_run ops db1) = db'"
      "db_ok rss (place_all (puts_of ops) (place (k, v) log)) db'" "map kv_of ws' = puts_of ops" "wal_is_open (db_wal db')"
      "wal_file (db_wal db') = Some (f @ concat (map wal_encode_record ((ws @ [r]) @ ws')))"
      "engine_path (db_engine db') = engine_path (db_engine db1)" "I [] db' (snd (spec_ops ops (m(k \<mapsto> v))))"
      using Cons.IH [OF s(2,7,8)] by blast
    with s(1,6,9) none show ?thesis
      by (intro exI [of _ db'] exI [of _ "r # ws'"]) (simp add: DbPut case_prod_unfold Let_def)
  next
    case (DbGet k)
    obtain db1 where g: "db_get k db = (Inr (found rss db k), db1)" "db_ok rss log db1" "got rss k db db1"
      "db_wal db1 = db_wal db" "engine_path (db_engine db1) = engine_path (db_engine db)"
      using db_get_ok [OF Cons.prems(1), of k] unfolding got_def by blast
    have R: "R (found rss db k) (m k)" "I ops db1 m"
      using get [OF _ db_okD(7) [OF Cons.prems(1)] g(3)] Cons.prems(6) by (auto simp: DbGet)
    obtain db' ws' where "answers R (fst (db_run ops db1)) (fst (spec_ops ops m))" "snd (db_run ops db1) = db'"
      "db_ok rss (place_all (puts_of ops) log) db'" "map kv_of ws' = puts_of ops" "wal_is_open (db_wal db')"
      "wal_file (db_wal db') = Some (f @ concat (map wal_encode_record (ws @ ws')))"
      "engine_path (db_engine db') = engine_path (db_engine db1)" "I [] db' (snd (spec_ops ops m))"
      using Cons.IH [OF g(2) _ _ _ _ R(2), of ws] Cons.prems g(4) by (auto simp: DbGet)
    with g(1,5) R(1) show ?thesis
      by (intro exI [of _ db'] exI [of _ ws']) (simp add: DbGet case_prod_unfold Let_def)
  qed
qed

lemma db_run_ok:
  assumes put: "\<And>k v ops db db1 m. I (DbPut k v # ops) db m \<Longrightarrow> stored rss k v db db1 \<Longrightarrow> I ops db1 (m(k \<mapsto> v))"
    and get: "\<And>k ops db db1 m. I (DbGet k # ops) db m \<Longrightarrow> lru_usable (db_cache db) \<Longrightarrow> got rss k db db1 \<Longrightarrow>
      R (found rss db k) (m k) \<and> I ops db1 m"
    and none: "R None None"
    and "db_ok rss log db" and "wal_is_open (db_wal db)" and "wal_file (db_wal db) = Some (f @ concat (map wal_encode_record ws))"
    and "\<forall>x \<in> set (puts_of ops). fits_page x" and "length (fst log) + length (puts_of ops) + 1 < 4294967296"
    and "I ops db m"
  shows "\<exists>db' ws'. answers R (fst (db_run ops db)) (fst (spec_ops ops m)) \<and> snd (db_run ops db) = db' \<and>
    db_ok rss (place_all (puts_of ops) log) db' \<and> map kv_of ws' = puts_of ops \<and> wal_is_open (db_wal db') \<and>
    wal_file (db_wal db') = Some (f @ concat (map wal_encode_record (ws @ ws'))) \<and>
    engine_path (db_engine db') = engine_path (db_engine db)"
proof -
  have "\<exists>db' ws'. answers R (fst (db_run ops db)) (fst (spec_ops ops m)) \<and> snd (db_run ops db) = db' \<and>
      db_ok rss (place_all (puts_of ops) log) db' \<and> map kv_of ws' = puts_of ops \<and> wal_is_open (db_wal db') \<and>
      wal_file (db_wal db') = Some (f @ concat (map wal_encode_record (ws @ ws'))) \<and>
      engine_path (db_engine db') = engine_path (db_engine db) \<and> I [] db' (snd (spec_ops ops m))"
    by (rule db_run_inv [where I = I]) (fact assms)+
  then show ?thesis by blast
qed

text \<open>While the keys fit the record cache, it forgets nothing and the database is a map.\<close>

definition within :: "kv list list \<Rightarrow> bytes set \<Rightarrow> db_op list \<Rightarrow> database \<Rightarrow> (bytes \<rightharpoonup> bytes) \<Rightarrow> bool" where
  "within rss K ops db m \<longleftrightarrow> found rss db = m \<and> dom m \<union> fst ` set (puts_of ops) \<subseteq> K \<and> finite K \<and>
     card K \<le> lc_capacity (db_cache db)"

lemma within_put:
  assumes w: "within rss K (DbPut k v # ops) db m" and s: "stored rss k v db db1"
  shows "within rss K ops db1 (m(k \<mapsto> v))"
proof -
  have u: "lru_usable (db_cache db)" using s by (simp add: stored_def)
  have K: "dom (cached db) \<subseteq> K" "finite K" "card K \<le> lc_capacity (db_cache db)" "k \<in> K" "found rss db = m"
    using w by (auto simp: within_def found_def)
  have c1: "cached db1 = (cached db)(k \<mapsto> v)" "lc_capacity (db_cache db1) = lc_capacity (db_cache db)"
    using sized_lru.put_within [OF u K(1-4), of None v] s by (auto simp: stored_def)
  have "found rss db1 q = ((found rss db)(k \<mapsto> v)) q" for q
    using s by (cases "q = k") (auto simp: found_cached c1(1) stored_def intro: found_cong)
  then have "found rss db1 = m(k \<mapsto> v)" unfolding K(5) by blast
  with w c1(2) show ?thesis by (auto simp: within_def)
qed

lemma within_get:
  assumes w: "within rss K (DbGet k # ops) db m" and g: "got rss k db db1"
  shows "found rss db k = m k \<and> within rss K ops db1 m"
proof -
  have K: "dom (cached db) \<subseteq> K" "finite K" "card K \<le> lc_capacity (db_cache db)" "found rss db = m" "dom m \<subseteq> K"
    using w by (auto simp: within_def found_def)
  obtain c where c: "db_index db1 = db_index db" "lru_usable c" "map_of (lru_view c) = cached db"
    "lc_capacity c = lc_capacity (db_cache db)"
    "db_cache db1 = c \<or> (\<exists>v. found rss db k = Some v \<and> lru_put None k v c = Inr (db_cache db1))"
    using g by (auto simp: got_def)
  have "lc_capacity (db_cache db1) = lc_capacity (db_cache db) \<and> (\<forall>q. found rss db1 q = found rss db q)"
  proof (cases "db_cache db1 = c")
    case True
    with c show ?thesis by (auto intro: found_cong)
  next
    case False
    then obtain v where v: "found rss db k = Some v" "lru_put None k v c = Inr (db_cache db1)" using c(5) by blast
    then have "k \<in> K" using K(4,5) by auto
    with sized_lru.put_within [OF c(2), of K k None v] v(2) K(1-3) c(3,4)
    have "cached db1 = (cached db)(k \<mapsto> v)" "lc_capacity (db_cache db1) = lc_capacity (db_cache db)" by auto
    moreover have "found rss db1 q = found rss db q" for q
      by (cases "q = k") (use v(1) c(1) calculation(1) in \<open>auto simp: found_cached intro: found_cong\<close>)
    ultimately show ?thesis by blast
  qed
  with w show ?thesis by (auto simp: within_def fun_eq_iff)
qed

lemma db_run_within:
  assumes "db_ok rss log db" and "wal_is_open (db_wal db)" and "wal_file (db_wal db) = Some (concat (map wal_encode_record ws))"
    and "\<forall>x \<in> set (puts_of ops). fits_page x" and "length (fst log) + length (puts_of ops) + 1 < 4294967296"
    and "dom (found rss db) \<union> fst ` set (puts_of ops) \<subseteq> K" and "finite K" and "card K \<le> lc_capacity (db_cache db)"
  shows "\<exists>db' ws'. db_run ops db = (map Inr (fst (spec_ops ops (found rss db))), db') \<and>
    db_ok rss (place_all (puts_of ops) log) db' \<and> map kv_of ws' = puts_of ops \<and>
    wal_file (db_wal db') = Some (concat (map wal_encode_record (ws @ ws'))) \<and>
    engine_path (db_engine db') = engine_path (db_engine db)"
proof -
  have "within rss K ops db (found rss db)" using assms(6-8) by (simp add: within_def)
  note run = db_run_ok [where I = "within rss K" and R = "(=)" and f = "[]" and rss = rss and log = log and db = db
      and ws = ws and ops = ops and m = "found rss db"]
  from within_put within_get \<open>within rss K ops db (found rss db)\<close>
  have "\<exists>db' ws'. answers (=) (fst (db_run ops db)) (fst (spec_ops ops (found rss db))) \<and> snd (db_run ops db) = db' \<and>
      db_ok rss (place_all (puts_of ops) log) db' \<and> map kv_of ws' = puts_of ops \<and> wal_is_open (db_wal db') \<and>
      wal_file (db_wal db') = Some ([] @ concat (map wal_encode_record (ws @ ws'))) \<and>
      engine_path (db_engine db') = engine_path (db_engine db)"
    by (intro run) (use assms(1-5) in auto)
  then show ?thesis unfolding answers_eq by (auto simp: prod_eq_iff)
qed

end
