(* ===== verification/Database_Sessions.thy ===== *)
theory Database_Sessions
  imports Database
begin

text \<open>
  Histories of a database (\<open>src/src/db/database.{h,cpp}\<close>): sessions that end with the destructor or with a crash,
  one after the other on the same files, and what clients of the database can rely on.
\<close>

section \<open>Histories of sessions\<close>

datatype session_end = Closed | Crashed

type_synonym session = "environment \<times> db_op list \<times> session_end"

text \<open>
  The database is opened, used and then destroyed or lost with its memory in a crash between two operations;
  the next session works on the files this one leaves.
\<close>

primrec run_sessions ::
  "string \<Rightarrow> nat \<Rightarrow> nat \<Rightarrow> session list \<Rightarrow> os \<Rightarrow> bytes option result list result list" where
  "run_sessions path pc_size rc_size [] sys = []"
| "run_sessions path pc_size rc_size (s # ss) sys =
     (case s of (env, ops, fin) \<Rightarrow>
       case db_open env path pc_size rc_size sys of
         (Inl e, sys1) \<Rightarrow> Inl e # run_sessions path pc_size rc_size ss sys1
       | (Inr db, _) \<Rightarrow>
           let (rs, db1) = db_run ops db
           in Inr rs # run_sessions path pc_size rc_size ss
                (case fin of Closed \<Rightarrow> db_close db1 | Crashed \<Rightarrow> db_crash db1))"

primrec spec_sessions :: "session list \<Rightarrow> (bytes \<rightharpoonup> bytes) \<Rightarrow> bytes option result list result list" where
  "spec_sessions [] m = []"
| "spec_sessions (s # ss) m =
     (case s of (env, ops, fin) \<Rightarrow>
       let (rs, m1) = spec_ops ops m in Inr (map Inr rs) # spec_sessions ss m1)"

definition all_puts :: "session list \<Rightarrow> kv list" where
  "all_puts ss = concat (map (\<lambda>(env, ops, fin). puts_of ops) ss)"

lemma place_all_append: "place_all (xs @ ys) log = place_all ys (place_all xs log)"
  by (induction xs arbitrary: log) auto

lemma place_all_extends: "\<exists>ys. fst (place_all xs log) = fst log @ ys"
proof (induction xs arbitrary: log)
  case (Cons x xs)
  obtain ys where "fst (place_all xs (place x log)) = fst (place x log) @ ys" using Cons.IH by blast
  then show ?case by (auto simp: place_def)
qed simp

lemma map_add_twice: "(m ++ n) ++ n = m ++ n"
  by (rule ext) (simp add: map_add_def split: option.split)

text \<open>Whatever part of the log reached the file, the file below the log is the old file below the log.\<close>

lemma latest_file_log:
  assumes "xs @ ys = kvs"
  shows "latest (old @ xs) ++ latest kvs = latest old ++ latest kvs"
proof -
  have "latest (old @ xs) ++ latest kvs = ((latest old ++ latest xs) ++ latest xs) ++ latest ys"
    using assms by (metis latest_simps(3) map_add_assoc)
  also have "\<dots> = latest old ++ latest kvs"
    using assms by (simp only: map_add_twice) (metis latest_simps(3) map_add_assoc)
  finally show ?thesis .
qed

lemma placed_records:
  assumes "\<forall>x \<in> set xs. fits_page x" and "length pages + length xs < 4294967295"
  shows "concat (log_pages (place_all xs (pages, []))) = concat pages @ xs"
    and "\<exists>ys zs. concat (fst (place_all xs (pages, []))) = concat pages @ ys \<and> ys @ zs = xs"
proof -
  have "log_small (length xs) (pages, [])" using assms(2) by (simp add: log_small_def used_def)
  from place_all_records(1) [OF this assms(1)]
  show recs: "concat (log_pages (place_all xs (pages, []))) = concat pages @ xs" by (simp add: log_pages_def)
  obtain ps where "fst (place_all xs (pages, [])) = pages @ ps"
    using place_all_extends [of xs "(pages, [])"] by auto
  with recs show "\<exists>ys zs. concat (fst (place_all xs (pages, []))) = concat pages @ ys \<and> ys @ zs = xs"
    by (auto simp: log_pages_def)
qed

text \<open>The files that a session leaves, with the log \<open>WS\<close> of all records \<open>X\<close> so far.\<close>

lemma session_end_files:
  assumes ok: "db_ok pages (place_all X (pages, [])) db" and path: "engine_path (db_engine db) = path"
    and wal: "wal_file (db_wal db) = Some (concat (map wal_encode_record WS))" "map kv_of WS = X"
    and fits: "\<forall>x \<in> set X. fits_page x" and small: "length pages + length X < 4294967295"
  shows "\<exists>pages'. files_hold path (case fin of Closed \<Rightarrow> db_close db | Crashed \<Rightarrow> db_crash db) pages' WS [] \<and>
    (\<forall>r \<in> set WS. fits_page (kv_of r)) \<and> length pages' \<le> Suc (length (fst (place_all X (pages, [])))) \<and>
    (\<exists>ys zs. concat pages' = concat pages @ ys \<and> ys @ zs = X \<and> (fin = Closed \<longrightarrow> ys = X))"
proof -
  let ?log = "place_all X (pages, [])" and ?sys = "case fin of Closed \<Rightarrow> db_close db | Crashed \<Rightarrow> db_crash db"
  note recs = placed_records [OF fits small]
  obtain pages' where p: "file_image (os_content ?sys path) pages'" "os_content ?sys (wal_path path) = concat (map wal_encode_record WS)"
    "length pages' \<le> Suc (length (fst ?log))"
    "\<exists>ys zs. concat pages' = concat pages @ ys \<and> ys @ zs = X \<and> (fin = Closed \<longrightarrow> ys = X)"
  proof (cases fin)
    case Closed
    obtain pages' where "file_image (os_content (db_close db) path) pages'" "concat pages' = concat (log_pages ?log)"
      "length pages' \<le> Suc (length (fst ?log))" "os_content (db_close db) (wal_path path) = concat (map wal_encode_record WS)"
      by (rule db_close_files [OF ok wal(1) path])
    with recs(1) show thesis by (intro that [of pages']) (auto simp: Closed)
  next
    case Crashed
    with db_crash_files [OF ok wal(1) path] recs(2) show thesis by (intro that [of "fst ?log"]) auto
  qed
  have "\<forall>r \<in> set WS. fits_page (kv_of r)" using fits unfolding wal(2) [symmetric] by auto
  with p fits_page_wal show ?thesis by (intro exI [of _ pages']) (auto simp: files_hold_def wal_entry_def)
qed

text \<open>One session: its results, and the files it leaves.\<close>

lemma session_ok:
  assumes env: "env_good env" and hold: "files_hold path sys pages ws []"
    and fits: "\<forall>r \<in> set ws. fits_page (kv_of r)" "\<forall>x \<in> set (puts_of ops). fits_page x"
    and few: "length pages + length ws + length (puts_of ops) < 2 ^ 20 - 1" and cap: "length pages \<le> pc_size"
    and rc: "0 < rc_size"
    and keys: "dom m \<union> fst ` set (puts_of ops) \<subseteq> K" "finite K" "card K \<le> rc_size"
    and m: "m = latest (concat pages) ++ latest (map kv_of ws)"
  shows "\<exists>db db'. db_open env path pc_size rc_size sys = (Inr db, db_files db) \<and>
    db_run ops db = (map Inr (fst (spec_ops ops m)), db') \<and>
    (\<exists>pages' ws'. files_hold path (case fin of Closed \<Rightarrow> db_close db' | Crashed \<Rightarrow> db_crash db') pages' ws' [] \<and>
      (\<forall>r \<in> set ws'. fits_page (kv_of r)) \<and> length ws' = length ws + length (puts_of ops) \<and>
      length pages' \<le> length pages + length ws + length (puts_of ops) + 1 \<and>
      snd (spec_ops ops m) = latest (concat pages') ++ latest (map kv_of ws'))"
proof -
  let ?X = "map kv_of ws @ puts_of ops"
  let ?log = "place_all ?X (pages, [])"
  have few1: "length pages + length ws < 2 ^ 20 - 1" using few by simp
  obtain db where o: "db_open env path pc_size rc_size sys = (Inr db, db_files db)"
    "db_ok pages (place_all (map kv_of ws) (pages, [])) db" "engine_path (db_engine db) = path"
    "wal_is_open (db_wal db)" "wal_file (db_wal db) = Some (os_content sys (wal_path path))"
    "lc_capacity (db_cache db) = rc_size" "found pages db = latest (concat pages) ++ cached db"
    "card (wr_key ` set ws) \<le> rc_size \<longrightarrow> cached db = latest (map kv_of ws)"
    using db_open_ok [OF env hold fits(1) few1 cap rc] by blast
  have "dom (latest (map kv_of ws)) = wr_key ` set ws"
    by (simp only: dom_latest set_map image_image fst_conv)
  then have "wr_key ` set ws \<subseteq> K" using keys(1) unfolding m dom_map_add by blast
  then have "card (wr_key ` set ws) \<le> rc_size" by (rule le_trans [OF card_mono [OF keys(2)] keys(3)])
  then have found: "found pages db = m" using o(7,8) m by simp
  have wal: "wal_file (db_wal db) = Some (concat (map wal_encode_record ws))"
    using o(5) hold by (simp add: files_hold_def)
  have len: "length (fst (place_all (map kv_of ws) (pages, []))) + length (puts_of ops) + 1 < 4294967296"
    using place_all_length [of "map kv_of ws" "(pages, [])"] few by simp
  obtain db' ws1 where r: "db_run ops db = (map Inr (fst (spec_ops ops m)), db')" "db_ok pages ?log db'"
    "map kv_of ws1 = puts_of ops" "wal_file (db_wal db') = Some (concat (map wal_encode_record (ws @ ws1)))"
    "engine_path (db_engine db') = path"
    using db_run_within [OF o(2,4) wal fits(2) len keys(1) [folded found] keys(2)] keys(3)
    unfolding o(3,6) found place_all_append by blast
  have X: "map kv_of (ws @ ws1) = ?X" "length ws1 = length (puts_of ops)" using r(3) length_map [of kv_of ws1] by simp_all
  have "\<forall>x \<in> set ?X. fits_page x" "length pages + length ?X < 4294967295" using fits few by auto
  from session_end_files [OF r(2,5,4) X(1) this, of fin] obtain pages' ys zs where
    p: "files_hold path (case fin of Closed \<Rightarrow> db_close db' | Crashed \<Rightarrow> db_crash db') pages' (ws @ ws1) []"
    "\<forall>r \<in> set (ws @ ws1). fits_page (kv_of r)" "length pages' \<le> Suc (length (fst ?log))"
    "concat pages' = concat pages @ ys" "ys @ zs = ?X" by blast
  have "snd (spec_ops ops m) = latest (concat pages') ++ latest (map kv_of (ws @ ws1))"
    using latest_file_log [OF p(5), of "concat pages"] unfolding p(4) X(1) by (simp add: spec_ops_map m)
  moreover have "length pages' \<le> length pages + length ws + length (puts_of ops) + 1"
    using p(3) place_all_length [of ?X "(pages, [])"] by simp
  ultimately show ?thesis using o(1) r(1) p(1,2) X(2) by (intro exI conjI) auto
qed

lemma sessions_ok:
  assumes "files_hold path sys pages ws []" and "\<forall>r \<in> set ws. fits_page (kv_of r)"
    and "\<forall>s \<in> set ss. env_good (fst s)" and "\<forall>x \<in> set (all_puts ss). fits_page x"
    and "length pages + length ss * (length ws + length (all_puts ss) + 1) < 2 ^ 20 - 1"
    and "length pages + length ss * (length ws + length (all_puts ss) + 1) \<le> pc_size"
    and "0 < rc_size" and "dom m \<union> fst ` set (all_puts ss) \<subseteq> K" "finite K" "card K \<le> rc_size"
    and "m = latest (concat pages) ++ latest (map kv_of ws)"
  shows "run_sessions path pc_size rc_size ss sys = spec_sessions ss m"
  using assms(1-6,8,11)
proof (induction ss arbitrary: sys pages ws m)
  case Nil
  then show ?case by simp
next
  case (Cons s ss)
  obtain env ops fin where s: "s = (env, ops, fin)" by (metis prod.collapse)
  let ?T = "length ws + length (all_puts (s # ss)) + 1"
  have puts: "all_puts (s # ss) = puts_of ops @ all_puts ss" by (simp add: all_puts_def s)
  have bound: "length pages + ?T + length ss * ?T < 2 ^ 20 - 1" "length pages + ?T + length ss * ?T \<le> pc_size"
    using Cons.prems(5,6) by (simp_all add: algebra_simps)
  have env: "env_good env" and fits: "\<forall>x \<in> set (puts_of ops). fits_page x" "\<forall>x \<in> set (all_puts ss). fits_page x"
    using Cons.prems(3) Cons.prems(4) [unfolded puts] by (auto simp: s)
  have few: "length pages + length ws + length (puts_of ops) < 2 ^ 20 - 1" and cap: "length pages \<le> pc_size"
    using bound puts by simp_all
  have keys: "dom m \<union> fst ` set (puts_of ops) \<subseteq> K" "fst ` set (all_puts ss) \<subseteq> K"
    using Cons.prems(7) by (auto simp: puts)
  obtain db db' pages' ws' where o: "db_open env path pc_size rc_size sys = (Inr db, db_files db)"
    "db_run ops db = (map Inr (fst (spec_ops ops m)), db')"
    "files_hold path (case fin of Closed \<Rightarrow> db_close db' | Crashed \<Rightarrow> db_crash db') pages' ws' []"
    "\<forall>r \<in> set ws'. fits_page (kv_of r)" "length ws' = length ws + length (puts_of ops)"
    "length pages' \<le> length pages + length ws + length (puts_of ops) + 1"
    "snd (spec_ops ops m) = latest (concat pages') ++ latest (map kv_of ws')"
    using session_ok [OF env Cons.prems(1,2) fits(1) few cap assms(7) keys(1) assms(9,10) Cons.prems(8), where fin = fin]
    by blast
  have T: "length ws' + length (all_puts ss) + 1 = ?T" using o(5) puts by simp
  have "dom (snd (spec_ops ops m)) \<union> fst ` set (all_puts ss) \<subseteq> K"
    using keys unfolding spec_ops_map dom_map_add dom_latest by blast
  moreover have "length pages' \<le> length pages + ?T" using o(6) puts by simp
  then have "length pages' + length ss * ?T < 2 ^ 20 - 1" "length pages' + length ss * ?T \<le> pc_size"
    using bound by linarith+
  ultimately have "run_sessions path pc_size rc_size ss
      (case fin of Closed \<Rightarrow> db_close db' | Crashed \<Rightarrow> db_crash db') = spec_sessions ss (snd (spec_ops ops m))"
    using Cons.IH [OF o(3,4) _ fits(2), unfolded T] Cons.prems(3) o(7) by simp
  then show ?case using o(1,2) by (cases fin) (simp_all add: s case_prod_unfold Let_def)
qed

section \<open>Properties\<close>

text \<open>Surroundings where every system call succeeds.\<close>

definition good_env :: "nat list list \<Rightarrow> environment" where
  "good_env schedule = \<lparr>env_fd = 3, env_stat = True, env_mmap = True, env_writer = True, env_wal = True,
     env_wal_reopen = True, env_obs = (\<lambda>_. observer_new 4), env_observer = None, env_schedule = schedule\<rparr>"

lemma good_env_good [simp]: "env_good (good_env schedule)"
  by (simp add: env_good_def good_env_def)

lemma no_files_hold: "files_hold path no_files [] [] []"
  by (simp add: files_hold_def no_files_def os_content_def file_image_Nil wal_entry_def)

lemma fits_small: "length k + length v \<le> 4021 \<Longrightarrow> fits_page (k, v)"
  by (simp add: fits_page_def has_room_def used_def rec_size_def)

text \<open>
  C1: The database is a durable map. Over any sequence of sessions on its files, each opened, used by puts and
  gets and then destroyed or lost in a crash between two operations, with every schedule of prefetch threads,
  each get returns the latest value put for its key in this or any earlier session, or nothing when there was
  none, as long as the keys fit the record cache and the pages, which every session adds to, fit the pool.
\<close>

theorem database_is_durable_map:
  assumes "files_hold path sys pages ws []" and "\<forall>r \<in> set ws. fits_page (kv_of r)"
    and "\<forall>s \<in> set ss. env_good (fst s)" and "\<forall>x \<in> set (all_puts ss). fits_page x"
    and "length pages + length ss * (length ws + length (all_puts ss) + 1) < 2 ^ 20 - 1"
    and "length pages + length ss * (length ws + length (all_puts ss) + 1) \<le> pc_size"
    and "0 < rc_size"
    and "card (fst ` set (concat pages) \<union> wr_key ` set ws \<union> fst ` set (all_puts ss)) \<le> rc_size"
  shows "run_sessions path pc_size rc_size ss sys =
    spec_sessions ss (latest (concat pages) ++ latest (map kv_of ws))"
proof -
  let ?K = "fst ` set (concat pages) \<union> wr_key ` set ws \<union> fst ` set (all_puts ss)"
  have "dom (latest (concat pages) ++ latest (map kv_of ws)) \<union> fst ` set (all_puts ss) \<subseteq> ?K"
    unfolding dom_map_add dom_latest by auto
  from sessions_ok [OF assms(1-7) this _ assms(8) refl] show ?thesis by simp
qed

lemma database_is_durable_map_witness:
  "run_sessions ''db'' 20 2
     [(good_env [[]], [DbPut [1] [10], DbGet [1], DbPut [1] [11]], Crashed),
      (good_env [], [DbGet [1], DbGet [2], DbPut [2] [20]], Closed),
      (good_env [], [DbGet [1], DbGet [2]], Crashed)] no_files =
   [Inr [Inr None, Inr (Some [10]), Inr None], Inr [Inr (Some [11]), Inr None, Inr None],
    Inr [Inr (Some [11]), Inr (Some [20])]]"
proof -
  let ?ss = "[(good_env [[]], [DbPut [1] [10], DbGet [1], DbPut [1] [11]], Crashed),
      (good_env [], [DbGet [1], DbGet [2], DbPut [2] [20]], Closed),
      (good_env [], [DbGet [1], DbGet [2]], Crashed)]"
  have puts: "all_puts ?ss = [([1], [10]), ([1], [11]), ([2], [20])]" by (simp add: all_puts_def)
  have "run_sessions ''db'' 20 2 ?ss no_files = spec_sessions ?ss (latest (concat []) ++ latest (map kv_of []))"
    by (rule database_is_durable_map [OF no_files_hold]) (simp_all add: puts fits_small)
  then show ?thesis by simp
qed

text \<open>Files of a database with one page of records, for witnesses.\<close>

lemma one_page_file:
  assumes "rs \<noteq> []" and "\<forall>x \<in> set rs. fits_page x" and "used rs \<le> 4096" and "\<forall>r \<in> set ws. wal_fits r"
    and "wal_entry tail = None"
  shows "\<exists>sys. files_hold path sys [rs] ws tail"
proof -
  have room: "used (as @ bs) \<le> 4096 \<Longrightarrow> place_all bs ([], as) = ([], as @ bs)" for as bs
  proof (induction bs arbitrary: as)
    case (Cons b bs)
    then have "used (as @ [b]) \<le> 4096" by (simp add: used_def heap_size_def)
    then have "has_room as b" by (simp add: has_room_def used_def)
    with Cons show ?case by (simp add: place_def)
  qed simp
  obtain w where "log_ok w [] []" using log_ok_open_new by blast
  moreover have "log_small (length rs) ([], [])" using length_used [OF assms(3)] by (simp add: log_small_def used_def)
  ultimately obtain w' where "log_ok w' [] rs"
    using append_all_ok [of w "([], [])" rs] assms(2) room [of "[]" rs] assms(3) by auto
  then have "file_image (writer_close w') [rs]" using writer_close_image assms(1) by fastforce
  then show ?thesis
    using assms(4,5)
    by (intro exI [of _ "\<lparr>os_files = [path \<mapsto> writer_close w', wal_path path \<mapsto> concat (map wal_encode_record ws) @ tail],
        os_fds = Map.empty\<rparr>"]) (simp add: files_hold_def os_content_def)
qed

lemma get_opened:
  assumes "db_ok rss log db"
  shows "fst (db_get k db) = Inr (found rss db k)"
  using db_get_ok [OF assms, of k] by auto


definition logged :: "u64 \<Rightarrow> bytes \<Rightarrow> bytes \<Rightarrow> wal_record" where
  "logged l k v = \<lparr>wr_lsn = l, wr_key = k, wr_value = v\<rparr>"

lemma logged_simps [simp]: "wr_lsn (logged l k v) = l" "wr_key (logged l k v) = k" "wr_value (logged l k v) = v"
  by (simp_all add: logged_def)


lemma dom_index_of_records: "dom (index_of_records (all_records pages)) = fst ` set (concat pages)"
proof -
  have "dom (index_of_records xs) = fst ` set (map snd xs)" for xs
    by (simp add: index_of_records_def dom_map_of_conv_image_fst image_image)
  then show ?thesis by (simp only: all_records_values)
qed

text \<open>
  The number of records that a database reports after it is opened on a file that is not empty is the
  number of distinct keys in the file: keys that only the log holds are found by \<open>get\<close> but not counted.
\<close>

theorem record_count_counts_file_keys:
  assumes "env_good env" and "files_hold path sys pages ws tail" and "\<forall>r \<in> set ws. fits_page (kv_of r)"
    and "length pages + length ws < 2 ^ 20 - 1" and "length pages \<le> pc_size" and "0 < rc_size"
    and "pages \<noteq> []"
  shows "\<exists>db. db_open env path pc_size rc_size sys = (Inr db, db_files db) \<and>
    get_record_count db = card (fst ` set (concat pages))"
proof -
  obtain db where "db_open env path pc_size rc_size sys = (Inr db, db_files db)"
    "db_index db = index_of_records (all_records pages)"
    using db_open_ok [OF assms(1-6)] assms(7) by blast
  then show ?thesis by (auto simp: get_record_count_def index_size_def dom_index_of_records)
qed

lemma record_count_counts_file_keys_witness:
  "\<exists>sys db. files_hold ''db'' sys [[([1], [10])]] [logged 1 [1] [10], logged 2 [2] [20]] [] \<and>
    db_open (good_env []) ''db'' 4 2 sys = (Inr db, db_files db) \<and> get_record_count db = 1"
proof -
  let ?rs = "[([1], [10])] :: kv list" and ?ws = "[logged 1 [1] [10], logged 2 [2] [20]]"
  obtain sys where sys: "files_hold ''db'' sys [?rs] ?ws []"
    using one_page_file [of ?rs ?ws "[]"]
    by (auto simp: fits_small used_def heap_size_def rec_size_def wal_fits_def wal_entry_def)
  have "\<exists>db. db_open (good_env []) ''db'' 4 2 sys = (Inr db, db_files db) \<and>
      get_record_count db = card (fst ` set (concat [?rs]))"
    by (rule record_count_counts_file_keys [OF _ sys]) (simp_all add: fits_small)
  with sys show ?thesis by auto
qed

text \<open>
  Neither the record cache nor the index contradicts the map \<open>m\<close>, although not every key of \<open>m\<close> need be found.
\<close>

definition coherent :: "kv list list \<Rightarrow> database \<Rightarrow> (bytes \<rightharpoonup> bytes) \<Rightarrow> bool" where
  "coherent rss db m \<longleftrightarrow> cached db \<subseteq>\<^sub>m m \<and> indexed rss (db_index db) \<subseteq>\<^sub>m m"

lemma coherent_found: "coherent rss db m \<Longrightarrow> found rss db k = None \<or> found rss db k = m k"
  by (auto simp: coherent_def found_indexed map_add_def map_le_def dom_def split: option.splits)

lemma coherent_put:
  assumes co: "coherent rss db m" and s: "stored rss key val db db'"
  shows "coherent rss db' (m(key \<mapsto> val))"
proof -
  have u: "lru_usable (db_cache db)" using s by (simp add: stored_def)
  have "cached db' \<subseteq>\<^sub>m m(key \<mapsto> val)"
    using lru.put_coherent [OF u, of m None key val] co s by (auto simp: coherent_def stored_def)
  moreover have "indexed rss (db_index db') = (indexed rss (db_index db))(key := None)"
    using s by (auto simp: stored_def indexed_insert)
  ultimately show ?thesis using co by (auto simp: coherent_def map_le_def)
qed

lemma coherent_get:
  assumes co: "coherent rss db m" and g: "got rss k db db'"
  shows "coherent rss db' m"
proof -
  obtain c where c: "db_index db' = db_index db" "lru_usable c" "map_of (lru_view c) = cached db"
    "db_cache db' = c \<or> (\<exists>v. found rss db k = Some v \<and> lru_put None k v c = Inr (db_cache db'))"
    using g by (auto simp: got_def)
  have view: "map_of (lru_view c) \<subseteq>\<^sub>m m" using co c(3) by (simp add: coherent_def)
  have "cached db' \<subseteq>\<^sub>m m"
    using c(4)
  proof
    assume "\<exists>v. found rss db k = Some v \<and> lru_put None k v c = Inr (db_cache db')"
    then obtain v where "m k = Some v" "lru_put None k v c = Inr (db_cache db')" using coherent_found [OF co, of k] by auto
    then show ?thesis using lru.refill_coherent [OF c(2) view, of k v None] by auto
  qed (use view in simp)
  with co c(1) show ?thesis by (simp add: coherent_def)
qed

text \<open>An opened database finds through its index exactly the records of its file.\<close>

lemma indexed_opened:
  assumes image: "store_image en pages" and index: "pages \<noteq> [] \<longrightarrow> db_index db = index_of_records (all_records pages)"
  shows "indexed pages (db_index db) = latest (concat pages)"
proof (cases "pages = []")
  case True
  then show ?thesis by (simp add: fun_eq_iff indexed_def record_at_def split: option.split)
next
  case False
  then have idx: "db_index db = index_of_records (all_records pages)" using index by simp
  show ?thesis
  proof
    fix k
    note il = index_latest [of "all_records pages" k]
    show "indexed pages (db_index db) k = latest (concat pages) k"
    proof (cases "index_of_records (all_records pages) k")
      case None
      with il show ?thesis by (simp add: idx indexed_def all_records_values)
    next
      case (Some rid)
      with il obtain v where "(rid, (k, v)) \<in> set (all_records pages)" "latest (concat pages) k = Some v"
        by (auto simp: all_records_values)
      with record_at_all_records [OF image this(1)] Some show ?thesis by (simp add: idx indexed_def)
    qed
  qed
qed

lemma coherent_opened:
  assumes "store_image en pages" and "pages \<noteq> [] \<longrightarrow> db_index db = index_of_records (all_records pages)"
    and "cached db \<subseteq>\<^sub>m latest (concat pages)"
  shows "coherent pages db (latest (concat pages))"
  using assms(3) indexed_opened [OF assms(1,2)] by (simp add: coherent_def)

text \<open>
  A session that gets no key which it has put itself: then the record cache does not matter, since the index leads
  to every record that the file had when the session began.
\<close>

primrec fresh_reads :: "bytes set \<Rightarrow> db_op list \<Rightarrow> bool" where
  "fresh_reads S [] = True"
| "fresh_reads S (x # xs) =
     (case x of DbPut k v \<Rightarrow> fresh_reads (insert k S) xs | DbGet k \<Rightarrow> k \<notin> S \<and> fresh_reads S xs)"

definition fresh :: "kv list list \<Rightarrow> db_op list \<Rightarrow> database \<Rightarrow> (bytes \<rightharpoonup> bytes) \<Rightarrow> bool" where
  "fresh rss ops db m \<longleftrightarrow> coherent rss db m \<and>
     (\<exists>S. fresh_reads S ops \<and> (\<forall>q. q \<notin> S \<longrightarrow> indexed rss (db_index db) q = m q))"

lemma fresh_put:
  assumes f: "fresh rss (DbPut k v # ops) db m" and s: "stored rss k v db db1"
  shows "fresh rss ops db1 (m(k \<mapsto> v))"
proof -
  obtain S where S: "fresh_reads (insert k S) ops" "\<forall>q. q \<notin> S \<longrightarrow> indexed rss (db_index db) q = m q" and co: "coherent rss db m"
    using f by (auto simp: fresh_def)
  have "indexed rss (db_index db1) = (indexed rss (db_index db))(k := None)" using s by (auto simp: stored_def indexed_insert)
  with S coherent_put [OF co s] show ?thesis unfolding fresh_def by (intro conjI exI [of _ "insert k S"]) auto
qed

lemma fresh_get:
  assumes f: "fresh rss (DbGet k # ops) db m" and g: "got rss k db db1"
  shows "found rss db k = m k \<and> fresh rss ops db1 m"
proof -
  obtain S where S: "k \<notin> S" "fresh_reads S ops" "\<forall>q. q \<notin> S \<longrightarrow> indexed rss (db_index db) q = m q" and co: "coherent rss db m"
    using f by (auto simp: fresh_def)
  have "cached db k = None \<or> cached db k = m k" using co by (auto simp: coherent_def map_le_def dom_def)
  then have "found rss db k = m k" using S(1,3) by (auto simp: found_indexed map_add_def split: option.split)
  moreover have "db_index db1 = db_index db" using g by (simp add: got_def)
  ultimately show ?thesis using coherent_get [OF co g] S(2,3) by (auto simp: fresh_def)
qed

lemma closed_session_ok:
  assumes env: "env_good env" and hold: "files_hold path sys pages ws []"
    and fits: "\<forall>r \<in> set ws. fits_page (kv_of r)" "\<forall>x \<in> set (puts_of ops). fits_page x"
    and few: "length pages + length ws + length (puts_of ops) < 2 ^ 20 - 1" and cap: "length pages \<le> pc_size"
    and rc: "0 < rc_size" and logged: "latest (map kv_of ws) \<subseteq>\<^sub>m latest (concat pages)" and reads: "fresh_reads {} ops"
  shows "\<exists>db db'. db_open env path pc_size rc_size sys = (Inr db, db_files db) \<and>
    db_run ops db = (map Inr (fst (spec_ops ops (latest (concat pages)))), db') \<and>
    (\<exists>pages' ws'. files_hold path (db_close db') pages' ws' [] \<and> (\<forall>r \<in> set ws'. fits_page (kv_of r)) \<and>
      length ws' = length ws + length (puts_of ops) \<and> length pages' \<le> Suc (length (fst (place_all (map kv_of ws @ puts_of ops) (pages, [])))) \<and>
      concat pages' = concat pages @ map kv_of ws @ puts_of ops \<and> map kv_of ws' = map kv_of ws @ puts_of ops)"
proof -
  let ?X = "map kv_of ws @ puts_of ops"
  let ?log = "place_all ?X (pages, [])"
  have few1: "length pages + length ws < 2 ^ 20 - 1" using few by simp
  obtain db where o: "db_open env path pc_size rc_size sys = (Inr db, db_files db)"
    "db_ok pages (place_all (map kv_of ws) (pages, [])) db" "engine_path (db_engine db) = path"
    "wal_is_open (db_wal db)" "wal_file (db_wal db) = Some (os_content sys (wal_path path))"
    "cached db \<subseteq>\<^sub>m latest (map kv_of ws)" "pages \<noteq> [] \<longrightarrow> db_index db = index_of_records (all_records pages)"
    using db_open_ok [OF env hold fits(1) few1 cap rc] by blast
  have wal: "wal_file (db_wal db) = Some ([] @ concat (map wal_encode_record ws))"
    using o(5) hold by (simp add: files_hold_def)
  have len: "length (fst (place_all (map kv_of ws) (pages, []))) + length (puts_of ops) + 1 < 4294967296"
    using place_all_length [of "map kv_of ws" "(pages, [])"] few by simp
  have "coherent pages db (latest (concat pages))"
    using coherent_opened [OF db_okD(2) [OF o(2)] o(7)] map_le_trans [OF o(6) logged] by blast
  then have "fresh pages ops db (latest (concat pages))"
    using reads indexed_opened [OF db_okD(2) [OF o(2)] o(7)] by (auto simp: fresh_def)
  then have "\<exists>db' ws'. answers (=) (fst (db_run ops db)) (fst (spec_ops ops (latest (concat pages)))) \<and> snd (db_run ops db) = db' \<and>
      db_ok pages (place_all (puts_of ops) (place_all (map kv_of ws) (pages, []))) db' \<and> map kv_of ws' = puts_of ops \<and>
      wal_is_open (db_wal db') \<and> wal_file (db_wal db') = Some ([] @ concat (map wal_encode_record (ws @ ws'))) \<and>
      engine_path (db_engine db') = engine_path (db_engine db)"
    using fresh_put fresh_get o(2,4) wal fits(2) len by (intro db_run_ok [where I = "fresh pages"]) auto
  then obtain db' ws' where r: "db_run ops db = (map Inr (fst (spec_ops ops (latest (concat pages)))), db')"
    "db_ok pages ?log db'" "map kv_of ws' = puts_of ops" "wal_file (db_wal db') = Some (concat (map wal_encode_record (ws @ ws')))"
    "engine_path (db_engine db') = path"
    using o(3) unfolding answers_eq place_all_append by (auto simp: prod_eq_iff)
  have X: "map kv_of (ws @ ws') = ?X" "length ws' = length (puts_of ops)" using r(3) length_map [of kv_of ws'] by simp_all
  have "\<forall>x \<in> set ?X. fits_page x" "length pages + length ?X < 4294967295" using fits few by auto
  from session_end_files [OF r(2,5,4) X(1) this, of Closed] obtain pages' where
    "files_hold path (db_close db') pages' (ws @ ws') []" "\<forall>r \<in> set (ws @ ws'). fits_page (kv_of r)"
    "length pages' \<le> Suc (length (fst ?log))" "concat pages' = concat pages @ ?X" by auto
  with o(1) r(1) X show ?thesis by (intro exI conjI) auto
qed

lemma latest_closed:
  assumes "latest xs \<subseteq>\<^sub>m latest old"
  shows "latest (old @ xs @ ys) = latest old ++ latest ys" "latest (xs @ ys) \<subseteq>\<^sub>m latest (old @ xs @ ys)"
proof -
  have old: "latest old ++ latest xs = latest old"
    using assms by (auto simp: map_add_def map_le_def dom_def fun_eq_iff split: option.split)
  then show "latest (old @ xs @ ys) = latest old ++ latest ys" by (metis latest_simps(3) map_add_assoc)
  then show "latest (xs @ ys) \<subseteq>\<^sub>m latest (old @ xs @ ys)"
    using assms by (auto simp: map_le_def map_add_def dom_def split: option.splits)
qed

text \<open>
  C3: The record cache is only a cache. Over any sequence of sessions that end with the destructor and in which
  no client gets a key that it has put in the same session, each get returns the latest value put for its key in
  an earlier session, or what the files held at first, or nothing, even with a record cache of one entry: the
  destructor writes every record to the file and the next session indexes the whole file. No assumption relates
  the number of keys to the size of the record cache.
\<close>

theorem closed_sessions_need_no_cache:
  assumes "files_hold path sys pages ws []" and "\<forall>r \<in> set ws. fits_page (kv_of r)"
    and "\<forall>(env, ops, fin) \<in> set ss. env_good env \<and> fin = Closed \<and> fresh_reads {} ops"
    and "\<forall>x \<in> set (all_puts ss). fits_page x"
    and "length pages + length ss * (length ws + length (all_puts ss) + 1) < 2 ^ 20 - 1"
    and "length pages + length ss * (length ws + length (all_puts ss) + 1) \<le> pc_size"
    and "0 < rc_size" and "latest (map kv_of ws) \<subseteq>\<^sub>m latest (concat pages)"
  shows "run_sessions path pc_size rc_size ss sys = spec_sessions ss (latest (concat pages))"
  using assms(1-6,8)
proof (induction ss arbitrary: sys pages ws)
  case Nil
  then show ?case by simp
next
  case (Cons s ss)
  obtain env ops fin where s: "s = (env, ops, fin)" by (metis prod.collapse)
  let ?m = "latest (concat pages)" and ?T = "length ws + length (all_puts (s # ss)) + 1"
  have puts: "all_puts (s # ss) = puts_of ops @ all_puts ss" by (simp add: all_puts_def s)
  have bound: "length pages + ?T + length ss * ?T < 2 ^ 20 - 1" "length pages + ?T + length ss * ?T \<le> pc_size"
    using Cons.prems(5,6) by (simp_all add: algebra_simps)
  have env: "env_good env" "fin = Closed" "fresh_reads {} ops"
    and fits: "\<forall>x \<in> set (puts_of ops). fits_page x" "\<forall>x \<in> set (all_puts ss). fits_page x"
    using Cons.prems(3) Cons.prems(4) [unfolded puts] by (auto simp: s)
  have few: "length pages + length ws + length (puts_of ops) < 2 ^ 20 - 1" and cap: "length pages \<le> pc_size"
    using bound puts by simp_all
  obtain db db' pages' ws' where o: "db_open env path pc_size rc_size sys = (Inr db, db_files db)"
    "db_run ops db = (map Inr (fst (spec_ops ops ?m)), db')" "files_hold path (db_close db') pages' ws' []"
    "\<forall>r \<in> set ws'. fits_page (kv_of r)" "length ws' = length ws + length (puts_of ops)"
    "length pages' \<le> Suc (length (fst (place_all (map kv_of ws @ puts_of ops) (pages, []))))"
    "concat pages' = concat pages @ map kv_of ws @ puts_of ops" "map kv_of ws' = map kv_of ws @ puts_of ops"
    using closed_session_ok [OF env(1) Cons.prems(1,2) fits(1) few cap assms(7) Cons.prems(7) env(3)] by blast
  have T: "length ws' + length (all_puts ss) + 1 = ?T" using o(5) puts by simp
  have "length pages' \<le> length pages + ?T"
    using o(6) place_all_length [of "map kv_of ws @ puts_of ops" "(pages, [])"] puts by simp
  then have le: "length pages' + length ss * ?T < 2 ^ 20 - 1" "length pages' + length ss * ?T \<le> pc_size"
    using bound by linarith+
  have "latest (map kv_of ws') \<subseteq>\<^sub>m latest (concat pages')"
    unfolding o(7,8) by (rule latest_closed(2) [OF Cons.prems(7)])
  then have "run_sessions path pc_size rc_size ss (db_close db') = spec_sessions ss (latest (concat pages'))"
    using Cons.IH [OF o(3,4) _ fits(2), unfolded T] Cons.prems(3) le by simp
  moreover have "latest (concat pages') = snd (spec_ops ops ?m)"
    unfolding o(7) latest_closed(1) [OF Cons.prems(7)] by (simp add: spec_ops_map)
  ultimately show ?case using o(1,2) env(2) by (simp add: s case_prod_unfold Let_def)
qed

lemma closed_sessions_need_no_cache_witness:
  "run_sessions ''db'' 20 1
     [(good_env [[]], [DbPut [1] [10], DbPut [2] [20], DbPut [1] [11]], Closed),
      (good_env [], [DbGet [1], DbGet [2], DbGet [3], DbPut [3] [30]], Closed),
      (good_env [], [DbGet [3], DbGet [1], DbGet [2]], Closed)] no_files =
   [Inr [Inr None, Inr None, Inr None], Inr [Inr (Some [11]), Inr (Some [20]), Inr None, Inr None],
    Inr [Inr (Some [30]), Inr (Some [11]), Inr (Some [20])]]"
proof -
  let ?ss = "[(good_env [[]], [DbPut [1] [10], DbPut [2] [20], DbPut [1] [11]], Closed),
      (good_env [], [DbGet [1], DbGet [2], DbGet [3], DbPut [3] [30]], Closed),
      (good_env [], [DbGet [3], DbGet [1], DbGet [2]], Closed)]"
  have puts: "all_puts ?ss = [([1], [10]), ([2], [20]), ([1], [11]), ([3], [30])]" by (simp add: all_puts_def)
  have "run_sessions ''db'' 20 1 ?ss no_files = spec_sessions ?ss (latest (concat []))"
    by (rule closed_sessions_need_no_cache [OF no_files_hold]) (simp_all add: puts fits_small)
  then show ?thesis by simp
qed

text \<open>
  In a session on files that were closed in order, whose log says nothing that the file does not, a get
  never returns an outdated value, whatever the sizes of the caches: it returns the latest value of its key,
  or nothing.
\<close>

theorem gets_are_latest_or_nothing:
  assumes "env_good env" and "files_hold path sys pages ws tail" and "\<forall>r \<in> set ws. fits_page (kv_of r)"
    and "length pages + length ws + length (puts_of ops) < 2 ^ 20 - 1" and "length pages \<le> pc_size"
    and "0 < rc_size" and "latest (map kv_of ws) \<subseteq>\<^sub>m latest (concat pages)"
    and "\<forall>x \<in> set (puts_of ops). fits_page x"
  shows "\<exists>db. db_open env path pc_size rc_size sys = (Inr db, db_files db) \<and>
    list_all2 (\<lambda>r s. r = Inr None \<or> r = Inr s) (fst (db_run ops db)) (fst (spec_ops ops (latest (concat pages))))"
proof -
  have few: "length pages + length ws < 2 ^ 20 - 1" using assms(4) by simp
  obtain db where o: "db_open env path pc_size rc_size sys = (Inr db, db_files db)"
    "db_ok pages (place_all (map kv_of ws) (pages, [])) db" "wal_is_open (db_wal db)"
    "wal_file (db_wal db) = Some (os_content sys (wal_path path))" "cached db \<subseteq>\<^sub>m latest (map kv_of ws)"
    "pages \<noteq> [] \<longrightarrow> db_index db = index_of_records (all_records pages)"
    using db_open_ok [OF assms(1-3) few assms(5,6)] by blast
  have "coherent pages db (latest (concat pages))"
    using coherent_opened [OF db_okD(2) [OF o(2)] o(6)] map_le_trans [OF o(5) assms(7)] by blast
  moreover have "length (fst (place_all (map kv_of ws) (pages, []))) + length (puts_of ops) + 1 < 4294967296"
    using place_all_length [of "map kv_of ws" "(pages, [])"] assms(4) by simp
  ultimately have "\<exists>db' ws'. answers (\<lambda>x y. x = None \<or> x = y) (fst (db_run ops db))
      (fst (spec_ops ops (latest (concat pages)))) \<and> snd (db_run ops db) = db' \<and>
      db_ok pages (place_all (puts_of ops) (place_all (map kv_of ws) (pages, []))) db' \<and> map kv_of ws' = puts_of ops \<and>
      wal_is_open (db_wal db') \<and>
      wal_file (db_wal db') = Some (os_content sys (wal_path path) @ concat (map wal_encode_record ([] @ ws'))) \<and>
      engine_path (db_engine db') = engine_path (db_engine db)"
    using o(2-4) assms(8) coherent_put coherent_get coherent_found
    by (intro db_run_ok [where I = "\<lambda>ops. coherent pages" and ws = "[]"]) auto
  then have "answers (\<lambda>x y. x = None \<or> x = y) (fst (db_run ops db)) (fst (spec_ops ops (latest (concat pages))))" by blast
  then show ?thesis using o(1) unfolding answers_def by (auto elim: list_all2_mono)
qed

lemma gets_are_latest_or_nothing_witness:
  "\<exists>sys db. db_open (good_env []) ''db'' 4 1 sys = (Inr db, db_files db) \<and>
    list_all2 (\<lambda>r s. r = Inr None \<or> r = Inr s)
      (fst (db_run [DbPut [2] [20], DbGet [1], DbGet [2], DbGet [3]] db)) [None, Some [10], Some [20], None]"
proof -
  let ?rs = "[([1], [10])] :: kv list" and ?ws = "[logged 1 [1] [10]]"
  let ?ops = "[DbPut [2] [20], DbGet [1], DbGet [2], DbGet [3]]"
  obtain sys where sys: "files_hold ''db'' sys [?rs] ?ws []"
    using one_page_file [of ?rs ?ws "[]"]
    by (auto simp: fits_small used_def heap_size_def rec_size_def wal_fits_def wal_entry_def)
  have "\<exists>db. db_open (good_env []) ''db'' 4 1 sys = (Inr db, db_files db) \<and>
      list_all2 (\<lambda>r s. r = Inr None \<or> r = Inr s) (fst (db_run ?ops db))
        (fst (spec_ops ?ops (latest (concat [?rs]))))"
    by (rule gets_are_latest_or_nothing [OF _ sys]) (simp_all add: fits_small)
  then show ?thesis by (auto simp: latest_def)
qed

text \<open>
  C22: After a crash the recovery can serve outdated values, at every size of the record cache. Take any open database
  and any puts and gets, which all return, then a crash and the next opening. A key that is not among the last
  \<open>rc_size\<close> keys of the log, and whose last put is not the last one of its key in the pages that the writer has
  written, is answered with what those pages hold, which is not the value that was put. The value is in the log and is
  replayed, but it is not in the pages from which the index is rebuilt, and it has left the record cache.
\<close>

theorem recovery_can_serve_outdated_values:
  assumes "db_ok rss log db" and "engine_path (db_engine db) = path" and "wal_is_open (db_wal db)"
    and "wal_file (db_wal db) = Some (concat (map wal_encode_record ws))" and "\<forall>r \<in> set ws. fits_page (kv_of r)"
    and "\<forall>x \<in> set (puts_of ops). fits_page x" and "latest (puts_of ops) k = Some v"
    and "k \<notin> set (most_recent rc_size (map wr_key ws @ map fst (puts_of ops)))"
    and "latest (concat (fst (place_all (puts_of ops) log))) k \<noteq> Some v"
    and "env_good env" and "0 < rc_size" and "length (fst log) + length ws + 2 * length (puts_of ops) < 2 ^ 20 - 1"
    and "length (fst log) + length (puts_of ops) \<le> pc_size"
  shows "\<exists>rs db1 db2. db_run ops db = (rs, db1) \<and> (\<forall>r \<in> set rs. \<exists>x. r = Inr x) \<and>
    db_open env path pc_size rc_size (db_crash db1) = (Inr db2, db_files db2) \<and>
    fst (db_get k db2) = Inr (latest (concat (fst (place_all (puts_of ops) log))) k) \<and>
    fst (db_get k db2) \<noteq> Inr (Some v)"
proof -
  let ?log = "place_all (puts_of ops) log"
  have "\<exists>db1 ws'. answers (\<lambda>_ _. True) (fst (db_run ops db)) (fst (spec_ops ops Map.empty)) \<and> snd (db_run ops db) = db1 \<and>
      db_ok rss ?log db1 \<and> map kv_of ws' = puts_of ops \<and> wal_is_open (db_wal db1) \<and>
      wal_file (db_wal db1) = Some ([] @ concat (map wal_encode_record (ws @ ws'))) \<and>
      engine_path (db_engine db1) = engine_path (db_engine db)"
    using assms(1-4,6,12) by (intro db_run_ok [where I = "\<lambda>_ _ _. True"]) auto
  then obtain rs db1 ws' where r: "db_run ops db = (rs, db1)" "answers (\<lambda>_ _. True) rs (fst (spec_ops ops Map.empty))"
    "db_ok rss ?log db1" "map kv_of ws' = puts_of ops" "engine_path (db_engine db1) = path"
    "wal_file (db_wal db1) = Some (concat (map wal_encode_record (ws @ ws')))"
    using assms(2) by (auto simp: prod_eq_iff)
  have returned: "\<forall>r \<in> set rs. \<exists>x. r = Inr x" using r(2) by (auto simp: answers_def list_all2_conv_all_nth in_set_conv_nth)
  have fits: "\<forall>r \<in> set (ws @ ws'). fits_page (kv_of r)" using assms(5,6) unfolding r(4) [symmetric] by auto
  have hold: "files_hold path (db_crash db1) (fst ?log) (ws @ ws') []"
    using db_crash_files [OF r(3,6,5)] fits fits_page_wal by (auto simp: files_hold_def wal_entry_def)
  have keys: "map wr_key (ws @ ws') = map wr_key ws @ map fst (puts_of ops)"
    unfolding r(4) [symmetric] by (simp add: comp_def)
  have len: "length (fst ?log) \<le> length (fst log) + length (puts_of ops)" "length ws' = length (puts_of ops)"
    using place_all_length [of "puts_of ops" log] r(4) [THEN arg_cong, of length] by simp_all
  have few: "length (fst ?log) + length (ws @ ws') < 2 ^ 20 - 1" and cap: "length (fst ?log) \<le> pc_size"
    using len assms(12,13) by simp_all
  obtain db2 where o: "db_open env path pc_size rc_size (db_crash db1) = (Inr db2, db_files db2)"
    "db_ok (fst ?log) (place_all (map kv_of (ws @ ws')) (fst ?log, [])) db2"
    "found (fst ?log) db2 = latest (concat (fst ?log)) ++ cached db2"
    "cached db2 = latest (map kv_of (ws @ ws')) |` set (most_recent rc_size (map wr_key (ws @ ws')))"
    using db_open_ok [OF assms(10) hold fits few cap assms(11)] by blast
  have "cached db2 k = None" unfolding o(4) keys using assms(8) by simp
  then have "found (fst ?log) db2 k = latest (concat (fst ?log)) k" by (simp add: o(3) map_add_def)
  with r(1) returned o(1) get_opened [OF o(2), of k] assms(9) show ?thesis by auto
qed

lemma recovery_can_serve_outdated_values_witness:
  "\<exists>sys db rs db1 db2. files_hold ''db'' sys [[([1], [9])]] [logged 1 [1] [9]] [] \<and>
    db_open (good_env []) ''db'' 4 2 sys = (Inr db, db_files db) \<and>
    db_run [DbPut [1] [10], DbPut [2] [20], DbPut [3] [30]] db = (rs, db1) \<and>
    db_open (good_env []) ''db'' 4 2 (db_crash db1) = (Inr db2, db_files db2) \<and> fst (db_get [1] db2) = Inr (Some [9])"
proof -
  let ?rs = "[([1], [9])] :: kv list" and ?ws = "[logged 1 [1] [9]]"
  let ?ops = "[DbPut [1] [10], DbPut [2] [20], DbPut [3] [30]]" and ?log = "([[([1], [9])]], [([1], [9])]) :: kv list list \<times> kv list"
  obtain sys where sys: "files_hold ''db'' sys [?rs] ?ws []"
    using one_page_file [of ?rs ?ws "[]"]
    by (auto simp: fits_small used_def heap_size_def rec_size_def wal_fits_def wal_entry_def)
  have fits: "\<forall>r \<in> set ?ws. fits_page (kv_of r)" and "place_all (map kv_of ?ws) ([?rs], []) = ?log"
    by (simp_all add: fits_small place_def has_room_def used_def heap_size_def rec_size_def)
  moreover have "os_content sys (wal_path ''db'') = concat (map wal_encode_record ?ws)" using sys by (simp add: files_hold_def)
  ultimately obtain db where db: "db_open (good_env []) ''db'' 4 2 sys = (Inr db, db_files db)" "db_ok [?rs] ?log db"
    "engine_path (db_engine db) = ''db''" "wal_is_open (db_wal db)"
    "wal_file (db_wal db) = Some (concat (map wal_encode_record ?ws))"
    using db_open_ok [OF good_env_good sys fits, of 4 2 "[]"] by auto
  have log: "fst (place_all (puts_of ?ops) ?log) = [?rs]"
    by (simp add: place_def has_room_def used_def heap_size_def rec_size_def)
  have "\<exists>rs db1 db2. db_run ?ops db = (rs, db1) \<and> (\<forall>r \<in> set rs. \<exists>x. r = Inr x) \<and>
      db_open (good_env []) ''db'' 4 2 (db_crash db1) = (Inr db2, db_files db2) \<and>
      fst (db_get [1] db2) = Inr (latest (concat (fst (place_all (puts_of ?ops) ?log))) [1]) \<and>
      fst (db_get [1] db2) \<noteq> Inr (Some [10])"
    by (rule recovery_can_serve_outdated_values [OF db(2-5) fits])
      (unfold log, simp_all add: fits_small latest_def most_recent_def)
  then obtain rs db1 db2 where "db_run ?ops db = (rs, db1)"
    "db_open (good_env []) ''db'' 4 2 (db_crash db1) = (Inr db2, db_files db2)"
    "fst (db_get [1] db2) = Inr (latest (concat (fst (place_all (puts_of ?ops) ?log))) [1])" by blast
  moreover have "latest (concat (fst (place_all (puts_of ?ops) ?log))) [1] = Some [9]" unfolding log by (simp add: latest_def)
  ultimately show ?thesis using sys db(1) by metis
qed

text \<open>
  After a put of \<open>k\<close> with the value \<open>v\<close>, while no other put of \<open>k\<close> follows: the index names a record that
  the engine does not see, and the record cache holds \<open>v\<close> or nothing. As long as \<open>b\<close> promises that no get of
  \<open>k\<close> comes, the keys put since stand in front of \<open>k\<close> in the record cache.
\<close>

definition put_unseen :: "kv list list \<Rightarrow> bytes \<Rightarrow> bytes \<Rightarrow> nat \<Rightarrow> bool \<Rightarrow> db_op list \<Rightarrow> database \<Rightarrow> (bytes \<rightharpoonup> bytes) \<Rightarrow> bool" where
  "put_unseen rss k v n b ops db m \<longleftrightarrow> k \<notin> fst ` set (puts_of ops) \<and>
     (\<exists>rid. db_index db k = Some rid \<and> record_at rss rid = None) \<and> (cached db k = None \<or> cached db k = Some v) \<and>
     lc_capacity (db_cache db) = n \<and> (b \<longrightarrow> DbGet k \<notin> set ops \<and> used_since k (dom m) (lru_view (db_cache db)))"

lemma put_unseen_found: "put_unseen rss k v n b ops db m \<Longrightarrow> found rss db k = cached db k"
  by (auto simp: put_unseen_def found_def index_lookup_def split: option.split)

lemma put_unseen_put:
  assumes p: "put_unseen rss k v n b (DbPut j w # ops) db m" and s: "stored rss j w db db1"
  shows "put_unseen rss k v n b ops db1 (m(j \<mapsto> w))"
proof -
  have u: "lru_usable (db_cache db)" and c: "lru_put None j w (db_cache db) = Inr (db_cache db1)" and j: "j \<noteq> k"
    using p s by (auto simp: stored_def put_unseen_def)
  have "cached db1 \<subseteq>\<^sub>m (cached db)(j \<mapsto> w)" using lru.put_view [OF u, of None j w] c by auto
  then have "cached db1 k = None \<or> cached db1 k = cached db k" using j by (auto simp: map_le_def dom_def)
  moreover have "b \<longrightarrow> used_since k (dom (m(j \<mapsto> w))) (lru_view (db_cache db1))"
    unfolding lru_put_view [OF u c] using p j by (auto simp: put_unseen_def intro: used_since_touch)
  moreover have "lc_capacity (db_cache db1) = lc_capacity (db_cache db)" by (rule sized_lru.put_limit [OF u c])
  moreover have "db_index db1 k = db_index db k" using s j by (auto simp: stored_def)
  ultimately show ?thesis using p by (auto simp: put_unseen_def)
qed

lemma put_unseen_get:
  assumes p: "put_unseen rss k v n b (DbGet j # ops) db m" and u: "lru_usable (db_cache db)" and g: "got rss j db db1"
  shows "put_unseen rss k v n b ops db1 m"
proof -
  obtain c where c: "db_index db1 = db_index db" "lru_get j (db_cache db) = Inr (cached db j, c)" "lru_usable c"
    "map_of (lru_view c) = cached db" "lc_capacity c = lc_capacity (db_cache db)"
    "db_cache db1 = c \<or> (\<exists>x. found rss db j = Some x \<and> lru_put None j x c = Inr (db_cache db1))"
    using g by (auto simp: got_def)
  have view: "lru_view c = snd (spec_get j (lru_view (db_cache db)))"
    using lru_get_refines [of "db_cache db" j] u c(2) by (auto simp: lru_usable_def)
  have since: "b \<Longrightarrow> j \<noteq> k \<and> used_since k (dom m) (lru_view c)"
    unfolding view using p by (auto simp: put_unseen_def intro: used_since_get)
  have "lc_capacity (db_cache db1) = n \<and> (cached db1 k = None \<or> cached db1 k = Some v) \<and>
      (b \<longrightarrow> used_since k (dom m) (lru_view (db_cache db1)))"
    using c(6)
  proof
    assume "db_cache db1 = c"
    then show ?thesis using c(4,5) since p by (auto simp: put_unseen_def)
  next
    assume "\<exists>x. found rss db j = Some x \<and> lru_put None j x c = Inr (db_cache db1)"
    then obtain x where x: "found rss db j = Some x" "lru_put None j x c = Inr (db_cache db1)" by blast
    have "cached db1 \<subseteq>\<^sub>m (cached db)(j \<mapsto> x)" using lru.put_view [OF c(3), of None j x] x(2) c(4) by auto
    moreover have "j = k \<longrightarrow> x = v" using x(1) put_unseen_found [OF p] p by (auto simp: put_unseen_def)
    ultimately have "cached db1 k = None \<or> cached db1 k = Some v"
      using p by (cases "j = k") (auto simp: put_unseen_def map_le_def dom_def)
    moreover have "b \<longrightarrow> used_since k (dom m) (lru_view (db_cache db1))"
      unfolding lru_put_view [OF c(3) x(2)] using since by (auto intro: used_since_mono [OF used_since_touch])
    ultimately show ?thesis using sized_lru.put_limit [OF c(3) x(2)] c(5) p by (auto simp: put_unseen_def)
  qed
  with p c(1) show ?thesis by (auto simp: put_unseen_def)
qed

text \<open>
  C23: A record that was put in this session is found exactly while the record cache holds it, at every size of the
  record cache and after any puts of other keys and any gets: once it has left the record cache, a get returns
  nothing, since the index leads to a page that the engine does not see. It has left the record cache as soon as as
  many other keys were put as the record cache has entries, when nobody asked for it in between.
\<close>

theorem evicted_put_is_not_found:
  assumes "db_ok rss log db" and "wal_is_open (db_wal db)" and "wal_file (db_wal db) = Some f"
    and "fits_page (k, v)" and "\<forall>x \<in> set (puts_of ops). fits_page x" and "k \<notin> fst ` set (puts_of ops)"
    and "length (fst log) + length (puts_of ops) + 2 < 4294967296"
  shows "\<exists>db1 db2. db_put k v db = (Inr (), db1) \<and> snd (db_run ops db1) = db2 \<and>
    fst (db_get k db2) = Inr (if k \<in> fst ` set (lru_view (db_cache db2)) then Some v else None) \<and>
    (DbGet k \<notin> set ops \<and> lc_capacity (db_cache db) \<le> card (fst ` set (puts_of ops)) \<longrightarrow> fst (db_get k db2) = Inr None)"
proof -
  let ?n = "lc_capacity (db_cache db)" and ?b = "DbGet k \<notin> set ops" and ?log = "place_all (puts_of ops) (place (k, v) log)"
  have few: "Suc (length (fst log)) < 4294967296" "length (fst (place (k, v) log)) + length (puts_of ops) + 1 < 4294967296"
    using assms(7) by (simp_all add: place_def)
  obtain db1 rid r where s: "db_put k v db = (Inr (), db1)" "db_ok rss (place (k, v) log) db1"
    "db_index db1 = (db_index db)(k \<mapsto> rid)" "record_at rss rid = None"
    "lru_put None k v (db_cache db) = Inr (db_cache db1)" "wal_is_open (db_wal db1)"
    "wal_file (db_wal db1) = Some (f @ wal_encode_record r)"
    using db_put_ok [OF assms(1,4) few(1) assms(2,3)] by blast
  have u: "lru_usable (db_cache db)" by (rule db_okD(7) [OF assms(1)])
  have "cached db1 k = Some v" using lru.put_view [OF u, of None k v] s(5) by auto
  then have "put_unseen rss k v ?n ?b ops db1 Map.empty"
    using s(3,4) sized_lru.put_limit [OF u s(5)] assms(6) by (simp add: put_unseen_def used_since_def)
  then have "\<exists>db2 ws'. answers (\<lambda>_ _. True) (fst (db_run ops db1)) (fst (spec_ops ops Map.empty)) \<and> snd (db_run ops db1) = db2 \<and>
      db_ok rss ?log db2 \<and> map kv_of ws' = puts_of ops \<and> wal_is_open (db_wal db2) \<and>
      wal_file (db_wal db2) = Some ((f @ wal_encode_record r) @ concat (map wal_encode_record ([] @ ws'))) \<and>
      engine_path (db_engine db2) = engine_path (db_engine db1) \<and>
      put_unseen rss k v ?n ?b [] db2 (snd (spec_ops ops Map.empty))"
    using put_unseen_put put_unseen_get s(2,6,7) assms(5) few(2)
    by (intro db_run_inv [where I = "put_unseen rss k v ?n ?b"]) auto
  then obtain db2 where r: "snd (db_run ops db1) = db2" "db_ok rss ?log db2"
    "put_unseen rss k v ?n ?b [] db2 (snd (spec_ops ops Map.empty))" by blast
  have get: "fst (db_get k db2) = Inr (cached db2 k)"
    using get_opened [OF r(2), of k] put_unseen_found [OF r(3)] by simp
  have "cached db2 k = (if k \<in> fst ` set (lru_view (db_cache db2)) then Some v else None)"
    using r(3) map_of_eq_None_iff [of "lru_view (db_cache db2)" k] by (auto simp: put_unseen_def)
  moreover have "cached db2 k = None" if "?b" "?n \<le> card (fst ` set (puts_of ops))"
  proof (rule used_since_full)
    show "used_since k (fst ` set (puts_of ops)) (lru_view (db_cache db2))"
      using r(3) that(1) by (simp add: put_unseen_def spec_ops_map dom_latest)
    show "length (lru_view (db_cache db2)) \<le> ?n"
      using lru_okD(2) [of "db_cache db2"] db_okD(7) [OF r(2)] r(3) by (simp add: put_unseen_def lru_usable_def lru_view_def)
    show "?n \<le> card (fst ` set (puts_of ops))" by (rule that(2))
  qed
  ultimately show ?thesis using s(1) r(1) get by (intro exI [of _ db1] exI [of _ db2]) simp
qed

text \<open>A new database.\<close>

lemma new_database:
  assumes "0 < rc_size"
  obtains db where "db_open (good_env []) ''db'' pc_size rc_size no_files = (Inr db, db_files db)"
    "db_ok [] ([], []) db" "wal_is_open (db_wal db)" "wal_file (db_wal db) = Some []"
    "lc_capacity (db_cache db) = rc_size" "engine_path (db_engine db) = ''db''"
  using db_open_ok [OF good_env_good no_files_hold [of "''db''"], of pc_size rc_size "[]"] assms
  by (auto simp: no_files_def os_content_def)

lemma evicted_put_is_not_found_witness:
  "\<exists>db db1 db2. db_open (good_env []) ''db'' 4 2 no_files = (Inr db, db_files db) \<and> db_put [1] [10] db = (Inr (), db1) \<and>
    snd (db_run [DbPut [2] [20], DbGet [2], DbGet [3], DbPut [3] [30]] db1) = db2 \<and> fst (db_get [1] db2) = Inr None"
proof -
  let ?ops = "[DbPut [2] [20], DbGet [2], DbGet [3], DbPut [3] [30]]"
  obtain db where db: "db_open (good_env []) ''db'' 4 2 no_files = (Inr db, db_files db)" "db_ok [] ([], []) db"
    "wal_is_open (db_wal db)" "wal_file (db_wal db) = Some []" "lc_capacity (db_cache db) = 2"
    using new_database [of 2 4] by auto
  have "\<exists>db1 db2. db_put [1] [10] db = (Inr (), db1) \<and> snd (db_run ?ops db1) = db2 \<and>
      fst (db_get [1] db2) = Inr (if [1] \<in> fst ` set (lru_view (db_cache db2)) then Some [10] else None) \<and>
      (DbGet [1] \<notin> set ?ops \<and> lc_capacity (db_cache db) \<le> card (fst ` set (puts_of ?ops)) \<longrightarrow> fst (db_get [1] db2) = Inr None)"
    by (rule evicted_put_is_not_found [OF db(2-4)]) (simp_all add: fits_small)
  then obtain db1 db2 where "db_put [1] [10] db = (Inr (), db1)" "snd (db_run ?ops db1) = db2" "fst (db_get [1] db2) = Inr None"
    using db(5) by (auto simp: card_insert_if)
  with db(1) show ?thesis by blast
qed

lemma scan_ok:
  assumes "db_ok rss log db"
  shows "fst (db_scan cb c db) = visit cb (all_records rss) c \<and>
    db_ok rss log (snd (db_scan cb c db)) \<and>
    en_hint (db_engine (snd (db_scan cb c db))) =
      (case fst (visit cb (all_records rss) c) of Inl _ \<Rightarrow> Scan | Inr _ \<Rightarrow> PointLookup)"
proof -
  let ?db1 = "set_workload_hint Scan db"
  have ok1: "db_ok rss log ?db1" by (rule db_ok_fields(4) [OF assms])
  note d = db_okD [OF ok1]
  obtain r c' en where s: "reader_scan cb c (db_engine ?db1) = ((r, c'), en)" by (metis prod.collapse)
  have v: "(r, c') = visit cb (all_records rss) c"
    using scan_image [OF d(1-3), of cb c] s by simp
  have en: "engine_ok [] en" "same_store (db_engine ?db1) en"
    using reader_scan_ok [OF d(1,2), of cb c] s by simp_all
  let ?db2 = "?db1\<lparr>db_engine := en\<rparr>"
  have ok2: "db_ok rss log ?db2" by (rule db_ok_read [OF ok1 en])
  have hint: "en_hint en = Scan" using en(2) by (simp add: same_store_def set_workload_hint_def)
  have "db_scan cb c db = (case r of Inl e \<Rightarrow> ((Inl e, c'), ?db2)
      | Inr _ \<Rightarrow> ((Inr (), c'), set_workload_hint PointLookup ?db2))"
    by (simp add: db_scan_def s Let_def)
  then show ?thesis
    using ok2 db_ok_fields(4) [OF ok2] hint
    by (cases r) (simp_all add: v [symmetric], simp add: set_workload_hint_def)
qed

section \<open>Records that are too large, and duplicates\<close>

lemma replay_too_large:
  assumes "rs_error st = None" and "db_ok rss log (rs_user st)" and "\<forall>r \<in> set ws1. fits_page (kv_of r)"
    and "\<not> fits_page (kv_of r)" and "length (fst log) + length ws1 + 1 < 4294967295"
  shows "\<exists>st'. fold (wal.feed replay_visitor) (ws1 @ r # ws2) st = st' \<and> rs_error st' = Some RecordTooLarge \<and>
    db_ok rss (log_pages (place_all (map kv_of ws1) log), []) (rs_user st') \<and>
    engine_path (db_engine (rs_user st')) = engine_path (db_engine (rs_user st))"
proof -
  let ?log = "place_all (map kv_of ws1) log" and ?st1 = "fold (wal.feed replay_visitor) ws1 st"
  obtain db1 where p: "rs_error ?st1 = None" "rs_user ?st1 = db1" "db_ok rss ?log db1"
    "engine_path (db_engine db1) = engine_path (db_engine (rs_user st))"
    using replay_stores [OF assms(1-3)] assms(5) by auto
  have "Suc (length (fst ?log)) < 4294967296" using place_all_length [of "map kv_of ws1" log] assms(5) by simp
  then obtain db2 where s: "store_record (wr_key r) (wr_value r) db1 = (Inl RecordTooLarge, db2)"
    "db_ok rss (log_pages ?log, []) db2" "engine_path (db_engine db2) = engine_path (db_engine db1)"
    using store_record_too_large [OF p(3) assms(4)] by blast
  have st2: "rs_error (wal.feed replay_visitor r ?st1) = Some RecordTooLarge" "rs_user (wal.feed replay_visitor r ?st1) = db2"
    using p(1,2) s(1) unfolding wal.feed_def replay_failed_def by (simp_all add: replay_step_def replay_visitor_def)
  then have "fold (wal.feed replay_visitor) (ws1 @ r # ws2) st = wal.feed replay_visitor r ?st1"
    by (simp add: wal.fold_feed_halted replay_failed_def)
  with st2 s(2,3) p(4) show ?thesis by simp
qed

text \<open>An opening that throws leaves the log as it is, and the records in front of the one that is too large once more in the file.\<close>

lemma db_open_too_large:
  assumes env: "env_good env" and hold: "files_hold path sys pages ws tail" and large: "\<exists>r \<in> set ws. \<not> fits_page (kv_of r)"
    and few: "length pages + length ws < 2 ^ 20 - 1" and cap: "length pages \<le> pc_size" and rc: "0 < rc_size"
  shows "\<exists>sys' pages'. db_open env path pc_size rc_size sys = (Inl RecordTooLarge, sys') \<and> files_hold path sys' pages' ws tail \<and>
    length pages' \<le> length pages + length ws + 1"
proof -
  obtain ws1 r ws2 where ws: "ws = ws1 @ r # ws2" "\<not> fits_page (kv_of r)" "\<forall>r \<in> set ws1. fits_page (kv_of r)"
    using split_list_first_prop [OF large] by auto
  have few1: "length pages < 2 ^ 20" and len: "length (fst (pages, [] :: kv list)) + length ws1 + 1 < 4294967295"
    using few ws(1) by simp_all
  obtain st0 wal where o: "rs_error st0 = None" "db_ok pages (pages, []) (rs_user st0)"
    "engine_path (db_engine (rs_user st0)) = path" "\<And>st. wal_file (wal st) = Some (os_content sys (wal_path path))"
    "db_open env path pc_size rc_size sys =
       (let st = fold (wal.feed replay_visitor) ws st0; db1 = (rs_user st)\<lparr>db_wal := wal st\<rparr>
        in case rs_error st of
             Some e \<Rightarrow> (Inl e, db_close db1)
           | None \<Rightarrow> (case db_recover db1 of
               (Inl e, db2) \<Rightarrow> (Inl e, db_close db2) | (Inr _, db2) \<Rightarrow> (Inr db2, db_files db2)))"
    by (rule db_open_replay [OF env hold few1 cap rc]) (rule that; assumption)
  let ?log = "place_all (map kv_of ws1) (pages, [])"
  obtain st where st: "fold (wal.feed replay_visitor) ws st0 = st" "rs_error st = Some RecordTooLarge"
    "db_ok pages (log_pages ?log, []) (rs_user st)" "engine_path (db_engine (rs_user st)) = path"
    using replay_too_large [OF o(1,2) ws(3,2) len, of ws2] unfolding ws(1) [symmetric] o(3) by blast
  let ?db = "(rs_user st)\<lparr>db_wal := wal st\<rparr>"
  have "db_open env path pc_size rc_size sys = (Inl RecordTooLarge, db_close ?db)" using st(1,2) by (simp add: o(5) Let_def)
  moreover have db: "db_ok pages (log_pages ?log, []) ?db" "wal_file (db_wal ?db) = Some (os_content sys (wal_path path))"
    "engine_path (db_engine ?db) = path"
    using db_ok_fields(2) [OF st(3)] o(4) st(4) by simp_all
  obtain pages' where p: "file_image (os_content (db_close ?db) path) pages'"
    "length pages' \<le> Suc (length (fst (log_pages ?log, [] :: kv list)))"
    "os_content (db_close ?db) (wal_path path) = os_content sys (wal_path path)"
    by (rule db_close_files [OF db]) (rule that; assumption)
  then have "files_hold path (db_close ?db) pages' ws tail" using hold by (simp add: files_hold_def)
  moreover have "length pages' \<le> length pages + length ws + 1"
    using p(2) place_all_length [of "map kv_of ws1" "(pages, [])"] ws(1) by (simp add: log_pages_def split: if_splits)
  ultimately show ?thesis by blast
qed

lemma sessions_too_large:
  assumes "files_hold path sys pages ws tail" and "\<exists>r \<in> set ws. \<not> fits_page (kv_of r)" and "\<forall>s \<in> set ss. env_good (fst s)"
    and "length pages + length ws + length ss * (length ws + 1) < 2 ^ 20 - 1"
    and "length pages + length ss * (length ws + 1) \<le> pc_size" and "0 < rc_size"
  shows "run_sessions path pc_size rc_size ss sys = replicate (length ss) (Inl RecordTooLarge)"
  using assms(1,3-5)
proof (induction ss arbitrary: sys pages)
  case (Cons s ss)
  obtain env ops fin where s: "s = (env, ops, fin)" by (metis prod.collapse)
  have "env_good env" "length pages + length ws < 2 ^ 20 - 1" "length pages \<le> pc_size" using Cons.prems by (simp_all add: s)
  then obtain sys' pages' where o: "db_open env path pc_size rc_size sys = (Inl RecordTooLarge, sys')"
    "files_hold path sys' pages' ws tail" "length pages' \<le> length pages + length ws + 1"
    using db_open_too_large [OF _ Cons.prems(1) assms(2) _ _ assms(6)] by blast
  have "run_sessions path pc_size rc_size ss sys' = replicate (length ss) (Inl RecordTooLarge)"
    using Cons.prems(2-4) o(3) by (intro Cons.IH [OF o(2)]) simp_all
  with o(1) show ?case by (simp add: s)
qed simp

text \<open>
  C24: A put of a record that no page can hold logs it before it throws, and the log is never truncated. After
  the session, whether the database is destroyed or crashes, it cannot be opened any more: in every later opening
  whose system calls succeed, one after the other on the same files, the replay throws out of the constructor. Key
  and value are below 64 KiB, so that the frame is not corrupt; each failed opening appends the records in front of
  the one that is too large to the file once more, which has to stay below 4 GiB and within the pool.
\<close>

theorem oversized_put_blocks_reopening:
  assumes "db_ok rss log db" and "wal_is_open (db_wal db)"
    and "wal_file (db_wal db) = Some (concat (map wal_encode_record ws))" and "\<forall>r \<in> set ws. wal_fits r"
    and "\<not> fits_page (key, val)" and "length key < 65536" and "length val < 65536"
    and "length (fst log) + length ws + 3 + length ss * (length ws + 2) < 2 ^ 20 - 1"
    and "length (fst log) + 2 + length ss * (length ws + 2) \<le> pc_size" and "0 < rc_size"
    and "engine_path (db_engine db) = path" and "\<forall>s \<in> set ss. env_good (fst s)"
  shows "\<exists>db'. db_put key val db = (Inl RecordTooLarge, db') \<and>
    run_sessions path pc_size rc_size ss (db_close db') = replicate (length ss) (Inl RecordTooLarge) \<and>
    run_sessions path pc_size rc_size ss (db_crash db') = replicate (length ss) (Inl RecordTooLarge)"
proof -
  let ?r = "\<lparr>wr_lsn = wal_current_lsn (db_wal db) + 1, wr_key = key, wr_value = val\<rparr>"
  let ?ws = "ws @ [?r]"
  obtain l wal where a: "wal_append key val (db_wal db) = (l, wal)" "wal_file wal = Some (concat (map wal_encode_record ?ws))"
    using assms(2,3) by (auto simp: wal_append_def log_write_def wal_encode_record_def Let_def)
  have okw: "db_ok rss log (db\<lparr>db_wal := wal\<rparr>)" by (rule db_ok_fields(2) [OF assms(1)])
  obtain db' where s: "store_record key val (db\<lparr>db_wal := wal\<rparr>) = (Inl RecordTooLarge, db')"
    "db_ok rss (log_pages log, []) db'" "db_wal db' = wal" "engine_path (db_engine db') = path"
    using store_record_too_large [OF okw assms(5)] assms(8,11) by auto
  have wal: "wal_file (db_wal db') = Some (concat (map wal_encode_record ?ws))" using s(3) a(2) by simp
  have blocked: "run_sessions path pc_size rc_size ss sys = replicate (length ss) (Inl RecordTooLarge)"
    if image: "file_image (os_content sys path) pages" and wl: "os_content sys (wal_path path) = concat (map wal_encode_record ?ws)"
      and len: "length pages \<le> length (fst log) + 2" for sys pages
  proof (rule sessions_too_large [OF _ _ assms(12) _ _ assms(10)])
    have "\<forall>r \<in> set ?ws. wal_fits r" using assms(4,6,7) by (auto simp: wal_fits_def)
    then show "files_hold path sys pages ?ws []" using image wl by (simp add: files_hold_def wal_entry_def)
    show "\<exists>r \<in> set ?ws. \<not> fits_page (kv_of r)" using assms(5) by simp
  qed (use len assms(8,9) in simp_all)
  obtain pages where "file_image (os_content (db_close db') path) pages" "length pages \<le> Suc (length (log_pages log))"
    "os_content (db_close db') (wal_path path) = concat (map wal_encode_record ?ws)"
    using db_close_files [OF s(2) wal s(4)] by auto
  with blocked have "run_sessions path pc_size rc_size ss (db_close db') = replicate (length ss) (Inl RecordTooLarge)"
    by (simp add: log_pages_def)
  moreover have "run_sessions path pc_size rc_size ss (db_crash db') = replicate (length ss) (Inl RecordTooLarge)"
    using db_crash_files [OF s(2) wal s(4)] by (intro blocked) (auto simp: log_pages_def)
  moreover have "db_put key val db = (Inl RecordTooLarge, db')" using a(1) s(1) by (simp add: db_put_def)
  ultimately show ?thesis by blast
qed

lemma oversized_put_blocks_reopening_witness:
  "\<exists>db db'. db_open (good_env []) ''db'' 20 1 no_files = (Inr db, db_files db) \<and>
    db_put [1] (replicate 5000 7) db = (Inl RecordTooLarge, db') \<and>
    run_sessions ''db'' 20 1 [(good_env [], [], Closed), (good_env [], [DbGet [1]], Crashed), (good_env [[0]], [], Closed)]
      (db_close db') = [Inl RecordTooLarge, Inl RecordTooLarge, Inl RecordTooLarge]"
proof -
  let ?ss = "[(good_env [], [], Closed), (good_env [], [DbGet [1]], Crashed), (good_env [[0]], [], Closed)] :: session list"
  obtain db where db: "db_open (good_env []) ''db'' 20 1 no_files = (Inr db, db_files db)" "db_ok [] ([], []) db"
    "wal_is_open (db_wal db)" "wal_file (db_wal db) = Some []" "engine_path (db_engine db) = ''db''"
    using new_database [of 1 20] by auto
  have "wal_file (db_wal db) = Some (concat (map wal_encode_record []))" using db(4) by simp
  from oversized_put_blocks_reopening [OF db(2,3) this, of "[1]" "replicate 5000 7" ?ss 20 1 "''db''"] db(1,5)
  show ?thesis by (auto simp: fits_page_def has_room_def used_def rec_size_def numeral_3_eq_3)
qed

text \<open>
  C25: The log is replayed into the file at every start and never truncated: opening a database and closing it
  again, without any put, appends all logged records to its file once more, and the next session's scan
  delivers them again.
\<close>

theorem reopening_duplicates_records:
  assumes "env_good env" and "env_good env'" and "files_hold path sys pages ws []" and "\<forall>r \<in> set ws. fits_page (kv_of r)"
    and "length pages + 2 * length ws < 2 ^ 20 - 2" and "length pages + length ws + 1 \<le> pc_size" and "0 < rc_size"
  shows "\<exists>db db2. db_open env path pc_size rc_size sys = (Inr db, db_files db) \<and>
    db_open env' path pc_size rc_size (db_close db) = (Inr db2, db_files db2) \<and>
    map snd (snd (fst (db_scan collect [] db))) = concat pages \<and>
    map snd (snd (fst (db_scan collect [] db2))) = concat pages @ map kv_of ws"
proof -
  have few: "length pages + length ws < 2 ^ 20 - 1" and cap: "length pages \<le> pc_size"
    and small: "length pages + length (map kv_of ws) < 4294967295" using assms(5,6) by simp_all
  have fits: "\<forall>x \<in> set (map kv_of ws). fits_page x" using assms(4) by auto
  let ?log = "place_all (map kv_of ws) (pages, [])"
  obtain db where o: "db_open env path pc_size rc_size sys = (Inr db, db_files db)" "db_ok pages ?log db"
    "engine_path (db_engine db) = path" "wal_file (db_wal db) = Some (os_content sys (wal_path path))"
    using db_open_ok [OF assms(1,3,4) few cap assms(7)] by blast
  obtain pages2 where p: "file_image (os_content (db_close db) path) pages2" "concat pages2 = concat (log_pages ?log)"
    "length pages2 \<le> Suc (length (fst ?log))" "os_content (db_close db) (wal_path path) = os_content sys (wal_path path)"
    by (rule db_close_files [OF o(2,4,3)])
  have recs: "concat pages2 = concat pages @ map kv_of ws" using p(2) placed_records(1) [OF fits small] by simp
  have len: "length pages2 \<le> length pages + length ws + 1"
    using p(3) place_all_length [of "map kv_of ws" "(pages, [])"] by simp
  have hold2: "files_hold path (db_close db) pages2 ws []" using p(1,4) assms(3) by (simp add: files_hold_def)
  have few2: "length pages2 + length ws < 2 ^ 20 - 1" and cap2: "length pages2 \<le> pc_size" using len assms(5,6) by simp_all
  obtain db2 where o2: "db_open env' path pc_size rc_size (db_close db) = (Inr db2, db_files db2)"
    "db_ok pages2 (place_all (map kv_of ws) (pages2, [])) db2"
    using db_open_ok [OF assms(2) hold2 assms(4) few2 cap2 assms(7)] by blast
  have scan: "map snd (snd (fst (db_scan collect [] d))) = concat rss" if "db_ok rss l d" for rss l d
    using scan_ok [OF that, of collect "[]"] by (simp add: visit_collect all_records_values)
  have "map snd (snd (fst (db_scan collect [] db2))) = concat pages @ map kv_of ws"
    unfolding scan [OF o2(2)] by (rule recs)
  with o(1) o2(1) scan [OF o(2)] show ?thesis by blast
qed

lemma reopening_duplicates_records_witness:
  "\<exists>sys db db2. files_hold ''db'' sys [[([1], [10])]] [logged 1 [1] [10]] [] \<and>
    db_open (good_env []) ''db'' 4 1 sys = (Inr db, db_files db) \<and>
    db_open (good_env [[0]]) ''db'' 4 1 (db_close db) = (Inr db2, db_files db2) \<and>
    map snd (snd (fst (db_scan collect [] db2))) = [([1], [10]), ([1], [10])]"
proof -
  let ?rs = "[([1], [10])] :: kv list" and ?ws = "[logged 1 [1] [10]]"
  obtain sys where sys: "files_hold ''db'' sys [?rs] ?ws []"
    using one_page_file [of ?rs ?ws "[]"]
    by (auto simp: fits_small used_def heap_size_def rec_size_def wal_fits_def wal_entry_def)
  have "\<exists>db db2. db_open (good_env []) ''db'' 4 1 sys = (Inr db, db_files db) \<and>
      db_open (good_env [[0]]) ''db'' 4 1 (db_close db) = (Inr db2, db_files db2) \<and>
      map snd (snd (fst (db_scan collect [] db))) = concat [?rs] \<and>
      map snd (snd (fst (db_scan collect [] db2))) = concat [?rs] @ map kv_of ?ws"
    by (rule reopening_duplicates_records [OF _ _ sys]) (simp_all add: fits_small)
  with sys show ?thesis by auto
qed

section \<open>Every operation is defined\<close>

definition op_result :: "db_op \<Rightarrow> bytes option result \<Rightarrow> bool" where
  "op_result x r =
     (case x of DbPut k v \<Rightarrow> r = (if fits_page (k, v) then Inr None else Inl RecordTooLarge) | DbGet k \<Rightarrow> (\<exists>v. r = Inr v))"

lemma db_step_safe:
  assumes ok: "db_ok rss log db" and few: "Suc (length (fst log)) < 4294967296"
  shows "op_result x (fst (db_step x db)) \<and>
    (\<exists>log'. db_ok rss log' (snd (db_step x db)) \<and> length (fst log') \<le> Suc (length (fst log)))"
proof (cases x)
  case (DbPut k v)
  obtain l wal where a: "wal_append k v (db_wal db) = (l, wal)" by fastforce
  have ok1: "db_ok rss log (db\<lparr>db_wal := wal\<rparr>)" by (rule db_ok_fields(2) [OF ok])
  show ?thesis
  proof (cases "fits_page (k, v)")
    case True
    obtain db' where "store_record k v (db\<lparr>db_wal := wal\<rparr>) = (Inr (), db')" "db_ok rss (place (k, v) log) db'"
      using store_record_ok [OF ok1 True few] by blast
    moreover have "length (fst (place (k, v) log)) \<le> Suc (length (fst log))" by (simp add: place_def)
    ultimately show ?thesis using True a by (simp add: DbPut op_result_def db_put_def del: split_paired_Ex) blast
  next
    case False
    obtain db' where "store_record k v (db\<lparr>db_wal := wal\<rparr>) = (Inl RecordTooLarge, db')" "db_ok rss (log_pages log, []) db'"
      using store_record_too_large [OF ok1 False few] by blast
    moreover have "length (fst (log_pages log, [] :: kv list)) \<le> Suc (length (fst log))" by (simp add: log_pages_def)
    ultimately show ?thesis using False a by (simp add: DbPut op_result_def db_put_def del: split_paired_Ex fst_conv) (metis fst_conv)
  qed
next
  case (DbGet k)
  obtain db' where "db_get k db = (Inr (found rss db k), db')" "db_ok rss log db'" using db_get_ok [OF ok, of k] by blast
  then show ?thesis by (intro conjI exI [of _ log]) (simp_all add: DbGet op_result_def)
qed

lemma db_run_safe:
  assumes "db_ok rss log db" and "length (fst log) + length ops + 1 < 4294967296"
  shows "list_all2 op_result ops (fst (db_run ops db)) \<and> (\<exists>log'. db_ok rss log' (snd (db_run ops db)))"
  using assms
proof (induction ops arbitrary: log db)
  case Nil
  then show ?case by (simp del: split_paired_Ex) blast
next
  case (Cons x ops)
  have "Suc (length (fst log)) < 4294967296" using Cons.prems(2) by simp
  with db_step_safe [OF Cons.prems(1)] obtain log1 where s: "op_result x (fst (db_step x db))"
    "db_ok rss log1 (snd (db_step x db))" "length (fst log1) \<le> Suc (length (fst log))" by blast
  have "length (fst log1) + length ops + 1 < 4294967296" using s(3) Cons.prems(2) by simp
  from Cons.IH [OF s(2) this] s(1) show ?case by (simp add: case_prod_unfold Let_def)
qed

text \<open>
  C4: On an open database no sequence of puts and gets ever runs into undefined behaviour, fills the pool or throws
  anything but the exception for a record that no page can hold, which is thrown exactly for those; every other put
  and every get returns, and the database stays well formed, after an exception as well.
\<close>

theorem operations_never_undefined:
  assumes "db_ok rss log db" and "length (fst log) + length ops + 1 < 4294967296"
  shows "list_all2 op_result ops (fst (db_run ops db)) \<and> (\<exists>log'. db_ok rss log' (snd (db_run ops db)))"
  by (rule db_run_safe [OF assms])

lemma operations_never_undefined_witness:
  "\<exists>db. db_open (good_env []) ''db'' 4 1 no_files = (Inr db, db_files db) \<and>
    (\<exists>x. fst (db_run [DbPut [1] [10], DbPut [2] (replicate 5000 7), DbGet [1]] db) = [Inr None, Inl RecordTooLarge, Inr x])"
proof -
  obtain db where db: "db_open (good_env []) ''db'' 4 1 no_files = (Inr db, db_files db)" "db_ok [] ([], []) db"
    using new_database [of 1 4] by auto
  have "\<not> fits_page ([2], replicate 5000 7)" "fits_page ([1], [10])"
    by (simp_all add: fits_page_def has_room_def used_def rec_size_def heap_size_def)
  then show ?thesis
    using operations_never_undefined [OF db(2), of "[DbPut [1] [10], DbPut [2] (replicate 5000 7), DbGet [1]]"] db(1)
    by (auto simp: op_result_def list_all2_Cons1)
qed

text \<open>
  C16: A scan delivers exactly the records of the pages that the file had when the database was opened, in order,
  after any puts and gets, also ones that throw, and with every schedule of the prefetch threads: none of the records
  put since, and none of those that the opening replayed. It leaves the thread with the hint \<open>PointLookup\<close>,
  whatever the hint was before, unless the callback throws: then the hint stays \<open>Scan\<close>.
\<close>

theorem scan_delivers_opened_file:
  assumes "env_good env" and "files_hold path sys pages ws tail" and "\<forall>r \<in> set ws. fits_page (kv_of r)"
    and "length pages + length ws + length ops < 2 ^ 20 - 1" and "length pages \<le> pc_size" and "0 < rc_size"
  shows "\<exists>db db'. db_open env path pc_size rc_size sys = (Inr db, db_files db) \<and> snd (db_run ops db) = db' \<and>
    fst (db_scan cb c db') = visit cb (all_records pages) c \<and>
    en_hint (db_engine (snd (db_scan cb c db'))) =
      (case fst (visit cb (all_records pages) c) of Inl _ \<Rightarrow> Scan | Inr _ \<Rightarrow> PointLookup)"
proof -
  have few: "length pages + length ws < 2 ^ 20 - 1" using assms(4) by simp
  obtain db where o: "db_open env path pc_size rc_size sys = (Inr db, db_files db)"
    "db_ok pages (place_all (map kv_of ws) (pages, [])) db"
    using db_open_ok [OF assms(1-3) few assms(5,6)] by blast
  have "length (fst (place_all (map kv_of ws) (pages, []))) + length ops + 1 < 4294967296"
    using place_all_length [of "map kv_of ws" "(pages, [])"] assms(4) by simp
  with db_run_safe [OF o(2)] obtain log' where "db_ok pages log' (snd (db_run ops db))" by blast
  from scan_ok [OF this, of cb c] o(1) show ?thesis by (intro exI [of _ db] exI [of _ "snd (db_run ops db)"]) simp
qed

lemma scan_delivers_opened_file_witness:
  "\<exists>sys db db'. files_hold ''db'' sys [[([1], [10])]] [logged 1 [1] [10], logged 2 [2] [20]] [] \<and>
    db_open (good_env [[0]]) ''db'' 4 1 sys = (Inr db, db_files db) \<and>
    snd (db_run [DbPut [3] [30], DbPut [4] (replicate 5000 7), DbGet [1]] db) = db' \<and>
    map snd (snd (fst (db_scan collect [] db'))) = [([1], [10])] \<and> en_hint (db_engine (snd (db_scan collect [] db'))) = PointLookup"
proof -
  let ?rs = "[([1], [10])] :: kv list" and ?ws = "[logged 1 [1] [10], logged 2 [2] [20]]"
  let ?ops = "[DbPut [3] [30], DbPut [4] (replicate 5000 7), DbGet [1]]"
  obtain sys where sys: "files_hold ''db'' sys [?rs] ?ws []"
    using one_page_file [of ?rs ?ws "[]"]
    by (auto simp: fits_small used_def heap_size_def rec_size_def wal_fits_def wal_entry_def)
  have "\<exists>db db'. db_open (good_env [[0]]) ''db'' 4 1 sys = (Inr db, db_files db) \<and> snd (db_run ?ops db) = db' \<and>
      fst (db_scan collect [] db') = visit collect (all_records [?rs]) [] \<and>
      en_hint (db_engine (snd (db_scan collect [] db'))) =
        (case fst (visit collect (all_records [?rs]) []) of Inl _ \<Rightarrow> Scan | Inr _ \<Rightarrow> PointLookup)"
    by (rule scan_delivers_opened_file [OF _ sys]) (simp_all add: fits_small)
  moreover have "map snd (all_records [?rs]) = ?rs" by (simp add: all_records_values)
  ultimately show ?thesis using sys by (auto simp: visit_collect)
qed

end
