(* ===== verification/Database_Threads.thy ===== *)
theory Database_Threads
  imports Database_Sessions
begin

text \<open>
  Concurrent clients of the database (\<open>src/src/db/database.{h,cpp}\<close>), at the granularity of its locks. \<open>get\<close>
  holds \<open>rw_mutex_\<close> shared and \<open>put\<close> holds it alone, \<open>scan\<close> takes no lock; the record cache, the buffer pool
  and the log each have a mutex of their own. A call is cut into the steps that these mutexes make atomic, and
  a schedule says which client steps next.
\<close>

section \<open>Calls under way\<close>

text \<open>
  How far a call has come. A \<open>get\<close>: before the record cache, after a miss in it, after the lookup in the index,
  with the record's page pinned, before it puts the record into the cache. A \<open>put\<close>: before the log, the writer,
  the index and the record cache. A scan: between two pages, with a page pinned and the slots \<open>ss\<close> to come, and
  with the page of the next record pinned as well.
\<close>

text \<open>What a scan has to do; \<open>sc_start\<close> is the state that its callback began with.\<close>

record 'c scan_call =
  sc_start :: 'c
  sc_total :: u32
  sc_pages :: "nat list"
  sc_state :: 'c

datatype 'c activity =
    Idle
  | Getting bytes
  | Missed bytes
  | Located bytes record_id
  | Reading bytes record_id page_handle
  | Refilling bytes bytes
  | PutStart bytes bytes
  | PutLogged bytes bytes
  | PutWritten bytes bytes record_id
  | PutIndexed bytes bytes
  | ScanPages "'c scan_call"
  | ScanSlots "'c scan_call" u32 page_handle "nat list"
  | ScanRecord "'c scan_call" u32 page_handle "nat list" record_id page_handle

datatype 'c outcome =
    GetReturned bytes "bytes option result"
  | PutReturned bytes bytes "unit result"
  | ScanReturned 'c "unit result" 'c

datatype 'c progress = Continues "'c activity" | Returns "'c outcome"

text \<open>The workload hint is thread local: a fetch sees the hint of the client that makes it.\<close>

definition with_hint :: "workload_hint \<Rightarrow> (engine \<Rightarrow> 'a \<times> engine) \<Rightarrow> database \<Rightarrow> 'a \<times> database" where
  "with_hint hint meth db =
     (let (r, en) = meth ((db_engine db)\<lparr>en_hint := hint\<rparr>)
      in (r, db\<lparr>db_engine := en\<lparr>en_hint := en_hint (db_engine db)\<rparr>\<rparr>))"

definition release_page :: "page_handle \<Rightarrow> database \<Rightarrow> database" where
  "release_page h db = db\<lparr>db_engine := engine_release h (db_engine db)\<rparr>"

text \<open>The end of \<open>read_record\<close>: the record is copied out of its page, and the page is unpinned.\<close>

definition finish_read :: "record_id \<Rightarrow> page_handle \<Rightarrow> database \<Rightarrow> kv option result \<times> database" where
  "finish_read rid h db =
     (bind_result (raw_data h (db_engine db)) (\<lambda>raw. read_slot raw (rid_slot_id rid)), release_page h db)"

fun get_step :: "workload_hint \<Rightarrow> 'c activity \<Rightarrow> database \<Rightarrow> 'c progress \<times> database" where
  "get_step hint (Getting key) db =
     (case lru_get key (db_cache db) of
        Inl e \<Rightarrow> (Returns (GetReturned key (Inl e)), db)
      | Inr (Some val, c) \<Rightarrow> (Returns (GetReturned key (Inr (Some val))), db\<lparr>db_cache := c\<rparr>)
      | Inr (None, c) \<Rightarrow> (Continues (Missed key), db\<lparr>db_cache := c\<rparr>))"
| "get_step hint (Missed key) db =
     (case index_lookup key (db_index db) of
        None \<Rightarrow> (Returns (GetReturned key (Inr None)), db)
      | Some rid \<Rightarrow>
          if rid_page_id rid \<ge> get_total_pages (db_engine db) then (Returns (GetReturned key (Inr None)), db)
          else (Continues (Located key rid), db))"
| "get_step hint (Located key rid) db =
     (case with_hint hint (engine_fetch_page (rid_page_id rid)) db of
        (Inl e, db1) \<Rightarrow> (Returns (GetReturned key (Inl e)), db1)
      | (Inr h, db1) \<Rightarrow> (Continues (Reading key rid h), db1))"
| "get_step hint (Reading key rid h) db =
     (case finish_read rid h db of
        (Inl e, db1) \<Rightarrow> (Returns (GetReturned key (Inl e)), db1)
      | (Inr None, db1) \<Rightarrow> (Returns (GetReturned key (Inr None)), db1)
      | (Inr (Some (k, val)), db1) \<Rightarrow>
          if k = key then (Continues (Refilling key val), db1) else (Returns (GetReturned key (Inr None)), db1))"
| "get_step hint (Refilling key val) db =
     (case lru_put None key val (db_cache db) of
        Inl e \<Rightarrow> (Returns (GetReturned key (Inl e)), db)
      | Inr c \<Rightarrow> (Returns (GetReturned key (Inr (Some val))), db\<lparr>db_cache := c\<rparr>))"
| "get_step hint a db = (Continues a, db)"

fun put_step :: "'c activity \<Rightarrow> database \<Rightarrow> 'c progress \<times> database" where
  "put_step (PutStart key val) db = (Continues (PutLogged key val), db\<lparr>db_wal := snd (wal_append key val (db_wal db))\<rparr>)"
| "put_step (PutLogged key val) db =
     (case on_writer (writer_append key val) db of
        (Inl e, db1) \<Rightarrow> (Returns (PutReturned key val (Inl e)), db1)
      | (Inr rid, db1) \<Rightarrow> (Continues (PutWritten key val rid), db1))"
| "put_step (PutWritten key val rid) db =
     (Continues (PutIndexed key val), db\<lparr>db_index := index_insert key rid (db_index db)\<rparr>)"
| "put_step (PutIndexed key val) db =
     (case lru_put None key val (db_cache db) of
        Inl e \<Rightarrow> (Returns (PutReturned key val (Inl e)), db)
      | Inr c \<Rightarrow> (Returns (PutReturned key val (Inr ())), db\<lparr>db_cache := c\<rparr>))"
| "put_step a db = (Continues a, db)"

text \<open>The unwinding of an exception unpins the page that the loop over the slots holds.\<close>

fun scan_step ::
  "(record_id \<Rightarrow> bytes \<Rightarrow> bytes \<Rightarrow> 'c \<Rightarrow> unit result \<times> 'c) \<Rightarrow> workload_hint \<Rightarrow> 'c activity \<Rightarrow> database \<Rightarrow>
   'c progress \<times> database" where
  "scan_step cb hint (ScanPages sc) db =
     (case sc_pages sc of
        [] \<Rightarrow> (Returns (ScanReturned (sc_start sc) (Inr ()) (sc_state sc)), db)
      | p # ps \<Rightarrow>
          (case with_hint hint (engine_fetch_page (word_of_nat p)) db of
             (Inl e, db1) \<Rightarrow> (Returns (ScanReturned (sc_start sc) (Inl e) (sc_state sc)), db1)
           | (Inr h, db1) \<Rightarrow>
               (case bind_result (raw_data h (db_engine db1)) (\<lambda>raw. load raw PAGE_HEADER_SIZE 2) of
                  Inl e \<Rightarrow> (Returns (ScanReturned (sc_start sc) (Inl e) (sc_state sc)), release_page h db1)
                | Inr slot_count \<Rightarrow>
                    (Continues (ScanSlots (sc\<lparr>sc_pages := ps\<rparr>) (word_of_nat p) h [0..<unat (get_u16 slot_count)]), db1))))"
| "scan_step cb hint (ScanSlots sc pid h []) db =
     (Continues (ScanPages sc), release_page h (db\<lparr>db_engine :=
        prefetch_ahead (map word_of_nat [1..<Suc (unat PREFETCH_LOOKAHEAD)]) pid (sc_total sc) (db_engine db)\<rparr>))"
| "scan_step cb hint (ScanSlots sc pid h (sid # ss)) db =
     (let rid = RecordID pid (word_of_nat sid)
      in if pid \<ge> get_total_pages (db_engine db) then (Continues (ScanSlots sc pid h ss), db)
         else (case with_hint hint (engine_fetch_page pid) db of
             (Inl e, db1) \<Rightarrow> (Returns (ScanReturned (sc_start sc) (Inl e) (sc_state sc)), release_page h db1)
           | (Inr h', db1) \<Rightarrow> (Continues (ScanRecord sc pid h ss rid h'), db1)))"
| "scan_step cb hint (ScanRecord sc pid h ss rid h') db =
     (case finish_read rid h' db of
        (Inl e, db1) \<Rightarrow> (Returns (ScanReturned (sc_start sc) (Inl e) (sc_state sc)), release_page h db1)
      | (Inr None, db1) \<Rightarrow> (Continues (ScanSlots sc pid h ss), db1)
      | (Inr (Some (key, val)), db1) \<Rightarrow>
          (case cb rid key val (sc_state sc) of
             (Inl e, c) \<Rightarrow> (Returns (ScanReturned (sc_start sc) (Inl e) c), release_page h db1)
           | (Inr _, c) \<Rightarrow> (Continues (ScanSlots (sc\<lparr>sc_state := c\<rparr>) pid h ss), db1)))"
| "scan_step cb hint a db = (Continues a, db)"

fun holds_shared :: "'c activity \<Rightarrow> bool" where
  "holds_shared (Getting _) = True"
| "holds_shared (Missed _) = True"
| "holds_shared (Located _ _) = True"
| "holds_shared (Reading _ _ _) = True"
| "holds_shared (Refilling _ _) = True"
| "holds_shared _ = False"

fun holds_exclusive :: "'c activity \<Rightarrow> bool" where
  "holds_exclusive (PutStart _ _) = True"
| "holds_exclusive (PutLogged _ _) = True"
| "holds_exclusive (PutWritten _ _ _) = True"
| "holds_exclusive (PutIndexed _ _) = True"
| "holds_exclusive _ = False"

definition call_step ::
  "(record_id \<Rightarrow> bytes \<Rightarrow> bytes \<Rightarrow> 'c \<Rightarrow> unit result \<times> 'c) \<Rightarrow> workload_hint \<Rightarrow> 'c activity \<Rightarrow> database \<Rightarrow>
   'c progress \<times> database" where
  "call_step cb hint a db =
     (if holds_shared a then get_step hint a db
      else if holds_exclusive a then put_step a db
      else scan_step cb hint a db)"

section \<open>Clients and schedules\<close>

text \<open>Each client has a workload hint and a call; \<open>sh_returned\<close> lists the calls that have returned, in order.\<close>

record 'c shared =
  sh_db :: database
  sh_hints :: "workload_hint list"
  sh_calls :: "'c activity list"
  sh_returned :: "(nat \<times> 'c outcome) list"

datatype 'c move =
    StartGet nat bytes
  | StartPut nat bytes bytes
  | StartScan nat 'c
  | Advance nat
  | Prefetch nat

definition idle :: "nat \<Rightarrow> 'c shared \<Rightarrow> bool" where
  "idle i sh \<longleftrightarrow> i < length (sh_calls sh) \<and> sh_calls sh ! i = Idle"

abbreviation holds_lock :: "'c activity \<Rightarrow> bool" where
  "holds_lock a \<equiv> holds_shared a \<or> holds_exclusive a"

text \<open>A scan that returns sets the hint back; an exception leaves it.\<close>

definition hint_after :: "'c outcome \<Rightarrow> workload_hint \<Rightarrow> workload_hint" where
  "hint_after out hint = (case out of ScanReturned _ (Inr _) _ \<Rightarrow> PointLookup | _ \<Rightarrow> hint)"

text \<open>A call that the lock keeps out, or a client that is not there or busy, waits: nothing changes.\<close>

primrec make_move ::
  "(record_id \<Rightarrow> bytes \<Rightarrow> bytes \<Rightarrow> 'c \<Rightarrow> unit result \<times> 'c) \<Rightarrow> 'c move \<Rightarrow> 'c shared \<Rightarrow> 'c shared" where
  "make_move cb (StartGet i key) sh =
     (if idle i sh \<and> \<not> list_ex holds_exclusive (sh_calls sh)
      then sh\<lparr>sh_calls := (sh_calls sh)[i := Getting key]\<rparr> else sh)"
| "make_move cb (StartPut i key val) sh =
     (if idle i sh \<and> \<not> list_ex holds_lock (sh_calls sh)
      then sh\<lparr>sh_calls := (sh_calls sh)[i := PutStart key val]\<rparr> else sh)"
| "make_move cb (StartScan i c) sh =
     (if idle i sh
      then let total_pages = get_total_pages (db_engine (sh_db sh));
               sc = \<lparr>sc_start = c, sc_total = total_pages, sc_pages = [0..<unat total_pages], sc_state = c\<rparr>
           in sh\<lparr>sh_hints := (sh_hints sh)[i := Scan], sh_calls := (sh_calls sh)[i := ScanPages sc]\<rparr>
      else sh)"
| "make_move cb (Advance i) sh =
     (if i < length (sh_calls sh)
      then case call_step cb (sh_hints sh ! i) (sh_calls sh ! i) (sh_db sh) of
             (Continues a, db) \<Rightarrow> sh\<lparr>sh_db := db, sh_calls := (sh_calls sh)[i := a]\<rparr>
           | (Returns out, db) \<Rightarrow>
               sh\<lparr>sh_db := db, sh_hints := (sh_hints sh)[i := hint_after out (sh_hints sh ! i)],
                  sh_calls := (sh_calls sh)[i := Idle], sh_returned := sh_returned sh @ [(i, out)]\<rparr>
      else sh)"
| "make_move cb (Prefetch j) sh =
     sh\<lparr>sh_db := (sh_db sh)\<lparr>db_engine := thread_step j (db_engine (sh_db sh))\<rparr>\<rparr>"

definition clients :: "nat \<Rightarrow> database \<Rightarrow> 'c shared" where
  "clients n db = \<lparr>sh_db = db, sh_hints = replicate n initial_workload_hint, sh_calls = replicate n Idle, sh_returned = []\<rparr>"

definition run_moves ::
  "(record_id \<Rightarrow> bytes \<Rightarrow> bytes \<Rightarrow> 'c \<Rightarrow> unit result \<times> 'c) \<Rightarrow> 'c move list \<Rightarrow> 'c shared \<Rightarrow> 'c shared" where
  "run_moves cb ms sh = fold (make_move cb) ms sh"

section \<open>Steps of calls\<close>

fun held :: "'c activity \<Rightarrow> page_handle list" where
  "held (Reading _ _ h) = [h]"
| "held (ScanSlots _ _ h _) = [h]"
| "held (ScanRecord _ _ h _ _ h') = [h', h]"
| "held _ = []"

abbreviation after :: "'c progress \<Rightarrow> 'c activity" where
  "after p \<equiv> (case p of Continues a \<Rightarrow> a | Returns _ \<Rightarrow> Idle)"

lemma db_holds_perm: "db_holds hs rss log db \<Longrightarrow> mset hs = mset hs' \<Longrightarrow> db_holds hs' rss log db"
  using handles_ok_perm [of "en_cache (db_engine db)" "hs @ ts" "hs' @ ts" for ts] set_from_mset [of hs hs']
  by (simp add: db_holds_def engine_ok_def)

lemma db_holds_total: "db_holds hs rss log db \<Longrightarrow> unat (get_total_pages (db_engine db)) = length rss"
  using db_okD(2) by (simp add: store_image_def)

lemma db_holds_page:
  assumes ok: "db_holds hs rss log db" and pid: "unat pid < length rss"
  shows "pid < get_total_pages (db_engine db)" "page_image (engine_view (db_engine db) pid) (rss ! unat pid)"
proof -
  show "pid < get_total_pages (db_engine db)" using pid db_holds_total [OF ok] by (simp add: word_less_nat_alt)
  have "page_image (engine_view (db_engine db) (word_of_nat (unat pid))) (rss ! unat pid)"
    using db_okD(2) [OF ok] pid unfolding store_image_def by blast
  then show "page_image (engine_view (db_engine db) pid) (rss ! unat pid)" by simp
qed

lemma fetch_step:
  assumes ok: "db_holds hs rss log db" and pid: "unat pid < length rss"
  obtains h db' where "with_hint hint (engine_fetch_page pid) db = (Inr h, db')" "ph_page_id h = pid"
    "db_holds (h # hs) rss log db'" "db_index db' = db_index db" "db_cache db' = db_cache db"
proof -
  let ?db1 = "set_workload_hint hint db"
  have ok1: "db_holds hs rss log ?db1" by (rule db_ok_fields(4) [OF ok])
  obtain r en where f: "engine_fetch_page pid (db_engine ?db1) = (r, en)" by fastforce
  from engine_fetch_ok [OF db_okD(1) [OF ok1] db_holds_page(1) [OF ok1 pid] f] db_okD(3) [OF ok1]
  obtain h where h: "r = Inr h" "ph_page_id h = pid" "engine_ok (h # hs) en" "same_store (db_engine ?db1) en" by auto
  let ?db' = "set_workload_hint (en_hint (db_engine db)) (?db1\<lparr>db_engine := en\<rparr>)"
  have "db_holds (h # hs) rss log ?db'" by (rule db_ok_fields(4) [OF db_ok_read [OF ok1 h(3,4)]])
  moreover have "with_hint hint (engine_fetch_page pid) db = (Inr h, ?db')"
    using f h(1) by (simp add: with_hint_def set_workload_hint_def)
  ultimately show thesis using h(2) by (intro that [of h ?db']) (simp_all add: set_workload_hint_def)
qed

lemma release_step:
  assumes ok: "db_holds (h # hs) rss log db"
  shows "db_holds hs rss log (release_page h db)"
  using db_ok_read [OF ok] engine_release_ok [OF db_okD(1) [OF ok]] by (simp add: release_page_def)

lemma release_page_fields [simp]:
  "db_index (release_page h db) = db_index db" "db_cache (release_page h db) = db_cache db"
  by (simp_all add: release_page_def)

lemma held_page_data:
  assumes ok: "db_holds (h # hs) rss log db" and pid: "unat (ph_page_id h) < length rss"
  shows "\<exists>raw. raw_data h (db_engine db) = Inr raw \<and> page_image raw (rss ! unat (ph_page_id h))"
  using raw_data_ok [OF db_okD(1) [OF ok]] db_holds_page(2) [OF ok pid] by blast

lemma finish_read_step:
  assumes ok: "db_holds (h # hs) rss log db" and h: "ph_page_id h = rid_page_id rid"
    and pid: "unat (rid_page_id rid) < length rss"
  shows "\<exists>db'. finish_read rid h db = (Inr (record_at rss rid), db') \<and> db_holds hs rss log db' \<and>
    db_index db' = db_index db \<and> db_cache db' = db_cache db"
proof -
  obtain raw where raw: "raw_data h (db_engine db) = Inr raw" "page_image raw (rss ! unat (rid_page_id rid))"
    using held_page_data [OF ok] h pid by auto
  then have "fst (finish_read rid h db) = Inr (record_at rss rid)"
    using read_slot_page_image [OF raw(2), of "rid_slot_id rid"] pid by (simp add: finish_read_def record_at_def)
  then show ?thesis using release_step [OF ok] by (simp add: finish_read_def)
qed

lemma held_page_count:
  assumes ok: "db_holds (h # hs) rss log db" and pid: "unat (ph_page_id h) < length rss"
  shows "\<exists>cnt. bind_result (raw_data h (db_engine db)) (\<lambda>raw. load raw PAGE_HEADER_SIZE 2) = Inr cnt \<and>
    unat (get_u16 cnt) = length (rss ! unat (ph_page_id h))"
proof -
  obtain raw where raw: "raw_data h (db_engine db) = Inr raw" "page_image raw (rss ! unat (ph_page_id h))"
    using held_page_data [OF ok pid] by blast
  then have "slotted raw (rss ! unat (ph_page_id h))" "mread raw 64 2 = put_u16 (word_of_nat (length (rss ! unat (ph_page_id h))))"
    by (simp_all add: page_image_def)
  with raw(1) slottedD(1,5) [OF this(1)] show ?thesis by simp
qed

section \<open>Gets\<close>

text \<open>
  \<open>view_ok ex K Q rss db m\<close>: what the database finds agrees with \<open>m\<close>. When \<open>ex\<close> holds, for which the keys \<open>K\<close> must
  fit the record cache, it is all of \<open>m\<close>; otherwise neither the cache nor the index contradicts \<open>m\<close>. The keys \<open>Q\<close>,
  which a put has just entered into the index, are left out.
\<close>

definition view_ok :: "bool \<Rightarrow> bytes set \<Rightarrow> bytes set \<Rightarrow> kv list list \<Rightarrow> database \<Rightarrow> (bytes \<rightharpoonup> bytes) \<Rightarrow> bool" where
  "view_ok ex K Q rss db m \<longleftrightarrow> cached db \<subseteq>\<^sub>m m \<and>
     (if ex then finite K \<and> card K \<le> lc_capacity (db_cache db) \<and> dom m \<subseteq> K \<and> (\<forall>q. q \<notin> Q \<longrightarrow> found rss db q = m q)
      else indexed rss (db_index db) \<subseteq>\<^sub>m m) \<and>
     (\<forall>q \<in> Q. indexed rss (db_index db) q = None)"

lemma view_ok_indexed:
  assumes "view_ok ex K Q rss db m" and "ex \<longrightarrow> indexed rss (db_index db) k = m k" and "indexed rss (db_index db) k = Some v"
  shows "m k = Some v"
  using assms by (cases ex) (auto simp: view_ok_def map_le_def dom_def)

fun get_ok :: "bool \<Rightarrow> kv list list \<Rightarrow> hash_index \<Rightarrow> (bytes \<rightharpoonup> bytes) \<Rightarrow> 'c activity \<Rightarrow> bool" where
  "get_ok ex rss idx m (Missed k) = (ex \<longrightarrow> indexed rss idx k = m k)"
| "get_ok ex rss idx m (Located k rid) =
     (idx k = Some rid \<and> unat (rid_page_id rid) < length rss \<and> (ex \<longrightarrow> indexed rss idx k = m k))"
| "get_ok ex rss idx m (Reading k rid h) =
     (idx k = Some rid \<and> unat (rid_page_id rid) < length rss \<and> (ex \<longrightarrow> indexed rss idx k = m k) \<and>
      ph_page_id h = rid_page_id rid)"
| "get_ok ex rss idx m (Refilling k v) = (m k = Some v)"
| "get_ok ex rss idx m _ = True"

definition get_result :: "bool \<Rightarrow> (bytes \<rightharpoonup> bytes) \<Rightarrow> bytes \<Rightarrow> bytes option result \<Rightarrow> bool" where
  "get_result ex m k r \<longleftrightarrow> r = Inr (m k) \<or> (\<not> ex \<and> r = Inr None)"

lemma view_ok_same:
  assumes "view_ok ex K Q rss db m" and "db_index db' = db_index db" and "cached db' = cached db"
    and "lc_capacity (db_cache db') = lc_capacity (db_cache db)"
  shows "view_ok ex K Q rss db' m"
  using assms by (simp add: view_ok_def found_indexed cong: if_cong)

text \<open>Putting the value that the map has.\<close>

lemma view_ok_refill:
  assumes v: "view_ok ex K {} rss db m" and ok: "db_holds hs rss log db" and mk: "m k = Some val"
  shows "\<exists>c. lru_put None k val (db_cache db) = Inr c \<and> lru_usable c \<and> view_ok ex K {} rss (db\<lparr>db_cache := c\<rparr>) m"
proof -
  have u: "lru_usable (db_cache db)" by (rule db_okD(7) [OF ok])
  have sub: "cached db \<subseteq>\<^sub>m m" using v by (simp add: view_ok_def)
  obtain c where c: "lru_put None k val (db_cache db) = Inr c" "lru_usable c" "map_of (lru_view c) \<subseteq>\<^sub>m m"
    using lru.refill_coherent [OF u sub mk, of None] by blast
  let ?db' = "db\<lparr>db_cache := c\<rparr>"
  have "lc_capacity c = lc_capacity (db_cache db)" by (rule sized_lru.put_limit [OF u c(1)])
  moreover have "found rss ?db' q = m q" if ex: ex for q
  proof -
    have K: "finite K" "card K \<le> lc_capacity (db_cache db)" "dom m \<subseteq> K" "found rss db q = m q"
      using v ex by (simp_all add: view_ok_def)
    then have "dom (cached db) \<subseteq> K" "k \<in> K" using map_le_implies_dom_le [OF sub] mk by auto
    then have "map_of (lru_view c) = (cached db)(k \<mapsto> val)"
      using sized_lru.put_within [OF u _ K(1,2), of k None val] c(1) by auto
    then show ?thesis using K(4) mk by (simp add: found_indexed)
  qed
  ultimately show ?thesis using v c by (simp add: view_ok_def)
qed

text \<open>A step of a get that keeps all of this, or returns a right result.\<close>

definition get_advances ::
  "bool \<Rightarrow> bytes set \<Rightarrow> workload_hint \<Rightarrow> kv list list \<Rightarrow> kv list list \<times> kv list \<Rightarrow> page_handle list \<Rightarrow>
   (bytes \<rightharpoonup> bytes) \<Rightarrow> 'c activity \<Rightarrow> database \<Rightarrow> bool" where
  "get_advances ex K hint rss log hs m a db \<longleftrightarrow>
     (\<exists>p db'. get_step hint a db = (p, db') \<and> db_holds (held (after p) @ hs) rss log db' \<and>
        db_index db' = db_index db \<and> view_ok ex K {} rss db' m \<and>
        (case p of Continues a' \<Rightarrow> holds_shared a' \<and> get_ok ex rss (db_index db) m a'
         | Returns out \<Rightarrow> (\<exists>k r. out = GetReturned k r \<and> get_result ex m k r)))"

lemma get_asks_cache:
  assumes ok: "db_holds hs rss log db" and v: "view_ok ex K {} rss db m"
  shows "get_advances ex K hint rss log hs m (Getting k :: 'c activity) db"
proof -
  have co: "cached db \<subseteq>\<^sub>m m" using v by (simp add: view_ok_def)
  obtain c where c: "lru_get k (db_cache db) = Inr (cached db k, c)" "lru_usable c"
    "map_of (lru_view c) = cached db" "lc_capacity c = lc_capacity (db_cache db)"
    using sized_lru.get_within [OF db_okD(7) [OF ok]] by blast
  let ?db' = "db\<lparr>db_cache := c\<rparr>"
  have "view_ok ex K {} rss ?db' m" by (rule view_ok_same [OF v]) (simp_all add: c)
  moreover have "db_holds hs rss log ?db'" by (rule db_ok_fields(3) [OF ok c(2)])
  moreover have "cached db k = Some w \<Longrightarrow> get_result ex m k (Inr (Some w))" for w
    using co by (auto simp: map_le_def dom_def get_result_def)
  moreover have "cached db k = None \<Longrightarrow> ex \<longrightarrow> indexed rss (db_index db) k = m k"
    using v by (auto simp: view_ok_def found_indexed map_add_def elim!: allE [of _ k])
  ultimately show ?thesis using c(1) by (cases "cached db k") (simp_all add: get_advances_def)
qed

lemma get_asks_index:
  assumes ok: "db_holds hs rss log db" and v: "view_ok ex K {} rss db m"
    and a: "get_ok ex rss (db_index db) m (Missed k :: 'c activity)"
  shows "get_advances ex K hint rss log hs m (Missed k :: 'c activity) db"
proof -
  have none: "get_result ex m k (Inr None)" if "indexed rss (db_index db) k = None"
    using a that by (auto simp: get_result_def)
  show ?thesis
  proof (cases "db_index db k")
    case None
    then have "indexed rss (db_index db) k = None" by (simp add: indexed_def)
    with None none ok v show ?thesis by (simp add: index_lookup_def get_advances_def)
  next
    case (Some rid)
    have total: "rid_page_id rid \<ge> get_total_pages (db_engine db) \<longleftrightarrow> \<not> unat (rid_page_id rid) < length rss"
      using db_holds_total [OF ok] by (simp add: word_le_nat_alt not_less)
    have "\<not> unat (rid_page_id rid) < length rss \<Longrightarrow> indexed rss (db_index db) k = None"
      by (simp add: indexed_def Some record_at_def)
    with Some none ok v total a show ?thesis by (auto simp: index_lookup_def get_advances_def)
  qed
qed

lemma get_reads_record:
  assumes ok: "db_holds (h # hs) rss log db" and v: "view_ok ex K {} rss db m"
    and a: "get_ok ex rss (db_index db) m (Reading k rid h :: 'c activity)"
  shows "get_advances ex K hint rss log hs m (Reading k rid h :: 'c activity) db"
proof -
  have g: "db_index db k = Some rid" "unat (rid_page_id rid) < length rss" "ph_page_id h = rid_page_id rid"
    "ex \<longrightarrow> indexed rss (db_index db) k = m k"
    using a by simp_all
  obtain db' where f: "finish_read rid h db = (Inr (record_at rss rid), db')" "db_holds hs rss log db'"
    "db_index db' = db_index db" "db_cache db' = db_cache db"
    using finish_read_step [OF ok g(3,2)] by blast
  have v': "view_ok ex K {} rss db' m" by (rule view_ok_same [OF v f(3)]) (simp_all add: f(4))
  show ?thesis
  proof (cases "indexed rss (db_index db) k")
    case None
    then have "get_result ex m k (Inr None)" using g(4) by (auto simp: get_result_def)
    moreover have "get_step hint (Reading k rid h :: 'c activity) db = (Returns (GetReturned k (Inr None)), db')"
      using None g(1) f(1) by (auto simp: indexed_def split: option.splits if_splits)
    ultimately show ?thesis using f(2,3) v' by (simp add: get_advances_def)
  next
    case (Some val)
    then have "record_at rss rid = Some (k, val)" using g(1) by (auto simp: indexed_def split: option.splits if_splits)
    moreover have "m k = Some val" by (rule view_ok_indexed [OF v g(4) Some])
    ultimately show ?thesis using f v' by (simp add: get_advances_def)
  qed
qed

lemma get_step_ok:
  assumes ok: "db_holds (held a @ hs) rss log db" and v: "view_ok ex K {} rss db m"
    and a: "get_ok ex rss (db_index db) m a" "holds_shared a"
  shows "get_advances ex K hint rss log hs m a db"
proof -
  from a(2) consider k where "a = Getting k" | k where "a = Missed k" | k rid where "a = Located k rid"
    | k rid h where "a = Reading k rid h" | k val where "a = Refilling k val"
    by (cases a) auto
  then show ?thesis
  proof cases
    case 1
    with ok show ?thesis by (simp add: get_asks_cache [OF _ v])
  next
    case 2
    with ok a(1) show ?thesis by (simp add: get_asks_index [OF _ v])
  next
    case 3
    then have pid: "unat (rid_page_id rid) < length rss" and ok': "db_holds hs rss log db" using a(1) ok by simp_all
    obtain h db' where f: "with_hint hint (engine_fetch_page (rid_page_id rid)) db = (Inr h, db')"
      "ph_page_id h = rid_page_id rid" "db_holds (h # hs) rss log db'" "db_index db' = db_index db" "db_cache db' = db_cache db"
      by (rule fetch_step [OF ok' pid])
    have "view_ok ex K {} rss db' m" by (rule view_ok_same [OF v f(4)]) (simp_all add: f(5))
    with f a(1) show ?thesis by (simp add: 3 get_advances_def)
  next
    case 4
    with ok a(1) get_reads_record [OF _ v, of h hs log k rid hint] show ?thesis by simp
  next
    case 5
    then have mk: "m k = Some val" using a(1) by simp
    obtain c where "lru_put None k val (db_cache db) = Inr c" "lru_usable c" "view_ok ex K {} rss (db\<lparr>db_cache := c\<rparr>) m"
      using view_ok_refill [OF v ok mk] by blast
    then show ?thesis using mk db_ok_fields(3) [OF ok] by (simp add: 5 get_result_def get_advances_def)
  qed
qed

section \<open>Puts\<close>

fun entering :: "'c activity \<Rightarrow> bytes set" where
  "entering (PutIndexed k v) = {k}"
| "entering _ = {}"

fun put_ok :: "bool \<Rightarrow> bytes set \<Rightarrow> kv list list \<Rightarrow> 'c activity \<Rightarrow> bool" where
  "put_ok ex K rss (PutStart k v) = (ex \<longrightarrow> k \<in> K)"
| "put_ok ex K rss (PutLogged k v) = (ex \<longrightarrow> k \<in> K)"
| "put_ok ex K rss (PutWritten k v rid) = (fits_page (k, v) \<and> record_at rss rid = None \<and> (ex \<longrightarrow> k \<in> K))"
| "put_ok ex K rss (PutIndexed k v) = (fits_page (k, v) \<and> (ex \<longrightarrow> k \<in> K))"
| "put_ok ex K rss _ = True"

definition put_result :: "bytes \<Rightarrow> bytes \<Rightarrow> unit result" where
  "put_result k v = (if fits_page (k, v) then Inr () else Inl RecordTooLarge)"

text \<open>What the calls that returned have done to the map.\<close>

definition outcome_map :: "'c outcome \<Rightarrow> (bytes \<rightharpoonup> bytes) \<Rightarrow> (bytes \<rightharpoonup> bytes)" where
  "outcome_map out m = (case out of PutReturned k v (Inr _) \<Rightarrow> m(k \<mapsto> v) | _ \<Rightarrow> m)"

abbreviation progress_map :: "'c progress \<Rightarrow> (bytes \<rightharpoonup> bytes) \<Rightarrow> (bytes \<rightharpoonup> bytes)" where
  "progress_map p m \<equiv> (case p of Continues _ \<Rightarrow> m | Returns out \<Rightarrow> outcome_map out m)"

text \<open>Entering a record of a page that the engine does not serve into the index hides what the index found.\<close>

lemma view_ok_index:
  assumes "view_ok ex K {} rss db m" and "record_at rss rid = None"
  shows "view_ok ex K {k} rss (db\<lparr>db_index := index_insert k rid (db_index db)\<rparr>) m"
  using assms by (auto simp: view_ok_def index_insert_def found_indexed indexed_insert map_add_def map_le_def
      split: if_splits cong: option.case_cong)

lemma view_ok_put:
  assumes v: "view_ok ex K {k} rss db m" and ok: "db_holds hs rss log db" and k: "ex \<longrightarrow> k \<in> K"
  shows "\<exists>c. lru_put None k val (db_cache db) = Inr c \<and> lru_usable c \<and>
    view_ok ex K {} rss (db\<lparr>db_cache := c\<rparr>) (m(k \<mapsto> val)) "
proof -
  have u: "lru_usable (db_cache db)" by (rule db_okD(7) [OF ok])
  have sub: "cached db \<subseteq>\<^sub>m m" using v by (simp add: view_ok_def)
  obtain c where c: "lru_put None k val (db_cache db) = Inr c" "lru_usable c" "map_of (lru_view c) \<subseteq>\<^sub>m m(k \<mapsto> val)"
    using lru.put_coherent [OF u sub, of None k val] by blast
  let ?db' = "db\<lparr>db_cache := c\<rparr>"
  have cap: "lc_capacity c = lc_capacity (db_cache db)" by (rule sized_lru.put_limit [OF u c(1)])
  have "found rss ?db' q = (m(k \<mapsto> val)) q" if ex: ex for q
  proof -
    have K: "finite K" "card K \<le> lc_capacity (db_cache db)" "dom m \<subseteq> K" "k \<in> K" "q \<noteq> k \<Longrightarrow> found rss db q = m q"
      using v k ex by (simp_all add: view_ok_def)
    then have "dom (cached db) \<subseteq> K" using map_le_implies_dom_le [OF sub] by auto
    then have "map_of (lru_view c) = (cached db)(k \<mapsto> val)"
      using sized_lru.put_within [OF u _ K(1,2,4), of None val] c(1) by auto
    then show ?thesis using K(5) by (simp add: found_indexed)
  qed
  moreover have "dom (m(k \<mapsto> val)) \<subseteq> K" if ex using v k that by (auto simp: view_ok_def)
  moreover have "indexed rss (db_index db) \<subseteq>\<^sub>m m(k \<mapsto> val)" if "\<not> ex"
    using v that by (auto simp: view_ok_def map_le_def)
  ultimately show ?thesis using v c cap by (simp add: view_ok_def)
qed

lemma put_step_ok:
  assumes ok: "db_holds hs rss log db" and v: "view_ok ex K (entering a) rss db m"
    and a: "put_ok ex K rss a" "holds_exclusive a" and few: "Suc (length (fst log)) < 4294967296"
  shows "\<exists>p db' log'. put_step a db = (p, db') \<and> db_holds hs rss log' db' \<and> length (fst log') \<le> Suc (length (fst log)) \<and>
    view_ok ex K (entering (after p)) rss db' (progress_map p m) \<and> held (after p) = [] \<and>
    (case p of Continues a' \<Rightarrow> holds_exclusive a' \<and> put_ok ex K rss a'
     | Returns out \<Rightarrow> (\<exists>k v. out = PutReturned k v (put_result k v)))"
proof -
  from a(2) consider k val where "a = PutStart k val" | k val where "a = PutLogged k val"
    | k val rid where "a = PutWritten k val rid" | k val where "a = PutIndexed k val"
    by (cases a) auto
  then show ?thesis
  proof cases
    case 1
    have "view_ok ex K {} rss (db\<lparr>db_wal := w\<rparr>) m" for w by (rule view_ok_same [OF v [unfolded 1, simplified]]) simp_all
    with a(1) db_ok_fields(2) [OF ok] show ?thesis by (intro exI [of _ log] exI) (auto simp: 1)
  next
    case 2
    obtain r db' where w: "on_writer (writer_append k val) db = (r, db')" "db_index db' = db_index db"
      "db_cache db' = db_cache db"
      "if fits_page (k, val)
       then r = Inr (rid_of_last (place (k, val) log)) \<and> record_at rss (rid_of_last (place (k, val) log)) = None \<and>
         db_holds hs rss (place (k, val) log) db'
       else r = Inl RecordTooLarge \<and> db_holds hs rss (log_pages log, []) db'"
      by (rule append_record_ok [OF ok few, of k val]) (rule that; assumption)
    have v': "view_ok ex K {} rss db' m" by (rule view_ok_same [OF v [unfolded 2, simplified] w(2)]) (simp_all add: w(3))
    have len: "length (fst (place (k, val) log)) \<le> Suc (length (fst log))" "length (log_pages log) \<le> Suc (length (fst log))"
      by (simp_all add: place_def log_pages_def)
    show ?thesis
    proof (cases "fits_page (k, val)")
      case True
      with w v' len a(1) show ?thesis
        by (intro exI [of _ "Continues (PutWritten k val (rid_of_last (place (k, val) log)))"] exI [of _ db']
            exI [of _ "place (k, val) log"]) (simp add: 2)
    next
      case False
      with w v' len show ?thesis
        by (intro exI [of _ "Returns (PutReturned k val (Inl RecordTooLarge))"] exI [of _ db']
            exI [of _ "(log_pages log, [])"]) (simp add: 2 outcome_map_def put_result_def)
    qed
  next
    case 3
    then have p: "fits_page (k, val)" "record_at rss rid = None" "ex \<longrightarrow> k \<in> K" using a(1) by simp_all
    have "view_ok ex K {k} rss (db\<lparr>db_index := index_insert k rid (db_index db)\<rparr>) m"
      by (rule view_ok_index [OF _ p(2)]) (use v in \<open>simp add: 3\<close>)
    with p db_ok_fields(1) [OF ok] show ?thesis
      by (intro exI [of _ "Continues (PutIndexed k val)"] exI [of _ "db\<lparr>db_index := index_insert k rid (db_index db)\<rparr>"]
          exI [of _ log]) (simp add: 3)
  next
    case 4
    then have p: "fits_page (k, val)" "ex \<longrightarrow> k \<in> K" using a(1) by simp_all
    obtain c where c: "lru_put None k val (db_cache db) = Inr c" "lru_usable c"
      "view_ok ex K {} rss (db\<lparr>db_cache := c\<rparr>) (m(k \<mapsto> val))"
      using view_ok_put [OF _ ok p(2), of m] v by (auto simp: 4)
    with p(1) db_ok_fields(3) [OF ok c(2)] show ?thesis
      by (intro exI [of _ "Returns (PutReturned k val (Inr ()))"] exI [of _ "db\<lparr>db_cache := c\<rparr>"] exI [of _ log])
        (simp add: 4 outcome_map_def put_result_def)
  qed
qed

section \<open>Scans\<close>

text \<open>The records that a scan has yet to deliver, and what it relies on.\<close>

definition slot_records :: "kv list list \<Rightarrow> u32 \<Rightarrow> nat list \<Rightarrow> (record_id \<times> kv) list" where
  "slot_records rss pid ss = map (\<lambda>j. (RecordID pid (word_of_nat j), rss ! unat pid ! j)) ss"

definition page_records :: "kv list list \<Rightarrow> nat list \<Rightarrow> (record_id \<times> kv) list" where
  "page_records rss ps = concat (map (\<lambda>i. records_of_page (word_of_nat i) (rss ! i)) ps)"

definition slots_ok :: "kv list list \<Rightarrow> u32 \<Rightarrow> page_handle \<Rightarrow> nat list \<Rightarrow> bool" where
  "slots_ok rss pid h ss \<longleftrightarrow> unat pid < length rss \<and> ph_page_id h = pid \<and> (\<forall>s \<in> set ss. s < length (rss ! unat pid))"

definition scan_goes_on ::
  "(record_id \<Rightarrow> bytes \<Rightarrow> bytes \<Rightarrow> 'c \<Rightarrow> unit result \<times> 'c) \<Rightarrow> kv list list \<Rightarrow> (record_id \<times> kv) list \<Rightarrow> 'c scan_call \<Rightarrow> bool" where
  "scan_goes_on cb rss xs sc \<longleftrightarrow> (\<forall>i \<in> set (sc_pages sc). i < length rss) \<and>
     visit cb (xs @ page_records rss (sc_pages sc)) (sc_state sc) = visit cb (all_records rss) (sc_start sc)"

fun scan_ok ::
  "(record_id \<Rightarrow> bytes \<Rightarrow> bytes \<Rightarrow> 'c \<Rightarrow> unit result \<times> 'c) \<Rightarrow> kv list list \<Rightarrow> 'c activity \<Rightarrow> bool" where
  "scan_ok cb rss (ScanPages sc) = scan_goes_on cb rss [] sc"
| "scan_ok cb rss (ScanSlots sc pid h ss) = (slots_ok rss pid h ss \<and> scan_goes_on cb rss (slot_records rss pid ss) sc)"
| "scan_ok cb rss (ScanRecord sc pid h ss rid h') =
     (slots_ok rss pid h ss \<and> ph_page_id h' = pid \<and> rid_page_id rid = pid \<and>
      (\<exists>x. record_at rss rid = Some x \<and> scan_goes_on cb rss ((rid, x) # slot_records rss pid ss) sc))"
| "scan_ok cb rss _ = True"

text \<open>A step of a scan that keeps all of this, or ends the scan with what it has to return.\<close>

definition scan_advances ::
  "(record_id \<Rightarrow> bytes \<Rightarrow> bytes \<Rightarrow> 'c \<Rightarrow> unit result \<times> 'c) \<Rightarrow> workload_hint \<Rightarrow> kv list list \<Rightarrow>
   kv list list \<times> kv list \<Rightarrow> page_handle list \<Rightarrow> 'c activity \<Rightarrow> database \<Rightarrow> bool" where
  "scan_advances cb hint rss log hs a db \<longleftrightarrow>
     (\<exists>p db'. scan_step cb hint a db = (p, db') \<and> db_holds (held (after p) @ hs) rss log db' \<and>
        db_index db' = db_index db \<and> db_cache db' = db_cache db \<and>
        (case p of Continues a' \<Rightarrow> \<not> holds_lock a' \<and> scan_ok cb rss a'
         | Returns out \<Rightarrow> (\<exists>c r c'. out = ScanReturned c r c' \<and> (r, c') = visit cb (all_records rss) c)))"

lemma scan_next_page:
  assumes ok: "db_holds hs rss log db" and g: "scan_goes_on cb rss [] sc" and ps: "sc_pages sc = p # ps"
  shows "scan_advances cb hint rss log hs (ScanPages sc) db"
proof -
  let ?pid = "word_of_nat p :: u32" and ?sc = "sc\<lparr>sc_pages := ps\<rparr>"
  have p: "p < length rss" using g ps by (simp add: scan_goes_on_def)
  then have short: "unat ?pid = p"
    using db_holds_total [OF ok] unat_u32_lt [of "get_total_pages (db_engine db)"] by simp
  obtain h db' where f: "with_hint hint (engine_fetch_page ?pid) db = (Inr h, db')" "ph_page_id h = ?pid"
    "db_holds (h # hs) rss log db'" "db_index db' = db_index db" "db_cache db' = db_cache db"
    by (rule fetch_step [OF ok, of ?pid hint]) (use p short in simp_all)
  obtain cnt where cnt: "bind_result (raw_data h (db_engine db')) (\<lambda>raw. load raw PAGE_HEADER_SIZE 2) = Inr cnt"
    "unat (get_u16 cnt) = length (rss ! p)"
    using held_page_count [OF f(3)] f(2) p short by auto
  have "slot_records rss ?pid [0..<length (rss ! p)] = records_of_page ?pid (rss ! p)"
    by (simp add: slot_records_def records_of_page_def short)
  then have "scan_goes_on cb rss (slot_records rss ?pid [0..<length (rss ! p)]) ?sc"
    using g by (simp add: scan_goes_on_def page_records_def ps)
  then show ?thesis using f cnt p short by (simp add: scan_advances_def ps slots_ok_def)
qed

lemma scan_next_slot:
  assumes ok: "db_holds (h # hs) rss log db" and s: "slots_ok rss pid h (s # ss)"
    and g: "scan_goes_on cb rss (slot_records rss pid (s # ss)) sc"
  shows "scan_advances cb hint rss log hs (ScanSlots sc pid h (s # ss)) db"
proof -
  have pid: "unat pid < length rss" and in_page: "s < length (rss ! unat pid)" using s by (simp_all add: slots_ok_def)
  have "length (rss ! unat pid) < 65536"
    using db_holds_page(2) [OF ok pid] slottedD(5) by (auto simp: page_image_def)
  then have "record_at rss (RecordID pid (word_of_nat s)) = Some (rss ! unat pid ! s)"
    using pid in_page by (simp add: record_at_def)
  moreover obtain h' db' where "with_hint hint (engine_fetch_page pid) db = (Inr h', db')" "ph_page_id h' = pid"
    "db_holds (h' # h # hs) rss log db'" "db_index db' = db_index db" "db_cache db' = db_cache db"
    by (rule fetch_step [OF ok pid, of hint])
  moreover have "\<not> pid \<ge> get_total_pages (db_engine db)" using db_holds_page(1) [OF ok pid] by simp
  ultimately show ?thesis using s g by (simp add: scan_advances_def slots_ok_def slot_records_def)
qed

lemma scan_record_read:
  assumes ok: "db_holds (h' # h # hs) rss log db" and a: "scan_ok cb rss (ScanRecord sc pid h ss rid h')"
  shows "scan_advances cb hint rss log hs (ScanRecord sc pid h ss rid h') db"
proof -
  obtain x where s: "slots_ok rss pid h ss" "ph_page_id h' = rid_page_id rid" "rid_page_id rid = pid"
    "record_at rss rid = Some x" "scan_goes_on cb rss ((rid, x) # slot_records rss pid ss) sc"
    using a by auto
  have pid: "unat (rid_page_id rid) < length rss" using s(1,3) by (simp add: slots_ok_def)
  obtain db' where f: "finish_read rid h' db = (Inr (Some x), db')" "db_holds (h # hs) rss log db'"
    "db_index db' = db_index db" "db_cache db' = db_cache db"
    using finish_read_step [OF ok s(2) pid] s(4) by auto
  obtain k val where x: "x = (k, val)" by fastforce
  obtain r c where cb: "cb rid k val (sc_state sc) = (r, c)" by fastforce
  show ?thesis
  proof (cases r)
    case (Inl e)
    have "visit cb (all_records rss) (sc_start sc) = (Inl e, c)" using s(5) cb x Inl by (simp add: scan_goes_on_def)
    then show ?thesis using f cb x Inl release_step [OF f(2)] by (simp add: scan_advances_def)
  next
    case (Inr u)
    have "scan_goes_on cb rss (slot_records rss pid ss) (sc\<lparr>sc_state := c\<rparr>)"
      using s(5) cb x Inr by (simp add: scan_goes_on_def)
    then show ?thesis using f cb x Inr s(1) by (simp add: scan_advances_def)
  qed
qed

lemma scan_step_ok:
  assumes ok: "db_holds (held a @ hs) rss log db" and a: "scan_ok cb rss a" "\<not> holds_lock a"
  shows "scan_advances cb hint rss log hs a db"
proof -
  from a(2) consider "a = Idle" | sc where "a = ScanPages sc" "sc_pages sc = []"
    | sc p ps where "a = ScanPages sc" "sc_pages sc = p # ps" | sc pid h where "a = ScanSlots sc pid h []"
    | sc pid h s ss where "a = ScanSlots sc pid h (s # ss)" | sc pid h ss rid h' where "a = ScanRecord sc pid h ss rid h'"
    by (cases a) (auto simp: neq_Nil_conv elim: list.exhaust)
  then show ?thesis
  proof cases
    case 1
    with ok show ?thesis by (simp add: scan_advances_def)
  next
    case 2
    with ok a(1) show ?thesis by (auto simp: scan_goes_on_def page_records_def scan_advances_def)
  next
    case 3
    with ok a(1) show ?thesis using scan_next_page [of hs rss log db cb sc p ps hint] by simp
  next
    case 4
    let ?en = "prefetch_ahead (map word_of_nat [1..<Suc (unat PREFETCH_LOOKAHEAD)]) pid (sc_total sc) (db_engine db)"
    let ?db1 = "db\<lparr>db_engine := ?en\<rparr>"
    have ok': "db_holds (h # hs) rss log db" using ok by (simp add: 4)
    have "db_holds (h # hs) rss log ?db1"
      using db_ok_read [OF ok'] prefetch_ahead_ok [OF db_okD(1) [OF ok']] by blast
    then have "db_holds hs rss log (release_page h ?db1)" by (rule release_step)
    with a(1) show ?thesis by (simp add: 4 slot_records_def scan_advances_def)
  next
    case 5
    with ok a(1) show ?thesis using scan_next_slot [of h hs rss log db pid s ss cb sc hint] by simp
  next
    case 6
    with ok a(1) show ?thesis using scan_record_read [of h' h hs rss log db cb sc pid ss rid hint] by simp
  qed
qed

section \<open>All clients together\<close>

text \<open>No call holds the lock next to a put.\<close>

definition alone :: "'c activity list \<Rightarrow> bool" where
  "alone calls \<longleftrightarrow> (\<forall>i < length calls. \<forall>j < length calls. i \<noteq> j \<longrightarrow> holds_exclusive (calls ! i) \<longrightarrow> \<not> holds_lock (calls ! j))"

definition entered :: "'c activity list \<Rightarrow> bytes set" where
  "entered calls = {q. \<exists>j < length calls. q \<in> entering (calls ! j)}"

definition calls_ok ::
  "bool \<Rightarrow> bytes set \<Rightarrow> (record_id \<Rightarrow> bytes \<Rightarrow> bytes \<Rightarrow> 'c \<Rightarrow> unit result \<times> 'c) \<Rightarrow> kv list list \<Rightarrow> kv list list \<times> kv list \<Rightarrow>
   (bytes \<rightharpoonup> bytes) \<Rightarrow> 'c activity list \<Rightarrow> database \<Rightarrow> bool" where
  "calls_ok ex K cb rss log m calls db \<longleftrightarrow> db_holds (concat (map held calls)) rss log db \<and>
     view_ok ex K (entered calls) rss db m \<and> alone calls \<and>
     (\<forall>j < length calls. get_ok ex rss (db_index db) m (calls ! j) \<and> put_ok ex K rss (calls ! j) \<and> scan_ok cb rss (calls ! j))"

lemma held_update:
  assumes "i < length calls"
  shows "mset (concat (map held (calls[i := a]))) = mset (held a @ concat (map held (calls[i := Idle])))"
  unfolding upd_conv_take_nth_drop [OF assms] by simp

lemma held_split:
  assumes "i < length calls"
  shows "mset (concat (map held calls)) = mset (held (calls ! i) @ concat (map held (calls[i := Idle])))"
  using held_update [OF assms, of "calls ! i"] by simp

lemma entering_lock: "\<not> holds_exclusive a \<Longrightarrow> entering a = {}"
  by (cases a) simp_all

lemma not_locked_ok: "\<not> holds_lock a \<Longrightarrow> get_ok ex rss idx m a \<and> put_ok ex K rss a"
  by (cases a) simp_all

lemma lock_scan_ok: "holds_lock a \<Longrightarrow> scan_ok cb rss a"
  by (cases a) simp_all

lemma exclusive_ok: "holds_exclusive a \<Longrightarrow> get_ok ex rss idx m a \<and> held a = [] \<and> \<not> holds_shared a"
  by (cases a) simp_all

lemma shared_put_ok: "holds_shared a \<Longrightarrow> put_ok ex K rss a \<and> \<not> holds_exclusive a"
  by (cases a) simp_all

lemma entered_update:
  assumes i: "i < length calls"
    and lock: "holds_shared (calls ! i) \<or> holds_exclusive (calls ! i) \<Longrightarrow>
      \<forall>j < length calls. j \<noteq> i \<longrightarrow> \<not> holds_exclusive (calls ! j)"
  shows "holds_lock (calls ! i) \<Longrightarrow> entered (calls[i := a]) = entering a"
    and "holds_lock (calls ! i) \<Longrightarrow> entered calls = entering (calls ! i)"
    and "\<not> holds_lock (calls ! i) \<Longrightarrow> entering a = {} \<Longrightarrow> entered (calls[i := a]) = entered calls"
proof -
  show "entered (calls[i := a]) = entering a" if h: "holds_lock (calls ! i)"
    using lock [OF h] i by (auto simp: entered_def nth_list_update entering_lock)
  show "entered calls = entering (calls ! i)" if h: "holds_lock (calls ! i)"
    using lock [OF h] i by (auto simp: entered_def) (metis empty_iff entering_lock)
  show "entered (calls[i := a]) = entered calls" if "\<not> holds_lock (calls ! i)" "entering a = {}"
  proof -
    have "entering (calls ! i) = {}" using that(1) by (simp add: entering_lock)
    then show ?thesis using i that(2) by (auto simp: entered_def nth_list_update)
  qed
qed

lemma alone_no_put:
  "alone calls \<Longrightarrow> i < length calls \<Longrightarrow> holds_lock (calls ! i) \<Longrightarrow> \<forall>j < length calls. j \<noteq> i \<longrightarrow> \<not> holds_exclusive (calls ! j)"
  unfolding alone_def by metis

text \<open>One call moves on, under the conditions that its own step lemma gives.\<close>

lemma calls_ok_update:
  assumes ok: "calls_ok ex K cb rss log m calls db" and i: "i < length calls"
    and db: "db_holds (held a @ concat (map held (calls[i := Idle]))) rss log' db'"
    and v: "view_ok ex K (entered (calls[i := a])) rss db' m'"
    and a: "get_ok ex rss (db_index db') m' a" "put_ok ex K rss a" "scan_ok cb rss a"
    and locks: "alone (calls[i := a])"
    and others: "\<not> holds_exclusive (calls ! i) \<Longrightarrow> db_index db' = db_index db \<and> m' = m"
  shows "calls_ok ex K cb rss log' m' (calls[i := a]) db'"
proof -
  have "db_holds (concat (map held (calls[i := a]))) rss log' db'"
    by (rule db_holds_perm [OF db held_update [OF i, symmetric]])
  moreover have "get_ok ex rss (db_index db') m' (calls ! j) \<and> put_ok ex K rss (calls ! j) \<and> scan_ok cb rss (calls ! j)"
    if j: "j < length calls" "j \<noteq> i" for j
  proof -
    have c: "get_ok ex rss (db_index db) m (calls ! j)" "put_ok ex K rss (calls ! j)" "scan_ok cb rss (calls ! j)"
      using ok j(1) by (simp_all add: calls_ok_def)
    show ?thesis
    proof (cases "holds_exclusive (calls ! i)")
      case True
      then have "\<not> holds_lock (calls ! j)" using ok i j unfolding calls_ok_def alone_def by metis
      then show ?thesis using not_locked_ok c(3) by blast
    next
      case False
      with others c show ?thesis by simp
    qed
  qed
  ultimately show ?thesis
    using v a locks i by (auto simp: calls_ok_def nth_list_update)
qed

lemma alone_update:
  assumes "alone calls" and "i < length calls" and "holds_shared a \<Longrightarrow> holds_lock (calls ! i)"
    and "holds_exclusive a \<Longrightarrow> holds_exclusive (calls ! i)"
  shows "alone (calls[i := a])"
  unfolding alone_def length_list_update
proof (intro allI impI)
  fix k j assume j: "k < length calls" "j < length calls" "k \<noteq> j" and k: "holds_exclusive (calls[i := a] ! k)"
  from k assms(2,4) have "holds_exclusive (calls ! k)" by (cases "k = i") simp_all
  then have "\<not> holds_lock (calls ! j)" using assms(1) j unfolding alone_def by metis
  then show "\<not> holds_lock (calls[i := a] ! j)" using assms(2-4) by (cases "j = i") auto
qed

lemma calls_ok_step:
  assumes ok: "calls_ok ex K cb rss log m calls db" and i: "i < length calls"
    and few: "Suc (length (fst log)) < 4294967296"
  shows "\<exists>p db' log'. call_step cb hint (calls ! i) db = (p, db') \<and> length (fst log') \<le> Suc (length (fst log)) \<and>
    calls_ok ex K cb rss log' (progress_map p m) (calls[i := after p]) db' \<and>
    (\<forall>out. p = Returns out \<longrightarrow> (\<exists>k r. out = GetReturned k r \<and> get_result ex m k r) \<or>
      (\<exists>k v. out = PutReturned k v (put_result k v)) \<or>
      (\<exists>c r c'. out = ScanReturned c r c' \<and> (r, c') = visit cb (all_records rss) c))"
proof -
  let ?a = "calls ! i" and ?rest = "concat (map held (calls[i := Idle]))"
  have hs: "db_holds (held ?a @ ?rest) rss log db"
    by (rule db_holds_perm [OF _ held_split [OF i]]) (use ok in \<open>simp add: calls_ok_def\<close>)
  have v: "view_ok ex K (entered calls) rss db m" and al: "alone calls" and a: "get_ok ex rss (db_index db) m ?a"
    "put_ok ex K rss ?a" "scan_ok cb rss ?a"
    using ok i by (simp_all add: calls_ok_def)
  note en = entered_update [OF i alone_no_put [OF al i]]
  consider "holds_shared ?a" | "holds_exclusive ?a" | "\<not> holds_lock ?a" by blast
  then show ?thesis
  proof cases
    case 1
    then have "entered calls = {}" using en(2) shared_put_ok [OF 1] by (simp add: entering_lock)
    with v have v0: "view_ok ex K {} rss db m" by simp
    obtain p db' where s: "get_step hint ?a db = (p, db')" "db_holds (held (after p) @ ?rest) rss log db'"
      "db_index db' = db_index db" "view_ok ex K {} rss db' m"
      "case p of Continues a' \<Rightarrow> holds_shared a' \<and> get_ok ex rss (db_index db) m a'
       | Returns out \<Rightarrow> (\<exists>k r. out = GetReturned k r \<and> get_result ex m k r)"
      using get_step_ok [OF hs v0 a(1) 1, of hint] unfolding get_advances_def by blast
    have p: "progress_map p m = m" "holds_shared (after p) \<or> after p = Idle"
      "get_ok ex rss (db_index db') m (after p)"
      using s(3,5) by (auto simp: outcome_map_def split: progress.splits)
    then have a': "put_ok ex K rss (after p)" "scan_ok cb rss (after p)" "\<not> holds_exclusive (after p)"
      by (auto simp: shared_put_ok lock_scan_ok)
    have "alone (calls[i := after p])" by (rule alone_update [OF al i]) (use 1 a'(3) in simp_all)
    then have "calls_ok ex K cb rss log m (calls[i := after p]) db'"
      by (intro calls_ok_update [OF ok i s(2)]) (use s(3,4) en(1) 1 a' p(3) in \<open>simp_all add: entering_lock\<close>)
    moreover have "call_step cb hint ?a db = (p, db')" using 1 s(1) by (simp add: call_step_def)
    ultimately show ?thesis using s(5) p(1) by (intro exI [of _ p] exI [of _ db'] exI [of _ log]) auto
  next
    case 2
    note x = exclusive_ok [OF 2, of ex rss]
    have v0: "view_ok ex K (entering ?a) rss db m" using v en(2) 2 by simp
    have hs': "db_holds ?rest rss log db" using hs x by simp
    obtain p db' log' where s: "put_step ?a db = (p, db')" "db_holds ?rest rss log' db'"
      "length (fst log') \<le> Suc (length (fst log))" "view_ok ex K (entering (after p)) rss db' (progress_map p m)"
      "held (after p) = []"
      "case p of Continues a' \<Rightarrow> holds_exclusive a' \<and> put_ok ex K rss a'
       | Returns out \<Rightarrow> (\<exists>k v. out = PutReturned k v (put_result k v))"
      using put_step_ok [OF hs' v0 a(2) 2 few] by blast
    have p: "holds_exclusive (after p) \<or> after p = Idle" "put_ok ex K rss (after p)"
      using s(6) by (auto split: progress.splits)
    then have a': "get_ok ex rss idx m' (after p)" "scan_ok cb rss (after p)" for idx m'
      by (auto simp: exclusive_ok lock_scan_ok)
    have "calls_ok ex K cb rss log' (progress_map p m) (calls[i := after p]) db'"
      by (rule calls_ok_update [OF ok i]) (use s(2,4,5) en(1) 2 a' p(2) in \<open>simp_all add: alone_update [OF al i]\<close>)
    moreover have "call_step cb hint ?a db = (p, db')" using 2 x s(1) by (simp add: call_step_def)
    ultimately show ?thesis using s(3,6) by (intro exI [of _ p] exI [of _ db'] exI [of _ log']) auto
  next
    case 3
    obtain p db' where s: "scan_step cb hint ?a db = (p, db')" "db_holds (held (after p) @ ?rest) rss log db'"
      "db_index db' = db_index db" "db_cache db' = db_cache db"
      "case p of Continues a' \<Rightarrow> \<not> holds_lock a' \<and> scan_ok cb rss a'
       | Returns out \<Rightarrow> (\<exists>c r c'. out = ScanReturned c r c' \<and> (r, c') = visit cb (all_records rss) c)"
      using scan_step_ok [OF hs a(3) 3, of hint] unfolding scan_advances_def by blast
    have p: "progress_map p m = m" "\<not> holds_lock (after p)" "scan_ok cb rss (after p)"
      using s(5) by (auto simp: outcome_map_def split: progress.splits)
    then have e: "entered (calls[i := after p]) = entered calls" using en(3) 3 by (simp add: entering_lock)
    have v': "view_ok ex K (entered calls) rss db' m" by (rule view_ok_same [OF v s(3)]) (simp_all add: s(4))
    have "alone (calls[i := after p])" by (rule alone_update [OF al i]) (use p(2) in simp_all)
    then have "calls_ok ex K cb rss log m (calls[i := after p]) db'"
      by (intro calls_ok_update [OF ok i s(2)]) (use s(3) v' e p not_locked_ok [OF p(2)] in simp_all)
    moreover have "call_step cb hint ?a db = (p, db')" using 3 s(1) by (simp add: call_step_def)
    ultimately show ?thesis using s(5) p(1) by (intro exI [of _ p] exI [of _ db'] exI [of _ log]) auto
  qed
qed

section \<open>Schedules\<close>

text \<open>
  The calls that returned, in the order in which they did, are explained by the map: a get returns the value of
  its key or, when the record cache may forget (\<open>\<not> ex\<close>), nothing; a put changes the map, unless its record is
  too large; a scan has delivered the records \<open>recs\<close>.
\<close>

definition outcome_explained ::
  "(record_id \<Rightarrow> bytes \<Rightarrow> bytes \<Rightarrow> 'c \<Rightarrow> unit result \<times> 'c) \<Rightarrow> bool \<Rightarrow> (record_id \<times> kv) list \<Rightarrow> (bytes \<rightharpoonup> bytes) \<Rightarrow>
   'c outcome \<Rightarrow> bool" where
  "outcome_explained cb ex recs m out =
     (case out of
        GetReturned k r \<Rightarrow> get_result ex m k r
      | PutReturned k v r \<Rightarrow> r = put_result k v
      | ScanReturned c r c' \<Rightarrow> (r, c') = visit cb recs c)"

primrec explained ::
  "(record_id \<Rightarrow> bytes \<Rightarrow> bytes \<Rightarrow> 'c \<Rightarrow> unit result \<times> 'c) \<Rightarrow> bool \<Rightarrow> (record_id \<times> kv) list \<Rightarrow> (bytes \<rightharpoonup> bytes) \<Rightarrow>
   'c outcome list \<Rightarrow> bool" where
  "explained cb ex recs m [] = True"
| "explained cb ex recs m (out # outs) =
     (outcome_explained cb ex recs m out \<and> explained cb ex recs (outcome_map out m) outs)"

definition map_after :: "(bytes \<rightharpoonup> bytes) \<Rightarrow> 'c outcome list \<Rightarrow> (bytes \<rightharpoonup> bytes)" where
  "map_after m outs = fold outcome_map outs m"

lemma explained_snoc:
  "explained cb ex recs m (outs @ [out]) \<longleftrightarrow> explained cb ex recs m outs \<and> outcome_explained cb ex recs (map_after m outs) out"
  by (induction outs arbitrary: m) (simp_all add: map_after_def)

definition returned :: "'c shared \<Rightarrow> 'c outcome list" where
  "returned sh = map snd (sh_returned sh)"

primrec move_key :: "'c move \<Rightarrow> bytes set" where
  "move_key (StartGet i k) = {}"
| "move_key (StartPut i k v) = {k}"
| "move_key (StartScan i c) = {}"
| "move_key (Advance i) = {}"
| "move_key (Prefetch j) = {}"

definition shared_ok ::
  "bool \<Rightarrow> bytes set \<Rightarrow> (record_id \<Rightarrow> bytes \<Rightarrow> bytes \<Rightarrow> 'c \<Rightarrow> unit result \<times> 'c) \<Rightarrow> kv list list \<Rightarrow> kv list list \<times> kv list \<Rightarrow>
   (bytes \<rightharpoonup> bytes) \<Rightarrow> 'c shared \<Rightarrow> bool" where
  "shared_ok ex K cb rss log m0 sh \<longleftrightarrow> explained cb ex (all_records rss) m0 (returned sh) \<and>
     calls_ok ex K cb rss log (map_after m0 (returned sh)) (sh_calls sh) (sh_db sh)"

text \<open>An idle client starts a call: the lock admits it.\<close>

lemma calls_ok_start:
  assumes ok: "calls_ok ex K cb rss log m calls db" and i: "i < length calls" "calls ! i = Idle"
    and a: "held a = []" "entering a = {}" "get_ok ex rss (db_index db) m a" "put_ok ex K rss a" "scan_ok cb rss a"
    and locks: "alone (calls[i := a])"
  shows "calls_ok ex K cb rss log m (calls[i := a]) db"
proof (rule calls_ok_update [OF ok i(1) _ _ a(3-5) locks])
  have "db_holds (concat (map held calls)) rss log db" using ok by (simp add: calls_ok_def)
  then show "db_holds (held a @ concat (map held (calls[i := Idle]))) rss log db"
    by (rule db_holds_perm) (use held_split [OF i(1)] i(2) a(1) in simp)
  have "entered (calls[i := a]) = entered calls"
    using i a(2) by (auto simp: entered_def nth_list_update) (metis empty_iff entering.simps(2))
  then show "view_ok ex K (entered (calls[i := a])) rss db m" using ok by (simp add: calls_ok_def)
qed simp

lemma alone_start_shared:
  assumes "\<not> list_ex holds_exclusive calls" and "\<not> holds_exclusive a"
  shows "alone (calls[i := a])"
proof -
  have "\<not> holds_exclusive (calls[i := a] ! k)" if "k < length calls" for k
    using assms that by (cases "k = i") (auto simp: list_ex_iff)
  then show ?thesis by (simp add: alone_def)
qed

lemma alone_start_exclusive:
  assumes "\<not> list_ex holds_lock calls"
  shows "alone (calls[i := a])"
  unfolding alone_def length_list_update
proof (intro allI impI)
  fix k j assume j: "k < length calls" "j < length calls" "k \<noteq> j" and k: "holds_exclusive (calls[i := a] ! k)"
  have none: "\<not> holds_lock (calls ! n)" if "n < length calls" for n using assms that by (auto simp: list_ex_iff)
  with k j have "k = i" by (cases "k = i") auto
  with none j show "\<not> holds_lock (calls[i := a] ! j)" by simp
qed

lemma make_move_ok:
  assumes ok: "shared_ok ex K cb rss log m0 sh" and keys: "ex \<longrightarrow> move_key mv \<subseteq> K"
    and few: "Suc (length (fst log)) < 4294967296"
  shows "\<exists>log'. shared_ok ex K cb rss log' m0 (make_move cb mv sh) \<and> length (fst log') \<le> Suc (length (fst log))"
proof -
  let ?m = "map_after m0 (returned sh)"
  have c: "calls_ok ex K cb rss log ?m (sh_calls sh) (sh_db sh)"
    and e: "explained cb ex (all_records rss) m0 (returned sh)"
    using ok by (simp_all add: shared_ok_def)
  have same: "\<exists>log'. shared_ok ex K cb rss log' m0 sh \<and> length (fst log') \<le> Suc (length (fst log))"
    using ok by (intro exI [of _ log]) simp
  have started: "\<exists>log'. shared_ok ex K cb rss log' m0 (sh\<lparr>sh_hints := hints, sh_calls := (sh_calls sh)[i := a]\<rparr>) \<and>
      length (fst log') \<le> Suc (length (fst log))"
    if "idle i sh" "held a = []" "entering a = {}" "get_ok ex rss (db_index (sh_db sh)) ?m a" "put_ok ex K rss a"
      "scan_ok cb rss a" "alone ((sh_calls sh)[i := a])" for i a hints
    using calls_ok_start [OF c _ _ that(2-7)] that(1) e
    by (intro exI [of _ log]) (simp add: shared_ok_def idle_def returned_def)
  show ?thesis
  proof (cases mv)
    case (StartGet i k)
    with same started [of i "Getting k" "sh_hints sh"] show ?thesis by (auto simp: alone_start_shared)
  next
    case (StartPut i k v)
    with same started [of i "PutStart k v" "sh_hints sh"] keys show ?thesis by (auto simp: alone_start_exclusive)
  next
    case (StartScan i c0)
    let ?sc = "\<lparr>sc_start = c0, sc_total = get_total_pages (db_engine (sh_db sh)),
      sc_pages = [0..<unat (get_total_pages (db_engine (sh_db sh)))], sc_state = c0\<rparr>"
    have "unat (get_total_pages (db_engine (sh_db sh))) = length rss"
      using c db_holds_total [of "concat (map held (sh_calls sh))" rss log] by (simp add: calls_ok_def)
    then have "scan_ok cb rss (ScanPages ?sc)" by (simp add: scan_goes_on_def page_records_def all_records_def)
    moreover have "alone ((sh_calls sh)[i := ScanPages ?sc])" if "idle i sh"
      using c that by (intro alone_update) (simp_all add: calls_ok_def idle_def)
    ultimately show ?thesis
      using same started [of i "ScanPages ?sc" "(sh_hints sh)[i := Scan]"] StartScan by (auto simp: Let_def)
  next
    case (Advance i)
    show ?thesis
    proof (cases "i < length (sh_calls sh)")
      case True
      obtain p db' log' where s: "call_step cb (sh_hints sh ! i) (sh_calls sh ! i) (sh_db sh) = (p, db')"
        "length (fst log') \<le> Suc (length (fst log))"
        "calls_ok ex K cb rss log' (progress_map p ?m) ((sh_calls sh)[i := after p]) db'"
        "\<forall>out. p = Returns out \<longrightarrow> (\<exists>k r. out = GetReturned k r \<and> get_result ex ?m k r) \<or>
          (\<exists>k v. out = PutReturned k v (put_result k v)) \<or>
          (\<exists>c r c'. out = ScanReturned c r c' \<and> (r, c') = visit cb (all_records rss) c)"
        using calls_ok_step [OF c True few, of "sh_hints sh ! i"] by blast
      show ?thesis
      proof (cases p)
        case (Continues a)
        with True s e Advance show ?thesis
          by (intro exI [of _ log']) (simp add: shared_ok_def returned_def)
      next
        case (Returns out)
        have "outcome_explained cb ex (all_records rss) ?m out"
          using s(4) Returns by (auto simp: outcome_explained_def)
        then have "explained cb ex (all_records rss) m0 (returned sh @ [out])" using e by (simp add: explained_snoc)
        moreover have "map_after m0 (returned sh @ [out]) = outcome_map out ?m" by (simp add: map_after_def)
        ultimately show ?thesis
          using True s(1-3) Returns Advance
          by (intro exI [of _ log']) (simp add: shared_ok_def returned_def)
      qed
    qed (use same Advance in simp)
  next
    case (Prefetch j)
    let ?db = "sh_db sh" and ?en = "thread_step j (db_engine (sh_db sh))"
    let ?db' = "?db\<lparr>db_engine := ?en\<rparr>" and ?hs = "concat (map held (sh_calls sh))"
    have h: "db_holds ?hs rss log ?db" using c by (simp add: calls_ok_def)
    have "db_holds ?hs rss log ?db'" using db_ok_read [OF h] thread_step_ok [OF db_okD(1) [OF h], of j] by blast
    moreover have "view_ok ex K (entered (sh_calls sh)) rss ?db' ?m"
      by (rule view_ok_same) (use c in \<open>simp_all add: calls_ok_def\<close>)
    ultimately show ?thesis
      using c e Prefetch by (intro exI [of _ log]) (simp add: shared_ok_def calls_ok_def returned_def)
  qed
qed

lemma run_moves_ok:
  assumes "shared_ok ex K cb rss log m0 sh" and "ex \<longrightarrow> (\<forall>mv \<in> set ms. move_key mv \<subseteq> K)"
    and "length (fst log) + length ms < 4294967295"
  shows "\<exists>log'. shared_ok ex K cb rss log' m0 (run_moves cb ms sh)"
  using assms
proof (induction ms arbitrary: sh log)
  case Nil
  then show ?case by (intro exI [of _ log]) (simp add: run_moves_def)
next
  case (Cons mv ms)
  obtain log1 where l: "shared_ok ex K cb rss log1 m0 (make_move cb mv sh)" "length (fst log1) \<le> Suc (length (fst log))"
    using make_move_ok [OF Cons.prems(1), of mv] Cons.prems(2,3) by auto
  have "\<exists>log'. shared_ok ex K cb rss log' m0 (run_moves cb ms (make_move cb mv sh))"
    by (rule Cons.IH [OF l(1)]) (use Cons.prems(2,3) l(2) in auto)
  then show ?case by (simp add: run_moves_def)
qed

lemma entered_idle: "entered (replicate n Idle) = {}"
  by (auto simp: entered_def)

lemma clients_ok:
  assumes "db_ok rss log db" and "view_ok ex K {} rss db m"
  shows "shared_ok ex K cb rss log m (clients n db)"
proof -
  have "concat (map held (replicate n Idle)) = []" by (induction n) simp_all
  with assms show ?thesis
    by (simp add: shared_ok_def clients_def returned_def map_after_def calls_ok_def alone_def entered_idle)
qed

section \<open>Every call ends\<close>

text \<open>
  The steps of its own that a call still takes: five for a get, four for a put, and for a scan two for each of the
  at most 65535 slots of a page and two for the page.
\<close>

fun work :: "'c activity \<Rightarrow> nat" where
  "work Idle = 0"
| "work (Getting k) = 5"
| "work (Missed k) = 4"
| "work (Located k rid) = 3"
| "work (Reading k rid h) = 2"
| "work (Refilling k v) = 1"
| "work (PutStart k v) = 4"
| "work (PutLogged k v) = 3"
| "work (PutWritten k v rid) = 2"
| "work (PutIndexed k v) = 1"
| "work (ScanPages sc) = 131072 * length (sc_pages sc) + 1"
| "work (ScanSlots sc pid h ss) = 2 * length ss + 131072 * length (sc_pages sc) + 2"
| "work (ScanRecord sc pid h ss rid h') = 2 * length ss + 131072 * length (sc_pages sc) + 3"

lemma call_step_work:
  assumes "call_step cb hint a db = (p, db')" and "a \<noteq> Idle"
  shows "work (after p) < work a \<and> p \<noteq> Continues Idle"
proof -
  have slots: "unat (get_u16 cnt) \<le> 65535" for cnt using unat_u16_lt [of "get_u16 cnt"] by simp
  show ?thesis
    using assms slots
    by (cases "(cb, hint, a, db)" rule: scan_step.cases)
      (auto simp: call_step_def Let_def less_Suc_eq_le
        split: sum.splits option.splits prod.splits if_splits list.splits)
qed

lemma idle_stays: "sh_calls sh ! i \<noteq> Idle \<Longrightarrow> mv \<noteq> Advance i \<Longrightarrow> i < length (sh_calls sh) \<Longrightarrow>
    sh_calls (make_move cb mv sh) ! i = sh_calls sh ! i \<and> length (sh_calls (make_move cb mv sh)) = length (sh_calls sh)"
  by (cases mv) (auto simp: Let_def idle_def nth_list_update split: prod.splits progress.splits)

lemma calls_end:
  assumes "i < length (sh_calls sh)" and "sh_calls sh ! i \<noteq> Idle"
    and "work (sh_calls sh ! i) \<le> count_list ms (Advance i)"
  shows "\<exists>n \<le> length ms. \<exists>xs out. idle i (run_moves cb (take n ms) sh) \<and>
    sh_returned (run_moves cb (take n ms) sh) = xs @ [(i, out)]"
  using assms
proof (induction ms arbitrary: sh)
  case Nil
  then show ?case by (cases "sh_calls sh ! i") simp_all
next
  case (Cons mv ms)
  let ?sh = "make_move cb mv sh"
  have next_move: "\<exists>n \<le> length (mv # ms). \<exists>xs out. idle i (run_moves cb (take n (mv # ms)) sh) \<and>
      sh_returned (run_moves cb (take n (mv # ms)) sh) = xs @ [(i, out)]"
    if "\<exists>n \<le> length ms. \<exists>xs out. idle i (run_moves cb (take n ms) ?sh) \<and>
      sh_returned (run_moves cb (take n ms) ?sh) = xs @ [(i, out)]"
    using that by (elim exE conjE) (rule_tac x = "Suc n" in exI, simp add: run_moves_def)
  show ?case
  proof (cases "mv = Advance i")
    case False
    with idle_stays [OF Cons.prems(2) False Cons.prems(1), of cb] Cons.prems show ?thesis
      by (intro next_move Cons.IH) simp_all
  next
    case True
    obtain p db where s: "call_step cb (sh_hints sh ! i) (sh_calls sh ! i) (sh_db sh) = (p, db)" by fastforce
    have step_work: "work (after p) < work (sh_calls sh ! i) \<and> p \<noteq> Continues Idle" by (rule call_step_work [OF s Cons.prems(2)])
    show ?thesis
    proof (cases p)
      case (Returns out)
      with True s Cons.prems(1) have "idle i ?sh" "sh_returned ?sh = sh_returned sh @ [(i, out)]"
        by (simp_all add: idle_def)
      then show ?thesis by (intro exI [of _ 1]) (auto simp: run_moves_def)
    next
      case (Continues a)
      have sh: "sh_calls ?sh = (sh_calls sh)[i := a]" using True s Cons.prems(1) Continues by simp
      show ?thesis
        using True sh step_work Continues Cons.prems by (intro next_move Cons.IH) simp_all
    qed
  qed
qed

section \<open>A call that runs alone\<close>

lemma thread_step_hint [simp]: "en_hint (thread_step k en) = en_hint en"
  by (auto simp: thread_step_def split: prefetch_thread.splits prod.splits sum.splits)

lemma run_scheduled_hint [simp]: "en_hint (run_scheduled en) = en_hint en"
proof -
  have "en_hint (fold thread_step ks e) = en_hint e" for ks e by (induction ks arbitrary: e) simp_all
  then show ?thesis by (simp add: run_scheduled_def split: list.splits)
qed

lemma fetch_with_own_hint:
  "with_hint (en_hint (db_engine db)) (engine_fetch_page pid) db =
     (fst (engine_fetch_page pid (db_engine db)), db\<lparr>db_engine := snd (engine_fetch_page pid (db_engine db))\<rparr>)"
  by (simp add: with_hint_def engine_fetch_page_def Let_def case_prod_unfold)

primrec run_call ::
  "(record_id \<Rightarrow> bytes \<Rightarrow> bytes \<Rightarrow> 'c \<Rightarrow> unit result \<times> 'c) \<Rightarrow> workload_hint \<Rightarrow> nat \<Rightarrow> 'c activity \<Rightarrow> database \<Rightarrow>
   'c outcome option \<times> database" where
  "run_call cb hint 0 a db = (None, db)"
| "run_call cb hint (Suc n) a db =
     (case call_step cb hint a db of
        (Returns out, db1) \<Rightarrow> (Some out, db1)
      | (Continues a', db1) \<Rightarrow> run_call cb hint n a' db1)"

lemma idle_advances:
  assumes "i < length (sh_calls sh)" and "sh_calls sh ! i = Idle"
  shows "run_moves cb (replicate n (Advance i)) sh = sh"
proof -
  have "(sh_calls sh)[i := Idle] = sh_calls sh" using assms by (metis list_update_id)
  then have "make_move cb (Advance i) sh = sh" using assms by (simp add: call_step_def)
  then show ?thesis by (induction n) (simp_all add: run_moves_def)
qed

lemma run_moves_advance:
  assumes "run_call cb (sh_hints sh ! i) n (sh_calls sh ! i) (sh_db sh) = (Some out, db)" and "i < length (sh_calls sh)"
  shows "sh_db (run_moves cb (replicate n (Advance i)) sh) = db \<and>
    sh_returned (run_moves cb (replicate n (Advance i)) sh) = sh_returned sh @ [(i, out)]"
  using assms
proof (induction n arbitrary: sh)
  case (Suc n)
  obtain p db1 where s: "call_step cb (sh_hints sh ! i) (sh_calls sh ! i) (sh_db sh) = (p, db1)" by fastforce
  show ?case
  proof (cases p)
    case (Continues a)
    let ?sh = "sh\<lparr>sh_db := db1, sh_calls := (sh_calls sh)[i := a]\<rparr>"
    have "run_moves cb (replicate (Suc n) (Advance i)) sh = run_moves cb (replicate n (Advance i)) ?sh"
      using s Continues Suc.prems(2) by (simp add: run_moves_def)
    with Suc.IH [of ?sh] Suc.prems s Continues show ?thesis by simp
  next
    case (Returns o')
    let ?sh = "sh\<lparr>sh_db := db1, sh_hints := (sh_hints sh)[i := hint_after o' (sh_hints sh ! i)],
      sh_calls := (sh_calls sh)[i := Idle], sh_returned := sh_returned sh @ [(i, o')]\<rparr>"
    have "run_moves cb (replicate (Suc n) (Advance i)) sh = run_moves cb (replicate n (Advance i)) ?sh"
      using s Returns Suc.prems(2) by (simp add: run_moves_def)
    also have "\<dots> = ?sh" using Suc.prems(2) by (intro idle_advances) simp_all
    finally show ?thesis using Suc.prems(1) s Returns by simp
  qed
qed simp

lemma run_call_get:
  "run_call cb (en_hint (db_engine db)) 5 (Getting k) db =
     (Some (GetReturned k (fst (db_get k db))), snd (db_get k db))"
proof -
  have five: "(5 :: nat) = Suc (Suc (Suc (Suc (Suc 0))))" by simp
  note defs = five call_step_def db_get_def Let_def
  show ?thesis
  proof (cases "lru_get k (db_cache db)")
    case (Inl e)
    then show ?thesis by (simp add: defs)
  next
    case (Inr x)
    obtain r c where x: "lru_get k (db_cache db) = Inr (r, c)" using Inr by (cases x) simp
    let ?db1 = "db\<lparr>db_cache := c\<rparr>"
    show ?thesis
    proof (cases r)
      case (Some v)
      with x show ?thesis by (simp add: defs)
    next
      case None
      note x = x [unfolded None]
      show ?thesis
      proof (cases "index_lookup k (db_index db)")
        case None
        with x show ?thesis by (simp add: defs)
      next
        case (Some rid)
        show ?thesis
        proof (cases "rid_page_id rid \<ge> get_total_pages (db_engine db)")
          case True
          with x Some show ?thesis by (simp add: defs read_record_def)
        next
          case False
          obtain r en where f: "engine_fetch_page (rid_page_id rid) (db_engine db) = (r, en)" by fastforce
          have own: "with_hint (en_hint (db_engine db)) (engine_fetch_page (rid_page_id rid)) ?db1 = (r, ?db1\<lparr>db_engine := en\<rparr>)"
            using fetch_with_own_hint [of ?db1 "rid_page_id rid"] f by simp
          show ?thesis
          proof (cases r)
            case (Inl e)
            with x Some False f own show ?thesis by (simp add: defs read_record_def with_page_def)
          next
            case (Inr h)
            let ?r = "bind_result (raw_data h en) (\<lambda>raw. read_slot raw (rid_slot_id rid))"
            have rr: "read_record rid (db_engine db) = (?r, engine_release h en)"
              using False f Inr by (simp add: read_record_def with_page_def)
            have fin: "finish_read rid h (?db1\<lparr>db_engine := en\<rparr>) = (?r, ?db1\<lparr>db_engine := engine_release h en\<rparr>)"
              by (simp add: finish_read_def release_page_def)
            from x Some False own Inr rr fin show ?thesis
              by (cases ?r) (auto simp: defs split: option.splits sum.splits)
          qed
        qed
      qed
    qed
  qed
qed

lemma run_call_put:
  "run_call cb hint 4 (PutStart k v) db = (Some (PutReturned k v (fst (db_put k v db))), snd (db_put k v db))"
proof -
  have four: "(4 :: nat) = Suc (Suc (Suc (Suc 0)))" by simp
  show ?thesis
    by (simp add: four call_step_def db_put_def store_record_def case_prod_unfold Let_def split: sum.split)
qed

section \<open>Properties\<close>

definition put_keys :: "'c move list \<Rightarrow> bytes set" where
  "put_keys ms = \<Union> (move_key ` set ms)"

lemma finite_put_keys:
  fixes ms :: "'c move list"
  shows "finite (put_keys ms)"
proof -
  have "finite (move_key mv)" for mv :: "'c move" by (cases mv) simp_all
  then show ?thesis by (simp add: put_keys_def)
qed

lemma run_clients_ok:
  assumes "db_ok pages (place_all (map kv_of ws) (pages, [])) db" and "view_ok ex K {} pages db m"
    and "length pages + length ws + length ms < 2 ^ 20 - 1" and "ex \<longrightarrow> put_keys ms \<subseteq> K"
  shows "explained cb ex (all_records pages) m (returned (run_moves cb ms (clients n db)))"
proof -
  let ?log = "place_all (map kv_of ws) (pages, [])"
  have "length (fst ?log) + length ms < 4294967295"
    using place_all_length [of "map kv_of ws" "(pages, [])"] assms(3) by simp
  moreover have "ex \<longrightarrow> (\<forall>mv \<in> set ms. move_key mv \<subseteq> K)" using assms(4) by (auto simp: put_keys_def)
  ultimately obtain log' where "shared_ok ex K cb pages log' m (run_moves cb ms (clients n db))"
    using run_moves_ok [OF clients_ok [OF assms(1,2)]] by blast
  then show ?thesis by (simp add: shared_ok_def)
qed

text \<open>
  C5: Concurrent clients see one map. For every number of clients on an opened database and every interleaving of
  the steps of their gets, puts and scans and of the prefetch threads, the calls return as if they had run one
  after the other in the order in which they returned: each get returns exactly the value of its key at that
  point, starting from what the file and the log held, each put changes the map or throws because its record is
  too large, and each scan has delivered exactly the records of the file as it was opened, however many puts ran
  meanwhile. This holds as long as the keys fit the record cache.
\<close>

theorem concurrent_calls_are_atomic:
  assumes "env_good env" and "files_hold path sys pages ws tail" and "\<forall>r \<in> set ws. fits_page (kv_of r)"
    and "length pages + length ws + length ms < 2 ^ 20 - 1" and "length pages \<le> pc_size" and "0 < rc_size"
    and "card (fst ` set (concat pages) \<union> wr_key ` set ws \<union> put_keys ms) \<le> rc_size"
  shows "\<exists>db. db_open env path pc_size rc_size sys = (Inr db, db_files db) \<and>
    explained cb True (all_records pages) (latest (concat pages) ++ latest (map kv_of ws))
      (returned (run_moves cb ms (clients n db)))"
proof -
  let ?m = "latest (concat pages) ++ latest (map kv_of ws)" and ?log = "place_all (map kv_of ws) (pages, [])"
  let ?K = "fst ` set (concat pages) \<union> wr_key ` set ws \<union> put_keys ms"
  have few: "length pages + length ws < 2 ^ 20 - 1" using assms(4) by simp
  have fin: "finite ?K" by (simp add: finite_put_keys)
  have "card (wr_key ` set ws) \<le> card ?K" by (rule card_mono [OF fin]) auto
  then have rc: "card (wr_key ` set ws) \<le> rc_size" using assms(7) by simp
  obtain db where o: "db_open env path pc_size rc_size sys = (Inr db, db_files db)" "db_ok pages ?log db"
    "lc_capacity (db_cache db) = rc_size" "found pages db = latest (concat pages) ++ cached db"
    "cached db = latest (map kv_of ws)"
    using db_open_ok [OF assms(1-3) few assms(5,6)] rc by blast
  have "dom ?m \<subseteq> ?K" unfolding dom_map_add dom_latest by auto
  then have "view_ok True ?K {} pages db ?m" using fin assms(7) o(3-5) by (simp add: view_ok_def)
  then have "explained cb True (all_records pages) ?m (returned (run_moves cb ms (clients n db)))"
    by (rule run_clients_ok [OF o(2) _ assms(4)]) simp
  with o(1) show ?thesis by blast
qed

lemma concurrent_calls_are_atomic_witness:
  "\<exists>sys db. db_open (good_env [[]]) ''db'' 4 3 sys = (Inr db, db_files db) \<and>
    explained collect True (all_records [[([1], [10])]]) [[1] \<mapsto> [10], [2] \<mapsto> [20]]
      (returned (run_moves collect
        [StartPut 0 [3] [30], StartScan 1 [], Advance 0, StartGet 2 [3], Advance 1, Advance 0, Prefetch 0, Advance 0,
         Advance 1, Advance 0, StartGet 2 [3], Advance 1, Advance 2, Advance 1] (clients 3 db)))"
proof -
  let ?rs = "[([1], [10])] :: kv list" and ?ws = "[logged 1 [2] [20]]"
  let ?ms = "[StartPut 0 [3] [30], StartScan 1 [], Advance 0, StartGet 2 [3], Advance 1, Advance 0, Prefetch 0, Advance 0,
         Advance 1, Advance 0, StartGet 2 [3], Advance 1, Advance 2, Advance 1]"
  obtain sys where sys: "files_hold ''db'' sys [?rs] ?ws []"
    using one_page_file [of ?rs ?ws "[]"]
    by (auto simp: fits_small used_def heap_size_def rec_size_def wal_fits_def wal_entry_def)
  have keys: "card (fst ` set (concat [?rs]) \<union> wr_key ` set ?ws \<union> put_keys ?ms) \<le> 3" by (simp add: put_keys_def)
  have "\<exists>db. db_open (good_env [[]]) ''db'' 4 3 sys = (Inr db, db_files db) \<and>
      explained collect True (all_records [?rs]) (latest (concat [?rs]) ++ latest (map kv_of ?ws))
        (returned (run_moves collect ?ms (clients 3 db)))"
    by (rule concurrent_calls_are_atomic [OF good_env_good sys _ _ _ _ keys]) (simp_all add: fits_small)
  then show ?thesis by (auto simp: latest_def)
qed

text \<open>
  C15: With a record cache of any size, on files that were closed in order, concurrent calls still return in an
  order that the map explains, except that a get may find nothing: a value that a get returns is never one that
  an earlier put has replaced, whatever steps the other clients took meanwhile.
\<close>

theorem concurrent_gets_are_never_outdated:
  assumes "env_good env" and "files_hold path sys pages ws tail" and "\<forall>r \<in> set ws. fits_page (kv_of r)"
    and "length pages + length ws + length ms < 2 ^ 20 - 1" and "length pages \<le> pc_size" and "0 < rc_size"
    and "latest (map kv_of ws) \<subseteq>\<^sub>m latest (concat pages)"
  shows "\<exists>db. db_open env path pc_size rc_size sys = (Inr db, db_files db) \<and>
    explained cb False (all_records pages) (latest (concat pages)) (returned (run_moves cb ms (clients n db)))"
proof -
  let ?m = "latest (concat pages)"
  have few: "length pages + length ws < 2 ^ 20 - 1" using assms(4) by simp
  obtain db where o: "db_open env path pc_size rc_size sys = (Inr db, db_files db)"
    "db_ok pages (place_all (map kv_of ws) (pages, [])) db" "cached db \<subseteq>\<^sub>m latest (map kv_of ws)"
    "pages \<noteq> [] \<longrightarrow> db_index db = index_of_records (all_records pages)"
    using db_open_ok [OF assms(1-3) few assms(5,6)] by blast
  have co: "coherent pages db ?m"
    using coherent_opened [OF db_okD(2) [OF o(2)] o(4)] map_le_trans [OF o(3) assms(7)] by blast
  then have "view_ok False {} {} pages db ?m"
    by (simp add: view_ok_def coherent_def)
  then have "explained cb False (all_records pages) ?m (returned (run_moves cb ms (clients n db)))"
    by (rule run_clients_ok [OF o(2) _ assms(4)]) simp
  with o(1) show ?thesis by blast
qed

lemma concurrent_gets_are_never_outdated_witness:
  "\<exists>sys db. db_open (good_env []) ''db'' 4 1 sys = (Inr db, db_files db) \<and>
    explained collect False (all_records [[([1], [10])]]) [[1] \<mapsto> [10]]
      (returned (run_moves collect
        [StartGet 0 [1], Advance 0, StartGet 1 [1], StartPut 2 [1] [11], Advance 1, Advance 0, Advance 1, Advance 0,
         Advance 0, Advance 1, Advance 1, StartPut 2 [1] [11], Advance 2, Advance 2, Advance 2, Advance 2] (clients 3 db)))"
proof -
  let ?rs = "[([1], [10])] :: kv list" and ?ws = "[logged 1 [1] [10]]"
  obtain sys where sys: "files_hold ''db'' sys [?rs] ?ws []"
    using one_page_file [of ?rs ?ws "[]"]
    by (auto simp: fits_small used_def heap_size_def rec_size_def wal_fits_def wal_entry_def)
  have "\<exists>db. db_open (good_env []) ''db'' 4 1 sys = (Inr db, db_files db) \<and>
      explained collect False (all_records [?rs]) (latest (concat [?rs]))
        (returned (run_moves collect
          [StartGet 0 [1], Advance 0, StartGet 1 [1], StartPut 2 [1] [11], Advance 1, Advance 0, Advance 1, Advance 0,
           Advance 0, Advance 1, Advance 1, StartPut 2 [1] [11], Advance 2, Advance 2, Advance 2, Advance 2] (clients 3 db)))"
    by (rule concurrent_gets_are_never_outdated [OF _ sys]) (simp_all add: fits_small latest_def)
  then show ?thesis by (auto simp: latest_def)
qed

text \<open>
  C14: Every call ends. Whatever the other clients and the prefetch threads do in between, a call returns once its
  client has made as many steps as \<open>work\<close> says: five for a get, four for a put, and for a scan 131072 for each page
  and one more. No call waits once it has started, so there is no deadlock among calls that run.
\<close>

theorem every_call_ends:
  assumes "i < length (sh_calls sh)" and "sh_calls sh ! i \<noteq> Idle"
    and "work (sh_calls sh ! i) \<le> count_list ms (Advance i)"
  shows "\<exists>n \<le> length ms. \<exists>xs out. idle i (run_moves cb (take n ms) sh) \<and>
    sh_returned (run_moves cb (take n ms) sh) = xs @ [(i, out)]"
  using calls_end [OF assms] .

lemma every_call_ends_witness:
  "\<exists>db n xs out. db_open (good_env []) ''db'' 4 1 no_files = (Inr db, db_files db) \<and>
    sh_returned (run_moves collect (take n [Advance 0, StartScan 1 [], Advance 0, StartGet 1 [7], Advance 0, Advance 1, Advance 0])
      (make_move collect (StartPut 0 [1] [10]) (clients 2 db))) = xs @ [(0, out)]"
proof -
  obtain db where db: "db_open (good_env []) ''db'' 4 1 no_files = (Inr db, db_files db)"
    using new_database [of 1 4] by auto
  define sh where "sh = make_move collect (StartPut 0 [1] [10]) (clients 2 db)"
  have "sh_calls sh = [PutStart [1] [10], Idle]" by (simp add: sh_def clients_def idle_def numeral_2_eq_2)
  then obtain n xs out where "sh_returned (run_moves collect
      (take n [Advance 0, StartScan 1 [], Advance 0, StartGet 1 [7], Advance 0, Advance 1, Advance 0]) sh) = xs @ [(0, out)]"
    using every_call_ends [of 0 sh "[Advance 0, StartScan 1 [], Advance 0, StartGet 1 [7], Advance 0, Advance 1, Advance 0]" collect]
    by auto
  with db show ?thesis unfolding sh_def by blast
qed

text \<open>
  The two models of a get and a put agree, this one and that of \<open>Database\<close>: after the lock has admitted a call that
  nothing interleaves and its client has made five steps (four for a put), the database and the result are those of
  \<open>db_get\<close> and \<open>db_put\<close>.
\<close>

theorem lone_call_is_sequential:
  assumes "idle i sh" and "sh_hints sh ! i = en_hint (db_engine (sh_db sh))" and "\<not> list_ex holds_lock (sh_calls sh)"
  shows "sh_db (run_moves cb (StartGet i k # replicate 5 (Advance i)) sh) = snd (db_get k (sh_db sh)) \<and>
    returned (run_moves cb (StartGet i k # replicate 5 (Advance i)) sh) =
      returned sh @ [GetReturned k (fst (db_get k (sh_db sh)))] \<and>
    sh_db (run_moves cb (StartPut i k v # replicate 4 (Advance i)) sh) = snd (db_put k v (sh_db sh)) \<and>
    returned (run_moves cb (StartPut i k v # replicate 4 (Advance i)) sh) =
      returned sh @ [PutReturned k v (fst (db_put k v (sh_db sh)))]"
proof -
  have none: "\<not> list_ex holds_exclusive (sh_calls sh)" using assms(3) by (auto simp: list_ex_iff)
  have i: "i < length (sh_calls sh)" using assms(1) by (simp add: idle_def)
  have start: "run_moves cb (StartGet i k # ms) sh = run_moves cb ms (sh\<lparr>sh_calls := (sh_calls sh)[i := Getting k]\<rparr>)"
    "run_moves cb (StartPut i k v # ms) sh = run_moves cb ms (sh\<lparr>sh_calls := (sh_calls sh)[i := PutStart k v]\<rparr>)" for ms
    using assms(1,3) none by (simp_all add: run_moves_def)
  let ?get = "sh\<lparr>sh_calls := (sh_calls sh)[i := Getting k]\<rparr>" and ?put = "sh\<lparr>sh_calls := (sh_calls sh)[i := PutStart k v]\<rparr>"
  have "run_call cb (sh_hints ?get ! i) 5 (sh_calls ?get ! i) (sh_db ?get) =
      (Some (GetReturned k (fst (db_get k (sh_db sh)))), snd (db_get k (sh_db sh)))"
    using i assms(2) run_call_get by simp
  moreover have "run_call cb (sh_hints ?put ! i) 4 (sh_calls ?put ! i) (sh_db ?put) =
      (Some (PutReturned k v (fst (db_put k v (sh_db sh)))), snd (db_put k v (sh_db sh)))"
    using i run_call_put by simp
  ultimately show ?thesis
    using run_moves_advance [of cb ?get i 5] run_moves_advance [of cb ?put i 4] i by (simp add: start returned_def)
qed

lemma lone_call_is_sequential_witness:
  "\<exists>db. db_open (good_env []) ''db'' 4 1 no_files = (Inr db, db_files db) \<and>
    returned (run_moves collect (StartGet 1 [7] # replicate 5 (Advance 1)) (clients 2 (set_workload_hint initial_workload_hint db)))
      = [GetReturned [7] (fst (db_get [7] (set_workload_hint initial_workload_hint db)))]"
proof -
  obtain db where db: "db_open (good_env []) ''db'' 4 1 no_files = (Inr db, db_files db)"
    using new_database [of 1 4] by auto
  let ?sh = "clients 2 (set_workload_hint initial_workload_hint db)"
  have "idle 1 ?sh" "sh_hints ?sh ! 1 = en_hint (db_engine (sh_db ?sh))" "\<not> list_ex holds_lock (sh_calls ?sh)"
    by (simp_all add: idle_def clients_def set_workload_hint_def numeral_2_eq_2)
  from lone_call_is_sequential [OF this, of collect "[7]" "[]"] db show ?thesis
    by (auto simp: clients_def returned_def)
qed

end
