(* ===== verification/Text_Input.thy ===== *)
theory Text_Input
  imports Prelude "HOL-Library.Char_ord"
begin

text \<open>
  Decimal numbers in text, as the program's standard library calls read and print them: \<open>std::stoi\<close> and
  \<open>std::stoull\<close> on command line arguments (\<open>src/src/main.cpp\<close>, \<open>src/benchmarks/learned_eviction_trainer.cpp\<close>),
  \<open>operator>>\<close> on a file of page ids and \<open>operator<<\<close> on a count.
\<close>

section \<open>Reading\<close>

definition is_digit :: "char \<Rightarrow> bool" where
  "is_digit c \<longleftrightarrow> CHR ''0'' \<le> c \<and> c \<le> CHR ''9''"

definition is_space :: "char \<Rightarrow> bool" where
  "is_space c \<longleftrightarrow> c = CHR '' '' \<or> CHR 0x09 \<le> c \<and> c \<le> CHR 0x0D"

definition digit_value :: "char \<Rightarrow> int" where
  "digit_value c = int (of_char c) - 48"

definition number_of_digits :: "string \<Rightarrow> int" where
  "number_of_digits = foldl (\<lambda>n c. 10 * n + digit_value c) 0"

text \<open>Spaces, a sign and digits; the number and what follows the digits.\<close>

definition scan_number :: "string \<Rightarrow> (int \<times> string) option" where
  "scan_number str =
     (let s = dropWhile is_space str;
          negative = (s \<noteq> [] \<and> hd s = CHR ''-'');
          s' = (if negative \<or> s \<noteq> [] \<and> hd s = CHR ''+'' then tl s else s);
          digits = takeWhile is_digit s';
          n = number_of_digits digits
      in if digits = [] then None else Some (if negative then - n else n, dropWhile is_digit s'))"

text \<open>
  \<open>None\<close> is an exception. What follows the digits is ignored. The unsigned conversions accept a minus sign
  and take the number modulo \<open>2\<^sup>6\<^sup>4\<close> or \<open>2\<^sup>3\<^sup>2\<close>, as long as its magnitude fits.
\<close>

definition stoi :: "string \<Rightarrow> u32 option" where
  "stoi str =
     (case scan_number str of None \<Rightarrow> None
      | Some (i, rest) \<Rightarrow> if i < - (2 ^ 31) \<or> 2 ^ 31 \<le> i then None else Some (word_of_int i))"

definition stoull :: "string \<Rightarrow> u64 option" where
  "stoull str =
     (case scan_number str of None \<Rightarrow> None
      | Some (i, rest) \<Rightarrow> if 2 ^ 64 \<le> \<bar>i\<bar> then None else Some (word_of_int i))"

text \<open>\<open>stream >> page_id\<close>; \<open>None\<close> leaves the stream failed.\<close>

definition read_u32 :: "string \<Rightarrow> (u32 \<times> string) option" where
  "read_u32 str =
     (case scan_number str of None \<Rightarrow> None
      | Some (i, rest) \<Rightarrow> if 2 ^ 32 \<le> \<bar>i\<bar> then None else Some (word_of_int i, rest))"

lemma length_dropWhile_digit:
  "takeWhile P s \<noteq> [] \<Longrightarrow> length (dropWhile P s) < length s"
  by (cases s) (auto simp: less_Suc_eq_le length_dropWhile_le split: if_splits)

lemma scan_number_shorter: "scan_number s = Some (i, rest) \<Longrightarrow> length rest < length s"
proof -
  assume s: "scan_number s = Some (i, rest)"
  let ?s = "dropWhile is_space s"
  define s' where "s' = (if (?s \<noteq> [] \<and> hd ?s = CHR ''-'') \<or> ?s \<noteq> [] \<and> hd ?s = CHR ''+'' then tl ?s else ?s)"
  have "takeWhile is_digit s' \<noteq> []" "rest = dropWhile is_digit s'"
    using s by (auto simp: scan_number_def Let_def s'_def split: if_splits)
  then have "length rest < length s'" using length_dropWhile_digit [of is_digit s'] by simp
  moreover have "length s' \<le> length ?s" by (simp add: s'_def)
  moreover have "length ?s \<le> length s" by (rule length_dropWhile_le)
  ultimately show ?thesis by simp
qed

lemma read_u32_shorter: "read_u32 s = Some (p, rest) \<Longrightarrow> length rest < length s"
  by (auto simp: read_u32_def scan_number_shorter split: option.splits if_splits)

text \<open>The loop \<open>while (stream >> page_id)\<close>, which stops at the first text that is not a number.\<close>

function read_ids :: "string \<Rightarrow> u32 list" where
  "read_ids s = (case read_u32 s of None \<Rightarrow> [] | Some (p, rest) \<Rightarrow> p # read_ids rest)"
  by pat_completeness auto
termination
  by (relation "measure length") (auto dest: read_u32_shorter)

declare read_ids.simps [simp del]

section \<open>Printing\<close>

definition digit_char :: "nat \<Rightarrow> char" where
  "digit_char d = char_of (48 + d)"

fun decimal :: "nat \<Rightarrow> string" where
  "decimal n = (if n < 10 then [digit_char n] else decimal (n div 10) @ [digit_char (n mod 10)])"

declare decimal.simps [simp del]

lemma digit_char_digit: "d < 10 \<Longrightarrow> is_digit (digit_char d)"
  by (simp add: is_digit_def digit_char_def less_eq_char_def)

lemma digit_char_value: "d < 10 \<Longrightarrow> digit_value (digit_char d) = int d"
  by (simp add: digit_value_def digit_char_def)

lemma decimal_digits: "\<forall>c \<in> set (decimal n). is_digit c"
proof (induction n rule: decimal.induct)
  case (1 n)
  then show ?case by (subst decimal.simps) (auto simp: digit_char_digit)
qed

lemma decimal_not_Nil [simp]: "decimal n \<noteq> []"
  by (subst decimal.simps) simp

lemma decimal_value: "number_of_digits (decimal n) = int n"
proof (induction n rule: decimal.induct)
  case (1 n)
  show ?case
  proof (cases "n < 10")
    case True
    then show ?thesis by (subst decimal.simps) (simp add: number_of_digits_def digit_char_value)
  next
    case False
    have "10 * int (n div 10) + int (n mod 10) = int n"
      by (metis mult_div_mod_eq of_nat_add of_nat_mult of_nat_numeral)
    with False 1 [OF False] show ?thesis
      by (subst decimal.simps) (simp add: number_of_digits_def digit_char_value)
  qed
qed

lemma digit_not_other: "is_digit c \<Longrightarrow> \<not> is_space c \<and> c \<noteq> CHR ''-'' \<and> c \<noteq> CHR ''+'' \<and> c \<noteq> CHR 0x0A \<and> c \<noteq> CHR ''#''"
  by (auto simp: is_digit_def is_space_def less_eq_char_def)

text \<open>A printed number is read back.\<close>

lemma scan_decimal:
  assumes "rest = [] \<or> \<not> is_digit (hd rest)"
  shows "scan_number (decimal n @ rest) = Some (int n, rest)"
proof -
  obtain c cs where d: "decimal n = c # cs" by (cases "decimal n") simp_all
  then have c: "is_digit c" using decimal_digits [of n] by simp
  have take: "takeWhile is_digit (decimal n @ rest) = decimal n"
    using decimal_digits [of n] assms by (cases rest) (auto simp: takeWhile_append)
  have drop: "dropWhile is_digit (decimal n @ rest) = rest"
    using decimal_digits [of n] assms by (cases rest) (auto simp: dropWhile_append)
  have "dropWhile is_space (decimal n @ rest) = decimal n @ rest" using digit_not_other [OF c] by (simp add: d)
  moreover have "hd (decimal n @ rest) = c" by (simp add: d)
  ultimately show ?thesis
    using digit_not_other [OF c] take drop by (simp add: scan_number_def decimal_value Let_def)
qed

definition print_int :: "int \<Rightarrow> string" where
  "print_int i = (if i < 0 then ''-'' else []) @ decimal (nat \<bar>i\<bar>)"

lemma scan_minus:
  assumes "rest = [] \<or> \<not> is_digit (hd rest)"
  shows "scan_number (CHR ''-'' # decimal n @ rest) = Some (- int n, rest)"
proof -
  obtain c cs where d: "decimal n = c # cs" by (cases "decimal n") simp_all
  then have c: "is_digit c" using decimal_digits [of n] by simp
  have s: "scan_number (decimal n @ rest) = Some (int n, rest)" by (rule scan_decimal [OF assms])
  have "\<not> is_space (CHR ''-'')" by (simp add: is_space_def less_eq_char_def)
  then show ?thesis
    using s digit_not_other [OF c] by (auto simp: scan_number_def Let_def d split: if_splits)
qed

lemma scan_print_int:
  "rest = [] \<or> \<not> is_digit (hd rest) \<Longrightarrow> scan_number (print_int i @ rest) = Some (i, rest)"
  using scan_minus [of rest "nat \<bar>i\<bar>"] scan_decimal [of rest "nat \<bar>i\<bar>"]
  by (cases "i < 0") (simp_all add: print_int_def)

lemma print_int_chars: "c \<in> set (print_int i) \<Longrightarrow> is_digit c \<or> c = CHR ''-''"
  using decimal_digits [of "nat \<bar>i\<bar>"] by (auto simp: print_int_def split: if_splits)

lemma print_int_not_Nil [simp]: "print_int i \<noteq> []"
  by (simp add: print_int_def)

lemma scan_spaces: "is_space c \<Longrightarrow> scan_number (c # s) = scan_number s"
  by (simp add: scan_number_def)

definition print_ids :: "u32 list \<Rightarrow> string" where
  "print_ids ids = concat (map (\<lambda>p. decimal (unat p) @ [CHR 0x0A]) ids)"

lemma read_ids_space: "is_space c \<Longrightarrow> read_ids (c # s) = read_ids s"
  by (simp add: read_ids.simps [of "c # s"] read_ids.simps [of s] read_u32_def scan_spaces)

lemma read_print_ids: "read_ids (print_ids ids) = ids"
proof (induction ids)
  case Nil
  then show ?case by (simp add: print_ids_def read_ids.simps read_u32_def scan_number_def)
next
  case (Cons p ids)
  have sp: "is_space (CHR 0x0A)" "\<not> is_digit (CHR 0x0A)" by (simp_all add: is_space_def is_digit_def less_eq_char_def)
  have "uint p < 4294967296" using unsigned_less [of p, where 'a = int] by simp
  then have "read_u32 (decimal (unat p) @ CHR 0x0A # print_ids ids) = Some (p, CHR 0x0A # print_ids ids)"
    using scan_decimal [of "CHR 0x0A # print_ids ids" "unat p"] sp(2)
    by (simp add: read_u32_def)
  then have "read_ids (print_ids (p # ids)) = p # read_ids (CHR 0x0A # print_ids ids)"
    by (subst read_ids.simps) (simp add: print_ids_def)
  then show ?case by (simp add: read_ids_space [OF sp(1)] Cons.IH)
qed

end
