(* ===== verification/Page_Tools.thy ===== *)
theory Page_Tools
  imports Complex_Main Storage_Engine Text_Input
begin

text \<open>
  The command line program on top of the storage engine: \<open>src/src/utils/data_generator.{h,cpp}\<close>,
  \<open>src/src/benchmark/query_runner.{h,cpp}\<close> and \<open>src/src/main.cpp\<close>. Times are left out.
\<close>

section \<open>Random numbers\<close>

text \<open>
  A \<open>std::mt19937\<close> by its seed, and a draw from \<open>std::uniform_int_distribution<uint32_t>(low, high)\<close>, whose
  algorithm the standard leaves to the library.
\<close>

record 'g random_source =
  mt19937 :: "u32 \<Rightarrow> 'g"
  uniform :: "u32 \<Rightarrow> u32 \<Rightarrow> 'g \<Rightarrow> u32 \<times> 'g"

section \<open>DataGenerator\<close>

definition page_reset :: "page_handle \<Rightarrow> unit page_cache \<Rightarrow> unit page_cache result" where
  "page_reset h pc =
     bind_result (handle_write h 0 (replicate PAGE_SIZE 0) pc) (\<lambda>pc1. handle_write h 0 (put_u32 PAGE_MAGIC) pc1)"

text \<open>\<open>raw_data[k] = ...\<close> for the indices of a list in turn; the payload follows the header.\<close>

primrec fill_loop ::
  "'g random_source \<Rightarrow> u32 \<Rightarrow> page_handle \<Rightarrow> nat list \<Rightarrow> 'g \<Rightarrow> unit page_cache \<Rightarrow> unit page_cache result" where
  "fill_loop rnd page_id h [] gen pc = Inr pc"
| "fill_loop rnd page_id h (k # ks) gen pc =
     (let (v, gen') = (if k mod 4 = 0 then (page_id, gen) else uniform rnd 1 100000 gen)
      in bind_result (handle_write h (PAGE_HEADER_SIZE + 4 * k) (put_u32 v) pc) (fill_loop rnd page_id h ks gen'))"

definition fill_page_payload ::
  "'g random_source \<Rightarrow> u32 \<Rightarrow> u32 \<Rightarrow> page_handle \<Rightarrow> unit page_cache \<Rightarrow> unit page_cache result" where
  "fill_page_payload rnd seed page_id h pc =
     fill_loop rnd page_id h [0..<PAYLOAD_SIZE div 4] (mt19937 rnd (seed + page_id)) pc"

text \<open>
  One round of the loop. The handle that \<open>allocate_page\<close> returns is destroyed at once; \<open>grow\<close> says which of the
  system calls that grow the file succeed.
\<close>

definition ensure_page :: "(u32 \<Rightarrow> bool \<times> bool) \<Rightarrow> u32 \<Rightarrow> engine \<Rightarrow> unit result \<times> engine" where
  "ensure_page grow i en =
     (if i \<ge> get_total_pages en then
        (case allocate_page (fst (grow i)) (snd (grow i)) en of
           (Inl e, en') \<Rightarrow> (Inl e, en')
         | (Inr h, en') \<Rightarrow> (Inr (), engine_release h en'))
      else (Inr (), en))"

definition generate_page ::
  "'g random_source \<Rightarrow> u32 \<Rightarrow> (u32 \<Rightarrow> bool \<times> bool) \<Rightarrow> u32 \<Rightarrow> engine \<Rightarrow> unit result \<times> engine" where
  "generate_page rnd seed grow i en =
     (case ensure_page grow i en of
        (Inl e, en1) \<Rightarrow> (Inl e, en1)
      | (Inr _, en1) \<Rightarrow>
          (case engine_fetch_page i en1 of
             (Inl e, en2) \<Rightarrow> (Inl e, en2)
           | (Inr h, en2) \<Rightarrow>
               (case bind_result (page_reset h (en_cache en2)) (\<lambda>pc1.
                     bind_result (handle_write h 4 (put_u32 i) pc1) (fill_page_payload rnd seed i h)) of
                  Inl e \<Rightarrow> (Inl e, en2)
                | Inr pc \<Rightarrow> (Inr (), engine_release h (en2\<lparr>en_cache := pc\<rparr>)))))"

primrec generate_loop ::
  "'g random_source \<Rightarrow> u32 \<Rightarrow> (u32 \<Rightarrow> bool \<times> bool) \<Rightarrow> nat list \<Rightarrow> engine \<Rightarrow> unit result \<times> engine" where
  "generate_loop rnd seed grow [] en = (Inr (), en)"
| "generate_loop rnd seed grow (i # is) en =
     (case generate_page rnd seed grow (word_of_nat i) en of
        (Inl e, en') \<Rightarrow> (Inl e, en')
      | (Inr _, en') \<Rightarrow> generate_loop rnd seed grow is en')"

definition generate_pages ::
  "'g random_source \<Rightarrow> u32 \<Rightarrow> (u32 \<Rightarrow> bool \<times> bool) \<Rightarrow> u32 \<Rightarrow> engine \<Rightarrow> unit result \<times> engine" where
  "generate_pages rnd seed grow page_count en = generate_loop rnd seed grow [0..<unat page_count] en"

section \<open>QueryRunner\<close>

text \<open>The pages are fetched in turn; the magic numbers are the values that the \<open>volatile\<close> variable takes.\<close>

primrec fetch_loop :: "u32 list \<Rightarrow> engine \<Rightarrow> u32 list result \<times> engine" where
  "fetch_loop [] en = (Inr [], en)"
| "fetch_loop (pid # pids) en =
     (case engine_fetch_page pid en of
        (Inl e, en1) \<Rightarrow> (Inl e, en1)
      | (Inr h, en1) \<Rightarrow>
          (case raw_data h en1 of
             Inl e \<Rightarrow> (Inl e, en1)
           | Inr p \<Rightarrow>
               (case fetch_loop pids (engine_release h en1) of
                  (Inl e, en2) \<Rightarrow> (Inl e, en2)
                | (Inr ms, en2) \<Rightarrow> (Inr (hdr_magic (get_header p) # ms), en2))))"

definition run_sequential_scan :: "u32 \<Rightarrow> engine \<Rightarrow> u32 list result \<times> engine" where
  "run_sequential_scan page_count en = fetch_loop (map word_of_nat [0..<unat page_count]) en"

primrec draw_ids :: "'g random_source \<Rightarrow> u32 \<Rightarrow> nat \<Rightarrow> 'g \<Rightarrow> u32 list" where
  "draw_ids rnd high 0 gen = []"
| "draw_ids rnd high (Suc n) gen = (let (v, gen') = uniform rnd 0 high gen in v # draw_ids rnd high n gen')"

definition run_random_access :: "'g random_source \<Rightarrow> u32 \<Rightarrow> u32 \<Rightarrow> engine \<Rightarrow> u32 list result \<times> engine" where
  "run_random_access rnd page_count total_pages_in_file en =
     fetch_loop (draw_ids rnd (total_pages_in_file - 1) (unat page_count) (mt19937 rnd 42)) en"

text \<open>
  The numbers that \<open>print_stats\<close> prints: latency per page, pages per second, and the bandwidth. Over the reals the
  last is the number of bytes per second, although it is printed as MB/s.
\<close>

definition print_stats :: "'d double_ops \<Rightarrow> 'd \<Rightarrow> u32 \<Rightarrow> 'd \<times> 'd \<times> 'd" where
  "print_stats D duration_ms page_count =
     (let n = d_of_int D (uint page_count);
          avg_latency_us = d_div D (d_mul D duration_ms (d_of_int D 1000)) n;
          throughput_pages_sec = d_mul D (d_div D n duration_ms) (d_of_int D 1000);
          throughput_mb_sec =
            d_mul D (d_div D (d_mul D throughput_pages_sec (d_of_int D 4096)) (d_of_int D 1024)) (d_of_int D 1024)
      in (avg_latency_us, throughput_pages_sec, throughput_mb_sec))"

definition real_ops :: "real double_ops" where
  "real_ops = \<lparr>d_of_int = of_int, d_add = (+), d_mul = (*), d_div = (/), d_less = (<), d_read3 = (\<lambda>_. None)\<rparr>"

lemma print_stats_bandwidth:
  "print_stats real_ops ms n = (latency, pages, bandwidth) \<Longrightarrow> bandwidth = pages * 4096"
  by (auto simp: print_stats_def real_ops_def Let_def)

section \<open>The program\<close>

text \<open>What the program reports.\<close>

datatype report =
    Usage
  | Generated u32
  | PageRead u32 u32 u32
  | ErrorReadingPage u32 error
  | EmptyDatabase
  | Benchmark "u32 list"
  | UnknownMode string
  | FatalError

record process =
  pr_fd :: int
  pr_stat :: bool
  pr_mmap :: bool
  pr_grow :: "u32 \<Rightarrow> bool \<times> bool"
  pr_obs :: observers

text \<open>A \<open>catch (const std::exception&)\<close>, which does not catch undefined behaviour.\<close>

definition caught :: "error \<Rightarrow> 'a \<Rightarrow> 'a result" where
  "caught e r = (if e = Undefined then Inl Undefined else Inr r)"

text \<open>The \<open>read\<close> command; the word at the start of the payload is read through a cast.\<close>

definition read_command :: "u32 \<Rightarrow> engine \<Rightarrow> report result \<times> engine" where
  "read_command page_id db =
     (case engine_fetch_page page_id db of
        (Inl e, db1) \<Rightarrow> (caught e (ErrorReadingPage page_id e), db1)
      | (Inr h, db1) \<Rightarrow>
          (case raw_data h db1 of
             Inl e \<Rightarrow> (Inl e, db1)
           | Inr p \<Rightarrow> (Inr (PageRead page_id (hdr_magic (get_header p)) (get_u32 (mread (page_get_payload p) 0 4))),
                       engine_release h db1)))"

text \<open>The commands with their exit codes; the arguments after the command are in \<open>args\<close>.\<close>

definition generate_command ::
  "'g random_source \<Rightarrow> process \<Rightarrow> string list \<Rightarrow> engine \<Rightarrow> (nat \<times> report list) result \<times> engine" where
  "generate_command rnd pr args db =
     (case (if args \<noteq> [] then stoi (hd args) else Some 10) of
        None \<Rightarrow> (Inr (1, [FatalError]), db)
      | Some page_count \<Rightarrow>
          (case generate_pages rnd 42 (pr_grow pr) page_count db of
             (Inl e, db1) \<Rightarrow> (caught e (1, [FatalError]), db1)
           | (Inr _, db1) \<Rightarrow> (Inr (0, [Generated page_count]), db1)))"

definition benchmark_command ::
  "'g random_source \<Rightarrow> string list \<Rightarrow> engine \<Rightarrow> (nat \<times> report list) result \<times> engine" where
  "benchmark_command rnd args db =
     (case stoi (args ! 1) of
        None \<Rightarrow> (Inr (1, [FatalError]), db)
      | Some page_count \<Rightarrow>
          let total_pages = get_total_pages db
          in if total_pages = 0 then (Inr (1, [EmptyDatabase]), db)
             else if args ! 0 \<noteq> ''seq'' \<and> args ! 0 \<noteq> ''rnd'' then (Inr (1, [UnknownMode (args ! 0)]), db)
             else
               (case (if args ! 0 = ''seq'' then run_sequential_scan (min page_count total_pages) db
                      else run_random_access rnd page_count total_pages db) of
                  (Inl e, db1) \<Rightarrow> (caught e (1, [FatalError]), db1)
                | (Inr ms, db1) \<Rightarrow> (Inr (0, [Benchmark ms]), db1)))"

definition run_command ::
  "'g random_source \<Rightarrow> process \<Rightarrow> string \<Rightarrow> string list \<Rightarrow> engine \<Rightarrow> (nat \<times> report list) result \<times> engine" where
  "run_command rnd pr command args db =
     (if command = ''generate'' then generate_command rnd pr args db
      else if command = ''read'' then
        (if args = [] then (Inr (1, [Usage]), db)
         else case stoi (hd args) of
                None \<Rightarrow> (Inr (1, [FatalError]), db)
              | Some page_id \<Rightarrow>
                  (case read_command page_id db of
                     (Inl e, db1) \<Rightarrow> (Inl e, db1)
                   | (Inr r, db1) \<Rightarrow> (Inr (0, [r]), db1)))
      else if command = ''benchmark'' then
        (if length args < 2 then (Inr (1, [Usage]), db) else benchmark_command rnd args db)
      else (Inr (0, []), db))"

text \<open>
  \<open>main\<close>: exit code and reports, or the exception of the engine's constructor, which nothing catches. The
  engine is destroyed at the end: the file is closed, and the pool is dropped.
\<close>

definition main_program ::
  "'g random_source \<Rightarrow> process \<Rightarrow> string list \<Rightarrow> os \<Rightarrow> (nat \<times> report list) result \<times> os" where
  "main_program rnd pr argv sys =
     (if length argv < 2 then (Inr (0, [Usage]), sys)
      else case engine_new ''data.db'' (pr_fd pr) (pr_stat pr) (pr_mmap pr) sys (pr_obs pr) 1000 None [] of
             (Inl e, sys1) \<Rightarrow> (Inl e, sys1)
           | (Inr db, sys1) \<Rightarrow>
               let (r, db') = run_command rnd pr (argv ! 1) (drop 2 argv) db
               in (r, mf_destroy (pc_file (en_cache db')) (pc_os (en_cache db'))))"

section \<open>Writing a page through a handle\<close>

lemma handle_write_frame:
  "handle_write h off src pc = Inr pc' \<Longrightarrow> \<exists>pool. pc' = pc\<lparr>pc_pool := pool\<rparr>"
  by (auto simp: handle_write_def bind_result_def split: if_splits sum.splits)

text \<open>Writes through \<open>h\<close> have made its page \<open>p\<close>, and nothing else has changed.\<close>

definition page_written :: "page_handle list \<Rightarrow> page_handle \<Rightarrow> unit page_cache \<Rightarrow> bytes \<Rightarrow> unit page_cache \<Rightarrow> bool" where
  "page_written hs h pc p pc' \<longleftrightarrow> (\<exists>pool. pc' = pc\<lparr>pc_pool := pool\<rparr> \<and> length pool = length (pc_pool pc)) \<and>
     handles_ok pc' (h # hs) \<and> cache_view pc' = (cache_view pc)(ph_page_id h := p)"

lemma page_written_trans:
  "page_written hs h pc p pc' \<Longrightarrow> page_written hs h pc' q pc'' \<Longrightarrow> page_written hs h pc q pc''"
  by (auto simp: page_written_def)

lemma handle_write_page:
  assumes ok: "handles_ok pc (h # hs)" and cached: "ph_cached h" and n: "off + length src \<le> 4096"
  shows "\<exists>pc'. handle_write h off src pc = Inr pc' \<and>
    page_written hs h pc (mwrite (cache_view pc (ph_page_id h)) off src) pc'"
proof -
  obtain pc' where w: "handle_write h off src pc = Inr pc'" "handles_ok pc' (h # hs)"
    "length (pc_pool pc') = length (pc_pool pc)"
    "cache_view pc' = (cache_view pc)(ph_page_id h := mwrite (cache_view pc (ph_page_id h)) off src)"
    using write_handles [OF ok, of 0 off src] cached n by auto
  with handle_write_frame [OF w(1)] show ?thesis by (auto simp: page_written_def)
qed

text \<open>A write followed by further writes.\<close>

lemma handle_write_then:
  assumes ok: "handles_ok pc (h # hs)" and cached: "ph_cached h" and n: "off + length src \<le> 4096"
    and more: "\<And>pc'. page_written hs h pc (mwrite (cache_view pc (ph_page_id h)) off src) pc' \<Longrightarrow>
      \<exists>pc''. f pc' = Inr pc'' \<and> page_written hs h pc' p pc''"
  shows "\<exists>pc''. bind_result (handle_write h off src pc) f = Inr pc'' \<and> page_written hs h pc p pc''"
  using handle_write_page [OF ok cached n] more page_written_trans by fastforce

text \<open>The words that \<open>fill_page_payload\<close> writes.\<close>

primrec page_words :: "'g random_source \<Rightarrow> u32 \<Rightarrow> nat list \<Rightarrow> 'g \<Rightarrow> u32 list" where
  "page_words rnd page_id [] gen = []"
| "page_words rnd page_id (k # ks) gen =
     (let (v, gen') = (if k mod 4 = 0 then (page_id, gen) else uniform rnd 1 100000 gen)
      in v # page_words rnd page_id ks gen')"

definition words_bytes :: "u32 list \<Rightarrow> bytes" where
  "words_bytes ws = concat (map put_u32 ws)"

lemma words_bytes_simps [simp]:
  "words_bytes [] = []" "words_bytes (w # ws) = put_u32 w @ words_bytes ws"
  "length (words_bytes ws) = 4 * length ws"
  by (simp_all add: words_bytes_def) (induction ws, auto)

lemma length_page_words [simp]: "length (page_words rnd page_id ks gen) = length ks"
  by (induction ks arbitrary: gen) (auto split: prod.split simp: Let_def)

lemma fill_loop_ok:
  assumes "handles_ok pc (h # hs)" and "ph_cached h" and "k + n \<le> 1008"
    and "length (cache_view pc (ph_page_id h)) = 4096"
  shows "\<exists>pc'. fill_loop rnd page_id h [k..<k + n] gen pc = Inr pc' \<and>
    page_written hs h pc
      (mwrite (cache_view pc (ph_page_id h)) (64 + 4 * k) (words_bytes (page_words rnd page_id [k..<k + n] gen))) pc'"
  using assms
proof (induction n arbitrary: k gen pc)
  case 0
  then show ?case by (auto simp: page_written_def mwrite_def intro!: exI [of _ "pc_pool pc"])
next
  case (Suc n)
  let ?p = "cache_view pc (ph_page_id h)"
  obtain v gen' where v: "(if k mod 4 = 0 then (page_id, gen) else uniform rnd 1 100000 gen) = (v, gen')" by fastforce
  have ks: "[k..<k + Suc n] = k # [Suc k..<Suc k + n]" by (simp add: upt_conv_Cons)
  let ?ws = "words_bytes (page_words rnd page_id [Suc k..<Suc k + n] gen')"
  have "\<exists>pc''. bind_result (handle_write h (64 + 4 * k) (put_u32 v) pc) (fill_loop rnd page_id h [Suc k..<Suc k + n] gen') =
      Inr pc'' \<and> page_written hs h pc (mwrite ?p (64 + 4 * k) (put_u32 v @ ?ws)) pc''"
  proof (rule handle_write_then [OF Suc.prems(1,2)])
    show "64 + 4 * k + length (put_u32 v) \<le> 4096" using Suc.prems(3) by simp
    fix pc' assume w: "page_written hs h pc (mwrite ?p (64 + 4 * k) (put_u32 v)) pc'"
    then have "handles_ok pc' (h # hs)" "cache_view pc' (ph_page_id h) = mwrite ?p (64 + 4 * k) (put_u32 v)"
      by (simp_all add: page_written_def)
    moreover have "mwrite (mwrite ?p (64 + 4 * k) (put_u32 v)) (64 + 4 * Suc k) ?ws = mwrite ?p (64 + 4 * k) (put_u32 v @ ?ws)"
      using mwrite_mwrite_adjacent [of "64 + 4 * k" "put_u32 v" ?ws ?p] Suc.prems(3,4) by (simp add: add.commute)
    ultimately show "\<exists>pc''. fill_loop rnd page_id h [Suc k..<Suc k + n] gen' pc' = Inr pc'' \<and>
        page_written hs h pc' (mwrite ?p (64 + 4 * k) (put_u32 v @ ?ws)) pc''"
      using Suc.IH [of pc' "Suc k" gen'] Suc.prems(2-4) by simp
  qed
  then show ?case unfolding ks fill_loop.simps page_words.simps v by simp
qed

definition generated_page :: "'g random_source \<Rightarrow> u32 \<Rightarrow> u32 \<Rightarrow> bytes" where
  "generated_page rnd seed i =
     mwrite (set_page_id i raw_page_reset) 64 (words_bytes (page_words rnd i [0..<1008] (mt19937 rnd (seed + i))))"

lemma generated_page_parts:
  "get_header (generated_page rnd seed i) = (get_header raw_page_reset)\<lparr>hdr_page_id := i\<rparr>"
  "page_get_payload (generated_page rnd seed i) = words_bytes (page_words rnd i [0..<1008] (mt19937 rnd (seed + i)))"
  "length (generated_page rnd seed i) = 4096"
proof -
  let ?p = "set_page_id i raw_page_reset" and ?ws = "words_bytes (page_words rnd i [0..<1008] (mt19937 rnd (seed + i)))"
  have len: "length ?ws = 4032" by simp
  have "get_header (mwrite ?p 64 ?ws) = get_header ?p"
    by (simp add: get_header_def mread_mwrite_before del: words_bytes_simps)
  then show "get_header (generated_page rnd seed i) = (get_header raw_page_reset)\<lparr>hdr_page_id := i\<rparr>"
    by (simp add: generated_page_def)
  show "page_get_payload (generated_page rnd seed i) = ?ws"
    using mread_mwrite_same [where m = ?p and off = 64 and src = ?ws] len by (simp add: generated_page_def page_get_payload_def)
  show "length (generated_page rnd seed i) = 4096"
    by (simp add: generated_page_def len)
qed

lemma fill_page_ok:
  assumes ok: "handles_ok pc (h # hs)" and cached: "ph_cached h"
    and len: "length (cache_view pc (ph_page_id h)) = 4096"
  shows "\<exists>pc'. bind_result (page_reset h pc) (\<lambda>pc1.
      bind_result (handle_write h 4 (put_u32 i) pc1) (fill_page_payload rnd seed i h)) = Inr pc' \<and>
    page_written hs h pc (generated_page rnd seed i) pc'"
proof -
  let ?v = "cache_view pc (ph_page_id h)"
  obtain pc1 where 1: "page_reset h pc = Inr pc1" "page_written hs h pc raw_page_reset pc1"
  proof -
    have "\<exists>pc1. page_reset h pc = Inr pc1 \<and> page_written hs h pc raw_page_reset pc1"
      unfolding page_reset_def
    proof (rule handle_write_then [OF ok cached])
      fix pc' assume w: "page_written hs h pc (mwrite ?v 0 (replicate PAGE_SIZE 0)) pc'"
      then have "handles_ok pc' (h # hs)" "cache_view pc' (ph_page_id h) = replicate 4096 0"
        using len by (simp_all add: page_written_def mwrite_def)
      then show "\<exists>pc''. handle_write h 0 (put_u32 PAGE_MAGIC) pc' = Inr pc'' \<and> page_written hs h pc' raw_page_reset pc''"
        using handle_write_page [OF _ cached, of pc' hs 0 "put_u32 PAGE_MAGIC"]
        by (simp add: raw_page_reset_def set_magic_def)
    qed simp
    then show thesis using that by blast
  qed
  have "\<exists>pc'. bind_result (handle_write h 4 (put_u32 i) pc1) (fill_page_payload rnd seed i h) = Inr pc' \<and>
      page_written hs h pc1 (generated_page rnd seed i) pc'"
  proof (rule handle_write_then [OF _ cached])
    show "handles_ok pc1 (h # hs)" using 1(2) by (simp add: page_written_def)
    fix pc2 assume w: "page_written hs h pc1 (mwrite (cache_view pc1 (ph_page_id h)) 4 (put_u32 i)) pc2"
    then have "handles_ok pc2 (h # hs)" "cache_view pc2 (ph_page_id h) = set_page_id i raw_page_reset"
      using 1(2) by (simp_all add: page_written_def set_page_id_def)
    then show "\<exists>pc'. fill_page_payload rnd seed i h pc2 = Inr pc' \<and> page_written hs h pc2 (generated_page rnd seed i) pc'"
      using fill_loop_ok [OF _ cached, of pc2 hs 0 1008 rnd i "mt19937 rnd (seed + i)"]
      by (simp add: fill_page_payload_def generated_page_def del: words_bytes_simps upt_Suc)
  qed simp
  then show ?thesis using 1 page_written_trans [OF 1(2)] by auto
qed

section \<open>An engine without prefetch threads\<close>

text \<open>Nothing here prefetches pages, so no schedule can do anything.\<close>

lemma run_scheduled_calm:
  assumes "en_threads en = []"
  shows "run_scheduled en = en\<lparr>en_schedule := tl (en_schedule en)\<rparr>"
proof -
  have "fold thread_step ks e = e" if "en_threads e = []" for ks e
    using that by (induction ks) (simp_all add: thread_step_def)
  then show ?thesis using assms by (cases "en_schedule en") (simp_all add: run_scheduled_def)
qed

lemma engine_ok_calm:
  "en_threads en = [] \<Longrightarrow> engine_ok hs en \<longleftrightarrow> handles_ok (en_cache en) hs \<and> (\<forall>h \<in> set hs. ph_cached h)"
  by (simp add: engine_ok_def thread_handles_def)

text \<open>A fetch of a page that is cached, or that finds a free frame, leaves the file alone.\<close>

definition needs_no_victim :: "u32 \<Rightarrow> unit page_cache \<Rightarrow> bool" where
  "needs_no_victim pid pc \<longleftrightarrow> pc_page_map pc pid \<noteq> None \<or> pc_free_frames pc \<noteq> []"

lemma fetch_without_victim:
  assumes f: "fetch_page pick hint pid pc = (Inr h, pc')" and free: "needs_no_victim pid pc"
  shows "pc_os pc' = pc_os pc \<and> dom (pc_page_map pc') = insert pid (dom (pc_page_map pc))"
proof (cases "pc_page_map pc pid")
  case (Some fr)
  then show ?thesis using f
    by (auto simp: fetch_page_def get_page_internal_def touch_page_def bind_result_def map_index_def Let_def
        split: if_splits sum.splits option.splits prod.splits)
next
  case None
  then obtain fr fs where "pc_free_frames pc = fr # fs"
    using free by (cases "pc_free_frames pc") (auto simp: needs_no_victim_def)
  then show ?thesis using f None
    by (auto simp: fetch_page_def get_page_internal_def install_page_def Let_def
        split: if_splits sum.splits)
qed

lemma calm_fetch:
  assumes ok: "engine_ok [] en" and calm: "en_threads en = []" and pool: "pc_pool (en_cache en) \<noteq> []"
    and pid: "pid < get_total_pages en"
  obtains h en' where "engine_fetch_page pid en = (Inr h, en')" and "engine_ok [h] en'" and "ph_page_id h = pid"
    and "same_store en en'" and "en_threads en' = []"
    and "needs_no_victim pid (en_cache en) \<Longrightarrow> pc_os (en_cache en') = pc_os (en_cache en) \<and>
      dom (pc_page_map (en_cache en')) = insert pid (dom (pc_page_map (en_cache en)))"
proof -
  obtain r pc where b: "bounded_fetch (en_hint en) pid (en_cache en) = (r, pc)" by fastforce
  then have f: "engine_fetch_page pid en = (r, en\<lparr>en_schedule := tl (en_schedule en), en_cache := pc\<rparr>)"
    by (simp add: engine_fetch_page_def run_scheduled_calm [OF calm])
  have h0: "handles_ok (en_cache en) []" using ok calm by (simp add: engine_ok_calm)
  note c = bounded_fetch_cases [OF h0 b]
  have "\<not> pool_full (en_cache en) pc pid" using pool_full_open(2) [OF h0, of pc pid] pool by auto
  then obtain fr where r: "r = Inr \<lparr>ph_cached = True, ph_frame = fr, ph_page_id = pid\<rparr>"
    "handles_ok pc [\<lparr>ph_cached = True, ph_frame = fr, ph_page_id = pid\<rparr>]"
    using c pid by (auto simp: get_total_pages_def mf_get_page_count_def not_le)
  have "fetch_page no_policy (en_hint en) pid (en_cache en) = (r, pc)"
    using b pid by (auto simp: bounded_fetch_def get_total_pages_def split: if_splits)
  then show thesis
    using that [OF f [unfolded r(1)]] r calm c fetch_without_victim [of no_policy "en_hint en" pid "en_cache en" _ pc]
    by (simp add: engine_ok_calm same_store_def engine_view_def)
qed

lemma calm_release:
  assumes ok: "engine_ok [h] en" and calm: "en_threads en = []"
  shows "engine_ok [] (engine_release h en)" and "same_store en (engine_release h en)"
    and "en_threads (engine_release h en) = []" and "pc_os (en_cache (engine_release h en)) = pc_os (en_cache en)"
    and "pc_page_map (en_cache (engine_release h en)) = pc_page_map (en_cache en)"
proof -
  have "ph_cached h" "cache_ok (en_cache en)"
    using ok calm handles_okD(1) by (auto simp: engine_ok_calm)
  then show "en_threads (engine_release h en) = []" "pc_os (en_cache (engine_release h en)) = pc_os (en_cache en)"
    "pc_page_map (en_cache (engine_release h en)) = pc_page_map (en_cache en)"
    using calm by (simp_all add: engine_release_def run_scheduled_calm handle_destroy_def unpin_page_ok Let_def)
qed (use engine_release_ok [OF ok] in simp_all)

text \<open>Writing a page through its handle.\<close>

lemma engine_write:
  assumes ok: "engine_ok [h] en" and calm: "en_threads en = []" and w: "page_written [] h (en_cache en) p pc"
  shows "engine_ok [h] (en\<lparr>en_cache := pc\<rparr>)"
    and "engine_view (en\<lparr>en_cache := pc\<rparr>) q = (if q = ph_page_id h then p else engine_view en q)"
    and "get_total_pages (en\<lparr>en_cache := pc\<rparr>) = get_total_pages en"
    and "length (pc_pool pc) = length (pc_pool (en_cache en))" and "pc_os pc = pc_os (en_cache en)"
    and "pc_page_map pc = pc_page_map (en_cache en)" and "pc_file pc = pc_file (en_cache en)"
  using assms by (auto simp: page_written_def engine_ok_calm engine_view_def get_total_pages_def)

lemma write_header_written:
  assumes ok: "handles_ok pc (h # hs)" and cached: "ph_cached h"
  shows "\<exists>pc'. write_header h v pc = Inr pc' \<and> page_written hs h pc
    (set_next_page_id 0xFFFFFFFF (set_magic PAGE_MAGIC (set_page_id v (cache_view pc (ph_page_id h))))) pc'"
  unfolding write_header_def
proof (rule handle_write_then [OF ok cached])
  fix pc1 assume 1: "page_written hs h pc (mwrite (cache_view pc (ph_page_id h)) 4 (put_u32 v)) pc1"
  show "\<exists>pc'. bind_result (handle_write h 0 (put_u32 PAGE_MAGIC) pc1) (handle_write h 8 (put_u32 0xFFFFFFFF)) = Inr pc' \<and>
    page_written hs h pc1
      (set_next_page_id 0xFFFFFFFF (set_magic PAGE_MAGIC (set_page_id v (cache_view pc (ph_page_id h))))) pc'"
  proof (rule handle_write_then [OF _ cached])
    show "handles_ok pc1 (h # hs)" using 1 by (simp add: page_written_def)
    fix pc2 assume 2: "page_written hs h pc1 (mwrite (cache_view pc1 (ph_page_id h)) 0 (put_u32 PAGE_MAGIC)) pc2"
    then have "handles_ok pc2 (h # hs)" by (simp add: page_written_def)
    from handle_write_page [OF this cached, of 8 "put_u32 0xFFFFFFFF"] 1 2
    show "\<exists>pc'. handle_write h 8 (put_u32 0xFFFFFFFF) pc2 = Inr pc' \<and> page_written hs h pc2
      (set_next_page_id 0xFFFFFFFF (set_magic PAGE_MAGIC (set_page_id v (cache_view pc (ph_page_id h))))) pc'"
      by (simp add: page_written_def set_page_id_def set_magic_def set_next_page_id_def)
  qed simp
qed simp

lemma calm_allocate:
  assumes ok: "engine_ok [] en" and calm: "en_threads en = []" and pool: "pc_pool (en_cache en) \<noteq> []"
    and small: "unat (get_total_pages en) + 1 < 2 ^ 20"
  obtains h en' where "allocate_page True True en = (Inr h, en')" and "engine_ok [h] en'" and "en_threads en' = []"
    and "get_total_pages en' = get_total_pages en + 1"
    and "length (pc_pool (en_cache en')) = length (pc_pool (en_cache en))"
    and "\<forall>q < get_total_pages en. engine_view en' q = engine_view en q"
    and "mf_path (pc_file (en_cache en')) = mf_path (pc_file (en_cache en))"
    and "length (disk_bytes (en_cache en')) = 4096 * (unat (get_total_pages en) + 1)"
    and "pc_free_frames (en_cache en) \<noteq> [] \<Longrightarrow>
      disk_bytes (en_cache en') = resize (4096 * (unat (get_total_pages en) + 1)) (disk_bytes (en_cache en)) \<and>
      dom (pc_page_map (en_cache en')) = insert (get_total_pages en) (dom (pc_page_map (en_cache en)))"
proof -
  let ?id = "get_total_pages en" and ?pc = "en_cache en"
  have id: "mf_page_count (pc_file ?pc) = ?id" "mf_get_page_count (pc_file ?pc) = ?id"
    by (simp_all add: get_total_pages_def mf_get_page_count_def)
  have h0: "handles_ok ?pc []" using ok calm by (simp add: engine_ok_calm)
  obtain mf' sys' where g: "mf_grow_file (?id + 1) True True (pc_file ?pc) (pc_os ?pc) = (Inr (), mf', sys')"
    "handles_ok (?pc\<lparr>pc_file := mf', pc_os := sys'\<rparr>) []" "mf_page_count mf' = ?id + 1" "mf_path mf' = mf_path (pc_file ?pc)"
    "os_content sys' (mf_path mf') = resize (4096 * (unat ?id + 1)) (disk_bytes ?pc)"
    "\<forall>q < ?id. cache_view (?pc\<lparr>pc_file := mf', pc_os := sys'\<rparr>) q = cache_view ?pc q"
    using cache_grow [OF h0, unfolded id, OF small] by (auto simp: disk_bytes_def)
  let ?pc1 = "?pc\<lparr>pc_file := mf', pc_os := sys'\<rparr>"
  obtain r pc where f: "fetch_page no_policy (en_hint en) ?id ?pc1 = (r, pc)" by fastforce
  have lt: "?id < ?id + 1" using small by (simp add: word_less_nat_alt unat_word_ariths)
  then have nle: "\<not> ?id + 1 \<le> ?id" by (simp only: not_le)
  have "bounded_fetch (en_hint en) ?id ?pc1 = (r, pc)"
    using f nle by (simp add: bounded_fetch_def mf_get_page_count_def g(3))
  note c = bounded_fetch_cases [OF g(2) this]
  have "\<not> pool_full ?pc1 pc ?id" using pool_full_open(2) [OF g(2), of pc ?id] pool by auto
  then obtain fr where r: "r = Inr \<lparr>ph_cached = True, ph_frame = fr, ph_page_id = ?id\<rparr>"
    "handles_ok pc [\<lparr>ph_cached = True, ph_frame = fr, ph_page_id = ?id\<rparr>]"
    using c nle by (auto simp: g(3))
  let ?h = "\<lparr>ph_cached = True, ph_frame = fr, ph_page_id = ?id\<rparr>"
  obtain pc' p where w: "write_header ?h ?id pc = Inr pc'" "page_written [] ?h pc p pc'"
    using write_header_written [OF r(2), of ?id] by auto
  define en' where "en' = en\<lparr>en_cache := pc', en_schedule := tl (en_schedule en)\<rparr>"
  have "allocate_page True True en = (Inr ?h, en')"
    using g(1) f r(1) w(1) calm
    by (simp add: allocate_page_def id Let_def run_scheduled_calm en'_def)
  moreover have "engine_ok [?h] en'" "en_threads en' = []" using w(2) calm by (simp_all add: en'_def engine_ok_calm page_written_def)
  moreover have parts: "pc_file pc' = mf'" "pc_os pc' = pc_os pc" "pc_page_map pc' = pc_page_map pc"
    "length (pc_pool pc') = length (pc_pool ?pc)" using w(2) c by (auto simp: page_written_def)
  moreover have "length (disk_bytes pc') = 4096 * (unat ?id + 1)"
  proof -
    have "same_disk ?pc1 pc" using c by blast
    moreover have "disk_bytes pc' = disk_bytes pc" using w(2) by (auto simp: page_written_def disk_bytes_def)
    moreover have "length (disk_bytes ?pc1) = 4096 * (unat ?id + 1)" using g(5) by (simp add: disk_bytes_def resize_def)
    ultimately show ?thesis by (simp add: same_disk_def)
  qed
  moreover have "engine_view en' q = engine_view en q" if "q < ?id" for q
    using w(2) c g(6) that less_imp_neq [OF that] by (simp add: page_written_def en'_def engine_view_def)
  moreover have "disk_bytes pc' = resize (4096 * (unat ?id + 1)) (disk_bytes ?pc) \<and>
      dom (pc_page_map pc') = insert ?id (dom (pc_page_map ?pc))" if "pc_free_frames ?pc \<noteq> []"
    using fetch_without_victim [OF f [unfolded r(1)]] that parts g(5) by (simp add: needs_no_victim_def disk_bytes_def)
  ultimately show thesis
    using that g(3,4) by (simp add: en'_def get_total_pages_def mf_get_page_count_def)
qed

lemma unused_frame:
  assumes "cache_ok pc" and "card (dom (pc_page_map pc)) < length (pc_pool pc)"
  shows "pc_free_frames pc \<noteq> []"
proof
  assume free: "pc_free_frames pc = []"
  have fr: "frames_ok (pc_page_map pc) (pc_free_frames pc) (length (pc_pool pc))" by (rule cache_okD(5) [OF assms(1)])
  have "ran (pc_page_map pc) = {..<length (pc_pool pc)}" using fr free by (simp add: frames_ok_def)
  moreover have "card (ran (pc_page_map pc)) \<le> card (dom (pc_page_map pc))"
  proof -
    have "ran (pc_page_map pc) \<subseteq> (\<lambda>q. the (pc_page_map pc q)) ` dom (pc_page_map pc)" by (force simp: ran_def dom_def)
    then show ?thesis by (rule surj_card_le [rotated]) simp
  qed
  ultimately show False using assms(2) by simp
qed

lemma card_first_pages: "card {q :: u32. unat q < i} \<le> i"
proof -
  have "{q :: u32. unat q < i} \<subseteq> word_of_nat ` {..<i}" by (force simp: image_iff intro: exI [of _ "unat _"])
  then have "card {q :: u32. unat q < i} \<le> card {..<i}" by (rule surj_card_le [rotated]) simp
  then show ?thesis by simp
qed

section \<open>Generating pages\<close>

text \<open>After \<open>i\<close> rounds on an engine whose file had \<open>n\<close> pages with the contents \<open>old\<close>.\<close>

definition generated :: "'g random_source \<Rightarrow> u32 \<Rightarrow> nat \<Rightarrow> (u32 \<Rightarrow> bytes) \<Rightarrow> nat \<Rightarrow> nat \<Rightarrow> engine \<Rightarrow> bool" where
  "generated rnd seed n old frames i en \<longleftrightarrow> engine_ok [] en \<and> en_threads en = [] \<and>
     length (pc_pool (en_cache en)) = frames \<and> unat (get_total_pages en) = max i n \<and>
     (\<forall>q. unat q < i \<longrightarrow> engine_view en q = generated_page rnd seed q) \<and>
     (\<forall>q. i \<le> unat q \<and> unat q < n \<longrightarrow> engine_view en q = old q)"

text \<open>The first \<open>i\<close> pages are cached, and the file has nothing of them.\<close>

definition unwritten :: "string \<Rightarrow> nat \<Rightarrow> engine \<Rightarrow> bool" where
  "unwritten path i en \<longleftrightarrow> mf_path (pc_file (en_cache en)) = path \<and> disk_bytes (en_cache en) = replicate (4096 * i) 0 \<and>
     dom (pc_page_map (en_cache en)) = {q. unat q < i}"

lemma unwritten_frame:
  assumes "engine_ok [] en" and "en_threads en = []" and "unwritten path i en" and "i < length (pc_pool (en_cache en))"
  shows "pc_free_frames (en_cache en) \<noteq> []"
proof (rule unused_frame)
  show "cache_ok (en_cache en)" using assms(1,2) handles_okD(1) by (simp add: engine_ok_calm)
  show "card (dom (pc_page_map (en_cache en))) < length (pc_pool (en_cache en))"
    using card_first_pages [of i] assms(3,4) by (simp add: unwritten_def)
qed

lemma ensure_page_ok:
  assumes gen: "generated rnd seed n old frames i en" and i: "i + 1 < 2 ^ 20" and frames: "0 < frames"
  shows "\<exists>en'. ensure_page (\<lambda>_. (True, True)) (word_of_nat i) en = (Inr (), en') \<and>
    engine_ok [] en' \<and> en_threads en' = [] \<and> length (pc_pool (en_cache en')) = frames \<and>
    unat (get_total_pages en') = max (Suc i) n \<and> (\<forall>q < get_total_pages en. engine_view en' q = engine_view en q) \<and>
    (n = 0 \<longrightarrow> unwritten path i en \<longrightarrow> i < frames \<longrightarrow> unwritten path (Suc i) en')"
proof (cases "i < n")
  case True
  then have "\<not> get_total_pages en \<le> word_of_nat i"
    using gen i by (simp add: generated_def word_le_nat_alt max_def)
  then show ?thesis using True gen by (intro exI [of _ en]) (simp add: ensure_page_def generated_def max_def)
next
  case False
  have ok: "engine_ok [] en" and calm: "en_threads en = []" and len: "length (pc_pool (en_cache en)) = frames"
    and tot: "unat (get_total_pages en) = i"
    using gen False by (simp_all add: generated_def max_def)
  have pool: "pc_pool (en_cache en) \<noteq> []" using len frames by auto
  have small: "unat (get_total_pages en) + 1 < 2 ^ 20" using tot i by simp
  obtain h en1 where a: "allocate_page True True en = (Inr h, en1)" "engine_ok [h] en1" "en_threads en1 = []"
    "get_total_pages en1 = get_total_pages en + 1" "length (pc_pool (en_cache en1)) = length (pc_pool (en_cache en))"
    "\<forall>q < get_total_pages en. engine_view en1 q = engine_view en q"
    "mf_path (pc_file (en_cache en1)) = mf_path (pc_file (en_cache en))"
    "pc_free_frames (en_cache en) \<noteq> [] \<Longrightarrow>
      disk_bytes (en_cache en1) = resize (4096 * (unat (get_total_pages en) + 1)) (disk_bytes (en_cache en)) \<and>
      dom (pc_page_map (en_cache en1)) = insert (get_total_pages en) (dom (pc_page_map (en_cache en)))"
    by (rule calm_allocate [OF ok calm pool small]) (rule that; assumption)
  let ?en' = "engine_release h en1"
  note r = calm_release [OF a(2,3)]
  have le: "get_total_pages en \<le> word_of_nat i" using tot i by (simp add: word_le_nat_alt)
  then have "ensure_page (\<lambda>_. (True, True)) (word_of_nat i) en = (Inr (), ?en')" by (simp add: ensure_page_def a(1))
  moreover have "unat (get_total_pages ?en') = max (Suc i) n"
    using same_store_total [OF r(2)] a(4) tot i False by (simp add: unat_word_ariths max_def)
  moreover have "unwritten path (Suc i) ?en'" if u: "unwritten path i en" and "i < frames"
  proof -
    have "pc_free_frames (en_cache en) \<noteq> []" using unwritten_frame [OF ok calm u] that len by simp
    note d = a(8) [OF this]
    have "pc_file (en_cache ?en') = pc_file (en_cache en1)" using r(2) by (simp add: same_store_def)
    then have "disk_bytes (en_cache ?en') = disk_bytes (en_cache en1)" using r(4) by (simp add: disk_bytes_def)
    moreover have "disk_bytes (en_cache en) = replicate (4096 * i) 0" using u by (simp add: unwritten_def)
    ultimately have "disk_bytes (en_cache ?en') = replicate (4096 * Suc i) 0"
      using d tot by (simp add: resize_def replicate_add [symmetric])
    moreover have "dom (pc_page_map (en_cache ?en')) = {q. unat q < Suc i}"
      using d u tot r(5) by (auto simp: unwritten_def less_Suc_eq word_unat_eq_iff)
    moreover have "mf_path (pc_file (en_cache ?en')) = path"
      using u a(7) r(2) by (simp add: unwritten_def same_store_def)
    ultimately show ?thesis by (simp add: unwritten_def)
  qed
  ultimately show ?thesis
    using r a len by (intro exI [of _ ?en']) (simp add: same_store_def)
qed

text \<open>What a round does once the page is there.\<close>

lemma make_page_ok:
  assumes ok: "engine_ok [] en" and calm: "en_threads en = []" and pool: "pc_pool (en_cache en) \<noteq> []"
    and pid: "pid < get_total_pages en" and there: "ensure_page grow pid en0 = (Inr (), en)"
  obtains en' where "generate_page rnd seed grow pid en0 = (Inr (), en')" and "engine_ok [] en'" and "en_threads en' = []"
    and "get_total_pages en' = get_total_pages en" and "length (pc_pool (en_cache en')) = length (pc_pool (en_cache en))"
    and "\<And>q. engine_view en' q = (if q = pid then generated_page rnd seed pid else engine_view en q)"
    and "pc_file (en_cache en') = pc_file (en_cache en)"
    and "needs_no_victim pid (en_cache en) \<Longrightarrow> disk_bytes (en_cache en') = disk_bytes (en_cache en) \<and>
      dom (pc_page_map (en_cache en')) = insert pid (dom (pc_page_map (en_cache en)))"
proof -
  obtain h en2 where 2: "engine_fetch_page pid en = (Inr h, en2)" "engine_ok [h] en2" "ph_page_id h = pid"
    "same_store en en2" "en_threads en2 = []"
    "needs_no_victim pid (en_cache en) \<Longrightarrow> pc_os (en_cache en2) = pc_os (en_cache en) \<and>
      dom (pc_page_map (en_cache en2)) = insert pid (dom (pc_page_map (en_cache en)))"
    by (rule calm_fetch [OF ok calm pool pid]) (rule that; assumption)
  have h: "handles_ok (en_cache en2) [h]" "ph_cached h" using 2(2,5) by (simp_all add: engine_ok_calm)
  have "length (cache_view (en_cache en2) (ph_page_id h)) = 4096"
    using cached_page_length [OF handles_okD(1) [OF h(1)]] handles_okD(3) [OF h(1), of 0] h(2) by simp
  from fill_page_ok [OF h this, of pid rnd seed] obtain pc where
    pc: "bind_result (page_reset h (en_cache en2)) (\<lambda>pc1.
      bind_result (handle_write h 4 (put_u32 pid) pc1) (fill_page_payload rnd seed pid h)) = Inr pc"
    "page_written [] h (en_cache en2) (generated_page rnd seed pid) pc" by blast
  note w = engine_write [OF 2(2,5) pc(2)]
  let ?en3 = "en2\<lparr>en_cache := pc\<rparr>"
  have calm3: "en_threads ?en3 = []" using 2(5) by simp
  note r = calm_release [OF w(1) calm3]
  show thesis
  proof (rule that [of "engine_release h ?en3"])
    show "generate_page rnd seed grow pid en0 = (Inr (), engine_release h ?en3)"
      by (simp add: generate_page_def there 2(1) pc(1))
    show "get_total_pages (engine_release h ?en3) = get_total_pages en"
      using same_store_total [OF r(2)] w(3) same_store_total [OF 2(4)] by simp
    show "length (pc_pool (en_cache (engine_release h ?en3))) = length (pc_pool (en_cache en))"
      using r(2) 2(4) w(4) by (simp add: same_store_def)
    show "engine_view (engine_release h ?en3) q = (if q = pid then generated_page rnd seed pid else engine_view en q)" for q
      using r(2) w(2) [of q] 2(3,4) by (simp add: same_store_def)
    show file_same: "pc_file (en_cache (engine_release h ?en3)) = pc_file (en_cache en)"
      using r(2) w(7) 2(4) by (simp add: same_store_def)
    show "disk_bytes (en_cache (engine_release h ?en3)) = disk_bytes (en_cache en) \<and>
        dom (pc_page_map (en_cache (engine_release h ?en3))) = insert pid (dom (pc_page_map (en_cache en)))"
      if "needs_no_victim pid (en_cache en)"
      using 2(6) [OF that] r(4,5) w(5,6) file_same by (simp add: disk_bytes_def)
  qed (rule r)+
qed

lemma generate_page_ok:
  assumes gen: "generated rnd seed n old frames i en" and i: "i + 1 < 2 ^ 20" and frames: "0 < frames"
  shows "\<exists>en'. generate_page rnd seed (\<lambda>_. (True, True)) (word_of_nat i) en = (Inr (), en') \<and>
    generated rnd seed n old frames (Suc i) en' \<and> (n = 0 \<longrightarrow> unwritten path i en \<longrightarrow> i < frames \<longrightarrow> unwritten path (Suc i) en')"
proof -
  let ?pid = "word_of_nat i :: u32"
  have un: "unat ?pid = i" using i by simp
  obtain en1 where 1: "ensure_page (\<lambda>_. (True, True)) ?pid en = (Inr (), en1)" "engine_ok [] en1" "en_threads en1 = []"
    "length (pc_pool (en_cache en1)) = frames" "unat (get_total_pages en1) = max (Suc i) n"
    "\<forall>q < get_total_pages en. engine_view en1 q = engine_view en q"
    "n = 0 \<Longrightarrow> unwritten path i en \<Longrightarrow> i < frames \<Longrightarrow> unwritten path (Suc i) en1"
    using ensure_page_ok [OF gen i frames] by blast
  have pool: "pc_pool (en_cache en1) \<noteq> []" using 1(4) frames by auto
  have pid: "?pid < get_total_pages en1" using 1(5) un by (simp add: word_less_nat_alt)
  obtain en' where 2: "generate_page rnd seed (\<lambda>_. (True, True)) ?pid en = (Inr (), en')" "engine_ok [] en'"
    "en_threads en' = []" "get_total_pages en' = get_total_pages en1"
    "length (pc_pool (en_cache en')) = length (pc_pool (en_cache en1))"
    "\<And>q. engine_view en' q = (if q = ?pid then generated_page rnd seed ?pid else engine_view en1 q)"
    "pc_file (en_cache en') = pc_file (en_cache en1)"
    "needs_no_victim ?pid (en_cache en1) \<Longrightarrow> disk_bytes (en_cache en') = disk_bytes (en_cache en1) \<and>
      dom (pc_page_map (en_cache en')) = insert ?pid (dom (pc_page_map (en_cache en1)))"
    by (rule make_page_ok [OF 1(2,3) pool pid 1(1)]) (rule that; assumption)
  have old: "engine_view en1 q = engine_view en q" if "unat q < max i n" for q
    using 1(6) that gen by (simp add: word_less_nat_alt generated_def)
  have at_pid: "q = ?pid \<longleftrightarrow> unat q = i" for q using un by (auto simp: word_unat_eq_iff)
  have "generated rnd seed n old frames (Suc i) en'"
    using 2(2-5) 1(4,5) gen old at_pid by (auto simp: generated_def 2(6) less_Suc_eq)
  moreover have "unwritten path (Suc i) en'" if "n = 0" "unwritten path i en" "i < frames"
  proof -
    have u: "unwritten path (Suc i) en1" by (rule 1(7) [OF that])
    then have mem: "?pid \<in> dom (pc_page_map (en_cache en1))" using un by (simp add: unwritten_def)
    then have "needs_no_victim ?pid (en_cache en1)" by (auto simp: needs_no_victim_def)
    from 2(8) [OF this] show ?thesis using u mem 2(7) by (simp add: unwritten_def insert_absorb)
  qed
  ultimately show ?thesis using 2(1) by blast
qed

lemma generate_loop_ok:
  assumes "generated rnd seed n old frames i en" and "i + k < 2 ^ 20" and "0 < frames"
  shows "\<exists>en'. generate_loop rnd seed (\<lambda>_. (True, True)) [i..<i + k] en = (Inr (), en') \<and>
    generated rnd seed n old frames (i + k) en' \<and> (n = 0 \<longrightarrow> unwritten path i en \<longrightarrow> i + k \<le> frames \<longrightarrow> unwritten path (i + k) en')"
  using assms
proof (induction k arbitrary: i en)
  case 0
  then show ?case by simp
next
  case (Suc k)
  obtain en1 where 1: "generate_page rnd seed (\<lambda>_. (True, True)) (word_of_nat i) en = (Inr (), en1)"
    "generated rnd seed n old frames (Suc i) en1" "n = 0 \<longrightarrow> unwritten path i en \<longrightarrow> i < frames \<longrightarrow> unwritten path (Suc i) en1"
    using generate_page_ok [OF Suc.prems(1) _ Suc.prems(3)] Suc.prems(2) by auto
  have ks: "[i..<i + Suc k] = i # [Suc i..<Suc i + k]" and k: "i + Suc k = Suc i + k" by (simp_all add: upt_conv_Cons)
  have "Suc i + k < 2 ^ 20" using Suc.prems(2) by simp
  from Suc.IH [OF 1(2) this Suc.prems(3)] show ?case
    unfolding ks unfolding k using 1(1,3) by (auto simp del: upt_Suc)
qed

text \<open>Reading pages in turn.\<close>

lemma fetch_loop_ok:
  assumes "engine_ok [] en" and "en_threads en = []" and "pc_pool (en_cache en) \<noteq> []"
    and "\<forall>pid \<in> set pids. pid < get_total_pages en"
  shows "\<exists>en'. fetch_loop pids en = (Inr (map (\<lambda>pid. hdr_magic (get_header (engine_view en pid))) pids), en') \<and>
    engine_ok [] en' \<and> en_threads en' = [] \<and> same_store en en'"
  using assms
proof (induction pids arbitrary: en)
  case Nil
  then show ?case by simp
next
  case (Cons pid pids)
  have pid: "pid < get_total_pages en" using Cons.prems(4) by simp
  obtain h en1 where 1: "engine_fetch_page pid en = (Inr h, en1)" "engine_ok [h] en1" "ph_page_id h = pid"
    "same_store en en1" "en_threads en1 = []"
    by (rule calm_fetch [OF Cons.prems(1-3) pid]) (rule that; assumption)
  note r = calm_release [OF 1(2,5)]
  let ?en2 = "engine_release h en1"
  have same: "same_store en ?en2" by (rule same_store_trans [OF 1(4) r(2)])
  then have "pc_pool (en_cache ?en2) \<noteq> []" using Cons.prems(3) by (auto simp: same_store_def)
  then obtain en' where "fetch_loop pids ?en2 = (Inr (map (\<lambda>pid. hdr_magic (get_header (engine_view ?en2 pid))) pids), en')"
    "engine_ok [] en'" "en_threads en' = []" "same_store ?en2 en'"
    using Cons.IH [OF r(1,3)] Cons.prems(4) same_store_total [OF same] by auto
  moreover have "raw_data h en1 = Inr (engine_view en pid)"
    using raw_data_ok [OF 1(2)] 1(3,4) by (simp add: same_store_def)
  moreover have "engine_view ?en2 q = engine_view en q" for q using same by (simp add: same_store_def)
  ultimately show ?case using 1(1) same_store_trans [OF same] by auto
qed

section \<open>Runs of the program\<close>

definition good_process :: "process \<Rightarrow> bool" where
  "good_process pr \<longleftrightarrow> pr_fd pr \<noteq> -1 \<and> pr_stat pr \<and> pr_mmap pr \<and> pr_grow pr = (\<lambda>_. (True, True))"

lemma engine_opened:
  assumes pr: "good_process pr" and fl: "os_content sys path = f" "length f = 4096 * m" "m < 2 ^ 20" and frames: "0 < frames"
  obtains en sys1 where
    "engine_new path (pr_fd pr) (pr_stat pr) (pr_mmap pr) sys (pr_obs pr) frames None [] = (Inr en, sys1)"
    and "engine_ok [] en" and "en_threads en = []" and "length (pc_pool (en_cache en)) = frames"
    and "unat (get_total_pages en) = m" and "mf_path (pc_file (en_cache en)) = path"
    and "disk_bytes (en_cache en) = f" and "pc_page_map (en_cache en) = Map.empty"
    and "\<forall>q. engine_view en q = page_at f (unat q)"
proof -
  obtain mf sys1 where m: "mf_new path (pr_fd pr) True True sys = (Inr mf, sys1)" "mf_ok mf sys1" "mf_path mf = path"
    "os_files sys1 = (os_files sys)(path \<mapsto> f)" "unat (mf_page_count mf) = m"
    using mf_new_ok [OF _ fl, of "pr_fd pr"] pr by (auto simp: good_process_def)
  let ?en = "\<lparr>en_cache = cache_new mf sys1 (pr_obs pr) frames None None, en_hint = initial_workload_hint,
      en_threads = [], en_schedule = []\<rparr>"
  have "engine_new path (pr_fd pr) (pr_stat pr) (pr_mmap pr) sys (pr_obs pr) frames None [] = (Inr ?en, sys1)"
    using pr by (simp add: engine_new_def m(1) good_process_def)
  moreover have "disk_bytes (en_cache ?en) = f" by (simp add: disk_bytes_def cache_new_def os_content_def m(3,4))
  moreover have "engine_view ?en q = page_at f (unat q)" for q
    by (simp add: engine_view_def cache_ok_new(2) [OF m(2)] m(3,4) os_content_def)
  ultimately show thesis
    using that [of ?en sys1] m(3,5) engine_ok_new [OF m(2)]
    by (simp add: cache_new_def get_total_pages_def mf_get_page_count_def)
qed

lemma read_run:
  assumes pr: "good_process pr" and fl: "os_content sys ''data.db'' = f" "length f = 4096 * m" "m < 2 ^ 20"
    and pid: "stoi arg = Some pid" "unat pid < m"
  shows "\<exists>sys'. main_program rnd pr [app, ''read'', arg] sys =
    (Inr (0, [PageRead pid (hdr_magic (get_header (page_at f (unat pid))))
                (get_u32 (mread (page_get_payload (page_at f (unat pid))) 0 4))]), sys')"
proof -
  have frames: "(0 :: nat) < 1000" by simp
  obtain en sys1 where en: "engine_new ''data.db'' (pr_fd pr) (pr_stat pr) (pr_mmap pr) sys (pr_obs pr) 1000 None [] = (Inr en, sys1)"
    "engine_ok [] en" "en_threads en = []" "length (pc_pool (en_cache en)) = 1000"
    "unat (get_total_pages en) = m" "\<forall>q. engine_view en q = page_at f (unat q)"
    by (rule engine_opened [OF pr fl frames]) (rule that; assumption)
  have pool: "pc_pool (en_cache en) \<noteq> []" using en(4) by auto
  have lt: "pid < get_total_pages en" using pid(2) en(5) by (simp add: word_less_nat_alt)
  obtain h en1 where h: "engine_fetch_page pid en = (Inr h, en1)" "engine_ok [h] en1" "ph_page_id h = pid" "same_store en en1"
    by (rule calm_fetch [OF en(2,3) pool lt]) (rule that; assumption)
  have "raw_data h en1 = Inr (page_at f (unat pid))"
    using raw_data_ok [OF h(2)] h(3,4) en(6) by (simp add: same_store_def)
  then have "read_command pid en = (Inr (PageRead pid (hdr_magic (get_header (page_at f (unat pid))))
      (get_u32 (mread (page_get_payload (page_at f (unat pid))) 0 4))), engine_release h en1)"
    by (simp add: read_command_def h(1))
  then show ?thesis by (simp add: main_program_def en(1) run_command_def pid(1))
qed

section \<open>Properties\<close>

text \<open>
  C30: When the system calls succeed, \<open>generate_pages(count)\<close> makes each of the first \<open>count\<close> pages, growing the
  file where it must: a reset header with the page's id, and a payload whose words are the page's id at every
  fourth place and the draws of the generator seeded for the page at the others. The other pages stay.
\<close>

theorem generate_pages_makes_pages:
  assumes "engine_ok [] en" and "en_threads en = []" and "pc_pool (en_cache en) \<noteq> []" and "unat page_count < 2 ^ 20"
  shows "\<exists>en'. generate_pages rnd seed (\<lambda>_. (True, True)) page_count en = (Inr (), en') \<and>
    unat (get_total_pages en') = max (unat page_count) (unat (get_total_pages en)) \<and>
    (\<forall>q < page_count. get_header (engine_view en' q) = (get_header raw_page_reset)\<lparr>hdr_page_id := q\<rparr> \<and>
       page_get_payload (engine_view en' q) =
         concat (map put_u32 (page_words rnd q [0..<1008] (mt19937 rnd (seed + q))))) \<and>
    (\<forall>q. page_count \<le> q \<and> q < get_total_pages en \<longrightarrow> engine_view en' q = engine_view en q)"
proof -
  let ?n = "unat (get_total_pages en)" and ?frames = "length (pc_pool (en_cache en))"
  have "generated rnd seed ?n (engine_view en) ?frames 0 en" using assms(1,2) by (simp add: generated_def)
  from generate_loop_ok [OF this, of "unat page_count"] assms(3,4)
  obtain en' where g: "generate_loop rnd seed (\<lambda>_. (True, True)) [0..<unat page_count] en = (Inr (), en')"
    "generated rnd seed ?n (engine_view en) ?frames (unat page_count) en'" by auto
  then show ?thesis
    by (intro exI [of _ en'])
      (simp add: generate_pages_def generated_def generated_page_parts words_bytes_def word_less_nat_alt word_le_nat_alt)
qed

definition counting_source :: "u32 random_source" where
  "counting_source = \<lparr>mt19937 = (\<lambda>seed. seed), uniform = (\<lambda>low high n. (low + n mod (high - low + 1), n + 1))\<rparr>"

theorem generate_pages_makes_pages_witness:
  "\<exists>en'. generate_pages counting_source 42 (\<lambda>_. (True, True)) 5 (small_engine 2 []) = (Inr (), en') \<and>
    unat (get_total_pages en') = 5 \<and> hdr_page_id (get_header (engine_view en' 4)) = 4"
proof -
  let ?en = "small_engine 2 []"
  have total: "get_total_pages ?en = 3"
    by (simp add: small_engine_def get_total_pages_def mf_get_page_count_def cache_new_def three_pages_def)
  have "\<exists>en'. generate_pages counting_source 42 (\<lambda>_. (True, True)) 5 ?en = (Inr (), en') \<and>
    unat (get_total_pages en') = max (unat (5 :: u32)) (unat (get_total_pages ?en)) \<and>
    (\<forall>q < 5. get_header (engine_view en' q) = (get_header raw_page_reset)\<lparr>hdr_page_id := q\<rparr> \<and>
       page_get_payload (engine_view en' q) =
         concat (map put_u32 (page_words counting_source q [0..<1008] (mt19937 counting_source (42 + q))))) \<and>
    (\<forall>q. 5 \<le> q \<and> q < get_total_pages ?en \<longrightarrow> engine_view en' q = engine_view ?en q)"
    by (rule generate_pages_makes_pages [OF small_engine_ok]) (simp_all add: small_engine_def cache_new_def)
  then obtain en' where "generate_pages counting_source 42 (\<lambda>_. (True, True)) 5 ?en = (Inr (), en')"
    "unat (get_total_pages en') = 5"
    "\<forall>q < 5. get_header (engine_view en' q) = (get_header raw_page_reset)\<lparr>hdr_page_id := q\<rparr>"
    unfolding total by auto
  moreover have "(4 :: u32) < 5" by simp
  ultimately show ?thesis by (intro exI [of _ en']) (simp del: raw_page_reset_header)
qed

text \<open>
  C31: The program never flushes, and the destructors of the engine, the cache and the file do not either: after
  \<open>generate\<close> of up to 1000 pages, the capacity of the pool, into a new file, which exits with 0, the file
  consists of zeros, and \<open>read\<close> of any of the pages shows a magic number and a first word of 0.
\<close>

theorem generated_pages_are_lost:
  assumes "good_process pr" and "os_content sys ''data.db'' = []" and "stoi arg = Some page_count"
    and "unat page_count \<le> 1000" and "good_process pr'" and "stoi arg' = Some pid" and "pid < page_count"
  shows "\<exists>sys' sys''. main_program rnd pr [app, ''generate'', arg] sys = (Inr (0, [Generated page_count]), sys') \<and>
    os_content sys' ''data.db'' = replicate (4096 * unat page_count) 0 \<and>
    main_program rnd pr' [app, ''read'', arg'] sys' = (Inr (0, [PageRead pid 0 0]), sys'')"
proof -
  have frames: "(0 :: nat) < 1000" and empty: "length ([] :: bytes) = 4096 * 0" "(0 :: nat) < 2 ^ 20" by simp_all
  obtain en sys1 where en: "engine_new ''data.db'' (pr_fd pr) (pr_stat pr) (pr_mmap pr) sys (pr_obs pr) 1000 None [] = (Inr en, sys1)"
    "engine_ok [] en" "en_threads en = []" "length (pc_pool (en_cache en)) = 1000"
    "unat (get_total_pages en) = 0" "mf_path (pc_file (en_cache en)) = ''data.db''" "disk_bytes (en_cache en) = []"
    "pc_page_map (en_cache en) = Map.empty"
    by (rule engine_opened [OF assms(1,2) empty frames]) (rule that; assumption)
  have grow: "pr_grow pr = (\<lambda>_. (True, True))" using assms(1) by (simp add: good_process_def)
  have "generated rnd 42 0 (engine_view en) 1000 0 en" "unwritten ''data.db'' 0 en"
    using en by (simp_all add: generated_def unwritten_def)
  with generate_loop_ok [of rnd 42 0 "engine_view en" 1000 0 en "unat page_count" "''data.db''"] assms(4)
  obtain en' where g: "generate_loop rnd 42 (\<lambda>_. (True, True)) [0..<unat page_count] en = (Inr (), en')"
    "unwritten ''data.db'' (unat page_count) en'" by auto
  let ?sys' = "mf_destroy (pc_file (en_cache en')) (pc_os (en_cache en'))"
  have "main_program rnd pr [app, ''generate'', arg] sys = (Inr (0, [Generated page_count]), ?sys')"
    using g(1) grow by (simp add: main_program_def en(1) run_command_def generate_command_def assms(3) generate_pages_def)
  moreover have content: "os_content ?sys' ''data.db'' = replicate (4096 * unat page_count) 0"
    using g(2) by (auto simp: unwritten_def disk_bytes_def)
  moreover have "unat pid < unat page_count" using assms(7) by (simp add: word_less_nat_alt)
  moreover from this have "page_at (replicate (4096 * unat page_count) 0) (unat pid) = replicate 4096 0"
    by (simp add: page_at_def mread_replicate)
  moreover have "unat page_count < 2 ^ 20" using assms(4) by simp
  ultimately show ?thesis
    using read_run [OF assms(5) content _ _ assms(6), of "unat page_count" rnd app]
    by (auto simp: get_header_def page_get_payload_def mread_replicate)
qed

definition new_process :: process where
  "new_process = \<lparr>pr_fd = 3, pr_stat = True, pr_mmap = True, pr_grow = (\<lambda>_. (True, True)), pr_obs = (\<lambda>_. observer_new 4)\<rparr>"

theorem generated_pages_are_lost_witness:
  "\<exists>sys' sys''. main_program counting_source new_process [''app'', ''generate'', ''12''] \<lparr>os_files = Map.empty, os_fds = Map.empty\<rparr> =
      (Inr (0, [Generated 12]), sys') \<and>
    os_content sys' ''data.db'' = replicate (4096 * unat (12 :: u32)) 0 \<and>
    main_program counting_source new_process [''app'', ''read'', ''7''] sys' = (Inr (0, [PageRead 7 0 0]), sys'')"
proof (rule generated_pages_are_lost)
  show "stoi ''12'' = Some 12" "stoi ''7'' = Some 7"
    by (simp_all add: stoi_def scan_number_def number_of_digits_def is_space_def is_digit_def digit_value_def less_eq_char_def Let_def)
qed (simp_all add: new_process_def good_process_def os_content_def)

text \<open>
  A sequential scan of the first \<open>count\<close> pages reads the magic number of each in turn and changes no page,
  however small the pool is.
\<close>

theorem sequential_scan_reads_pages:
  assumes "engine_ok [] en" and "en_threads en = []" and "pc_pool (en_cache en) \<noteq> []"
    and "page_count \<le> get_total_pages en"
  shows "\<exists>en'. run_sequential_scan page_count en =
      (Inr (map (\<lambda>i. hdr_magic (get_header (engine_view en (word_of_nat i)))) [0..<unat page_count]), en') \<and>
    engine_ok [] en' \<and> same_store en en'"
proof -
  have "\<forall>pid \<in> set (map word_of_nat [0..<unat page_count]). pid < get_total_pages en"
  proof
    fix pid :: u32 assume "pid \<in> set (map word_of_nat [0..<unat page_count])"
    then obtain i where i: "pid = word_of_nat i" "i < unat page_count" by auto
    then have "unat pid = i" using unat_u32_lt [of page_count] by simp
    then show "pid < get_total_pages en" using i(2) assms(4) by (simp add: word_less_nat_alt word_le_nat_alt)
  qed
  from fetch_loop_ok [OF assms(1-3) this] show ?thesis by (auto simp: run_sequential_scan_def comp_def)
qed

theorem sequential_scan_reads_pages_witness:
  "\<exists>en'. run_sequential_scan 3 (small_engine 1 []) = (Inr [0, 0, 0], en') \<and> engine_ok [] en'"
proof -
  let ?en = "small_engine 1 []"
  have "\<exists>en'. run_sequential_scan 3 ?en =
      (Inr (map (\<lambda>i. hdr_magic (get_header (engine_view ?en (word_of_nat i)))) [0..<unat (3 :: u32)]), en') \<and>
    engine_ok [] en' \<and> same_store ?en en'"
    by (rule sequential_scan_reads_pages [OF small_engine_ok])
      (simp_all add: small_engine_def cache_new_def get_total_pages_def mf_get_page_count_def three_pages_def)
  moreover have magic: "hdr_magic (get_header (engine_view ?en (word_of_nat i))) = 0" if "i < 3" for i
  proof -
    have "engine_view ?en (word_of_nat i) = page_at (replicate 12288 0) i"
      using that
      by (simp add: engine_view_def small_engine_def cache_ok_new(2) [OF three_pages_ok])
        (simp add: three_pages_def three_pages_os_def os_content_def)
    moreover have "page_at (replicate 12288 0) i = replicate 4096 0" using that by (simp add: page_at_def mread_replicate)
    ultimately show ?thesis by (simp add: get_header_def mread_replicate)
  qed
  moreover have "map (\<lambda>i. hdr_magic (get_header (engine_view ?en (word_of_nat i)))) [0..<unat (3 :: u32)] = [0, 0, 0]"
  proof -
    have "map (\<lambda>i. hdr_magic (get_header (engine_view ?en (word_of_nat i)))) [0..<3] = map (\<lambda>_. 0) [0..<3]"
      by (rule map_cong) (use magic in simp_all)
    moreover have "map (\<lambda>_ :: nat. 0 :: u32) [0..<3] = [0, 0, 0]" by (simp add: map_replicate_const numeral_3_eq_3)
    moreover have "unat (3 :: u32) = 3" by simp
    ultimately show ?thesis by metis
  qed
  ultimately show ?thesis by auto
qed

end
