(* ===== verification/BPlus_Pages.thy ===== *)
theory BPlus_Pages
  imports Prelude "HOL-Library.Signed_Division"
begin

text \<open>
  \<open>src/src/storage/page/b_plus_tree_{page,leaf_page,internal_page}.{h,cpp}\<close>: the pages of a B+ tree, which no
  other component uses yet. The class templates are modelled over any comparator; the program instantiates
  them with \<open>int\<close> keys and values and \<open>std::less<int>\<close>.
\<close>

section \<open>The base class\<close>

type_synonym i32 = "32 word"

datatype index_page_type = INVALID_PAGE | LEAF_PAGE | INTERNAL_PAGE

record bplus_page =
  page_type :: index_page_type
  bp_lsn :: i32
  bp_size :: i32
  bp_max_size :: i32
  parent_page_id :: i32
  bp_page_id :: i32

definition is_leaf_page :: "'a bplus_page_scheme \<Rightarrow> bool" where
  "is_leaf_page p \<longleftrightarrow> page_type p = LEAF_PAGE"

definition is_root_page :: "'a bplus_page_scheme \<Rightarrow> bool" where
  "is_root_page p \<longleftrightarrow> parent_page_id p = -1"

definition bp_set_page_type :: "index_page_type \<Rightarrow> 'a bplus_page_scheme \<Rightarrow> 'a bplus_page_scheme" where
  "bp_set_page_type t p = p\<lparr>page_type := t\<rparr>"

definition get_size :: "'a bplus_page_scheme \<Rightarrow> i32" where
  "get_size p = bp_size p"

definition bp_set_size :: "i32 \<Rightarrow> 'a bplus_page_scheme \<Rightarrow> 'a bplus_page_scheme" where
  "bp_set_size n p = p\<lparr>bp_size := n\<rparr>"

text \<open>\<open>size_ += amount\<close>; the overflow of an \<open>int\<close> is undefined.\<close>

definition increase_size :: "i32 \<Rightarrow> 'a bplus_page_scheme \<Rightarrow> 'a bplus_page_scheme result" where
  "increase_size amount p =
     (if - (2 ^ 31) \<le> sint (bp_size p) + sint amount \<and> sint (bp_size p) + sint amount < 2 ^ 31
      then Inr (p\<lparr>bp_size := bp_size p + amount\<rparr>) else Inl Undefined)"

definition get_max_size :: "'a bplus_page_scheme \<Rightarrow> i32" where
  "get_max_size p = bp_max_size p"

definition bp_set_max_size :: "i32 \<Rightarrow> 'a bplus_page_scheme \<Rightarrow> 'a bplus_page_scheme" where
  "bp_set_max_size n p = p\<lparr>bp_max_size := n\<rparr>"

definition get_min_size :: "'a bplus_page_scheme \<Rightarrow> i32" where
  "get_min_size p =
     (if is_root_page p then (if is_leaf_page p then 1 else 2)
      else word_of_int (sint (bp_max_size p) sdiv 2))"

definition bp_set_parent_page_id :: "i32 \<Rightarrow> 'a bplus_page_scheme \<Rightarrow> 'a bplus_page_scheme" where
  "bp_set_parent_page_id pid p = p\<lparr>parent_page_id := pid\<rparr>"

definition bp_set_lsn :: "i32 \<Rightarrow> 'a bplus_page_scheme \<Rightarrow> 'a bplus_page_scheme" where
  "bp_set_lsn lsn p = p\<lparr>bp_lsn := lsn\<rparr>"

definition bp_set_page_id :: "i32 \<Rightarrow> 'a bplus_page_scheme \<Rightarrow> 'a bplus_page_scheme" where
  "bp_set_page_id pid p = p\<lparr>bp_page_id := pid\<rparr>"

definition get_parent_page_id :: "'a bplus_page_scheme \<Rightarrow> i32" where
  "get_parent_page_id p = parent_page_id p"

definition get_lsn :: "'a bplus_page_scheme \<Rightarrow> i32" where
  "get_lsn p = bp_lsn p"

definition get_page_id :: "'a bplus_page_scheme \<Rightarrow> i32" where
  "get_page_id p = bp_page_id p"

lemmas bp_set_defs = bp_set_page_type_def bp_set_size_def bp_set_max_size_def bp_set_parent_page_id_def
  bp_set_lsn_def bp_set_page_id_def

section \<open>Arrays and binary search\<close>

text \<open>
  \<open>array_\<close> is as long as the memory behind the page allows; an access outside it is undefined.
\<close>

definition array_at :: "'a list \<Rightarrow> int \<Rightarrow> 'a result" where
  "array_at a i = (if 0 \<le> i \<and> i < int (length a) then Inr (a ! nat i) else Inl Undefined)"

definition array_set :: "int \<Rightarrow> 'a \<Rightarrow> 'a list \<Rightarrow> 'a list result" where
  "array_set i x a = (if 0 \<le> i \<and> i < int (length a) then Inr (a[nat i := x]) else Inl Undefined)"

text \<open>
  The loop of \<open>std::lower_bound\<close> and \<open>std::upper_bound\<close> over \<open>len\<close> elements from \<open>first\<close>: \<open>right i\<close> says whether
  the search goes on behind element \<open>i\<close>.
\<close>

function bisect :: "(nat \<Rightarrow> bool result) \<Rightarrow> nat \<Rightarrow> nat \<Rightarrow> nat result" where
  "bisect right first len =
     (if len = 0 then Inr first
      else let half = len div 2; mid = first + half
           in case right mid of
                Inl e \<Rightarrow> Inl e
              | Inr True \<Rightarrow> bisect right (mid + 1) (len - half - 1)
              | Inr False \<Rightarrow> bisect right first half)"
  by pat_completeness auto
termination by (relation "measure (\<lambda>(right, first, len). len)") auto

declare bisect.simps [simp del]

section \<open>Leaf pages\<close>

record ('k, 'v) leaf_page = bplus_page +
  leaf_next_page_id :: i32
  leaf_array :: "('k \<times> 'v) list"

text \<open>The capacity that \<open>Init\<close> computes from the size of a pair when it is given none.\<close>

definition capacity_of :: "nat \<Rightarrow> nat \<Rightarrow> i32" where
  "capacity_of header pair_size = word_of_nat ((4096 - header) div pair_size)"

definition get_leaf_next_page_id :: "('k, 'v) leaf_page \<Rightarrow> i32" where
  "get_leaf_next_page_id p = leaf_next_page_id p"

definition set_leaf_next_page_id :: "i32 \<Rightarrow> ('k, 'v) leaf_page \<Rightarrow> ('k, 'v) leaf_page" where
  "set_leaf_next_page_id pid p = p\<lparr>leaf_next_page_id := pid\<rparr>"

text \<open>\<open>Init\<close> leaves \<open>lsn_\<close> and the array as they are.\<close>

definition leaf_init :: "nat \<Rightarrow> i32 \<Rightarrow> i32 \<Rightarrow> i32 \<Rightarrow> ('k, 'v) leaf_page \<Rightarrow> ('k, 'v) leaf_page" where
  "leaf_init pair_size pid parent_id max_size p =
     (let p1 = set_leaf_next_page_id (-1) (bp_set_parent_page_id parent_id (bp_set_page_id pid
                 (bp_set_size 0 (bp_set_page_type LEAF_PAGE p))))
      in if max_size = 0 then bp_set_max_size (capacity_of 28 pair_size) p1 else bp_set_max_size max_size p1)"

definition leaf_key_at :: "i32 \<Rightarrow> ('k, 'v) leaf_page \<Rightarrow> 'k result" where
  "leaf_key_at i p = bind_result (array_at (leaf_array p) (sint i)) (\<lambda>e. Inr (fst e))"

definition leaf_value_at :: "i32 \<Rightarrow> ('k, 'v) leaf_page \<Rightarrow> 'v result" where
  "leaf_value_at i p = bind_result (array_at (leaf_array p) (sint i)) (\<lambda>e. Inr (snd e))"

definition leaf_get_item :: "i32 \<Rightarrow> ('k, 'v) leaf_page \<Rightarrow> ('k \<times> 'v) result" where
  "leaf_get_item i p = array_at (leaf_array p) (sint i)"

text \<open>\<open>lower_bound\<close> over the entries; a negative size gives no range.\<close>

definition key_index :: "('k \<Rightarrow> 'k \<Rightarrow> bool) \<Rightarrow> 'k \<Rightarrow> ('k, 'v) leaf_page \<Rightarrow> i32 result" where
  "key_index comparator key p =
     (if sint (get_size p) < 0 then Inl Undefined
      else bind_result
        (bisect (\<lambda>i. bind_result (array_at (leaf_array p) (int i)) (\<lambda>e. Inr (comparator (fst e) key)))
           0 (nat (sint (get_size p))))
        (\<lambda>i. Inr (word_of_nat i)))"

text \<open>\<open>array_[i] = array_[i - 1]\<close> for the indices of a list in turn.\<close>

primrec shift_entries :: "nat list \<Rightarrow> 'a list \<Rightarrow> 'a list result" where
  "shift_entries [] a = Inr a"
| "shift_entries (i # is) a =
     bind_result (array_at a (int i - 1)) (\<lambda>x.
     bind_result (array_set (int i) x a) (\<lambda>a'. shift_entries is a'))"

definition leaf_insert ::
  "('k \<Rightarrow> 'k \<Rightarrow> bool) \<Rightarrow> 'k \<Rightarrow> 'v \<Rightarrow> ('k, 'v) leaf_page \<Rightarrow> (i32 \<times> ('k, 'v) leaf_page) result" where
  "leaf_insert comparator key val p =
     (let current_size = get_size p
      in if sint current_size \<ge> sint (get_max_size p) then Inr (-1, p)
         else bind_result (key_index comparator key p) (\<lambda>index.
              bind_result (if sint index < sint current_size
                           then bind_result (leaf_key_at index p) (\<lambda>existing_key.
                             Inr (\<not> comparator existing_key key \<and> \<not> comparator key existing_key))
                           else Inr False) (\<lambda>exists_already.
                if exists_already then Inr (-1, p)
                else
                  bind_result (shift_entries (rev [Suc (nat (sint index))..<Suc (nat (sint current_size))]) (leaf_array p)) (\<lambda>a.
                  bind_result (array_set (sint index) (key, val) a) (\<lambda>a'.
                  bind_result (increase_size 1 (p\<lparr>leaf_array := a'\<rparr>)) (\<lambda>p'.
                    Inr (current_size + 1, p')))))))"

section \<open>Internal pages\<close>

record ('k, 'v) internal_page = bplus_page +
  internal_array :: "('k \<times> 'v) list"

definition internal_init :: "nat \<Rightarrow> i32 \<Rightarrow> i32 \<Rightarrow> i32 \<Rightarrow> ('k, 'v) internal_page \<Rightarrow> ('k, 'v) internal_page" where
  "internal_init pair_size pid parent_id max_size p =
     (let p1 = bp_set_parent_page_id parent_id (bp_set_page_id pid (bp_set_size 0 (bp_set_page_type INTERNAL_PAGE p)))
      in if max_size = 0 then bp_set_max_size (capacity_of 24 pair_size) p1 else bp_set_max_size max_size p1)"

definition internal_key_at :: "i32 \<Rightarrow> ('k, 'v) internal_page \<Rightarrow> 'k result" where
  "internal_key_at i p = bind_result (array_at (internal_array p) (sint i)) (\<lambda>e. Inr (fst e))"

definition set_key_at :: "i32 \<Rightarrow> 'k \<Rightarrow> ('k, 'v) internal_page \<Rightarrow> ('k, 'v) internal_page result" where
  "set_key_at i key p =
     bind_result (array_at (internal_array p) (sint i)) (\<lambda>e.
     bind_result (array_set (sint i) (key, snd e) (internal_array p)) (\<lambda>a. Inr (p\<lparr>internal_array := a\<rparr>)))"

definition internal_value_at :: "i32 \<Rightarrow> ('k, 'v) internal_page \<Rightarrow> 'v result" where
  "internal_value_at i p = bind_result (array_at (internal_array p) (sint i)) (\<lambda>e. Inr (snd e))"

definition set_value_at :: "i32 \<Rightarrow> 'v \<Rightarrow> ('k, 'v) internal_page \<Rightarrow> ('k, 'v) internal_page result" where
  "set_value_at i val p =
     bind_result (array_at (internal_array p) (sint i)) (\<lambda>e.
     bind_result (array_set (sint i) (fst e, val) (internal_array p)) (\<lambda>a. Inr (p\<lparr>internal_array := a\<rparr>)))"

definition internal_get_item :: "i32 \<Rightarrow> ('k, 'v) internal_page \<Rightarrow> ('k \<times> 'v) result" where
  "internal_get_item i p = array_at (internal_array p) (sint i)"

primrec value_index_loop :: "'v \<Rightarrow> ('k \<times> 'v) list \<Rightarrow> nat list \<Rightarrow> i32 result" where
  "value_index_loop val a [] = Inr (-1)"
| "value_index_loop val a (i # is) =
     bind_result (array_at a (int i)) (\<lambda>e. if snd e = val then Inr (word_of_nat i) else value_index_loop val a is)"

definition value_index :: "'v \<Rightarrow> ('k, 'v) internal_page \<Rightarrow> i32 result" where
  "value_index val p = value_index_loop val (internal_array p) [0..<nat (sint (get_size p))]"

text \<open>
  \<open>Lookup\<close>: \<open>upper_bound\<close> over the entries from the second on, whose range is empty for a size of 1;
  \<open>default_value\<close> is \<open>ValueType{}\<close>.
\<close>

definition internal_lookup ::
  "('k \<Rightarrow> 'k \<Rightarrow> bool) \<Rightarrow> 'v \<Rightarrow> 'k \<Rightarrow> ('k, 'v) internal_page \<Rightarrow> 'v result" where
  "internal_lookup comparator default_value key p =
     (if get_size p = 0 then Inr default_value
      else if sint (get_size p) < 0 then Inl Undefined
      else bind_result
        (bisect (\<lambda>i. bind_result (array_at (internal_array p) (int i)) (\<lambda>e. Inr (\<not> comparator key (fst e))))
           1 (nat (sint (get_size p)) - 1))
        (\<lambda>index. bind_result (array_at (internal_array p) (int index - 1)) (\<lambda>e. Inr (snd e))))"

section \<open>Binary search is linear search\<close>

lemma sint_of_nat_i32: "n < 2 ^ 31 \<Longrightarrow> sint (word_of_nat n :: i32) = int n"
  by (simp add: signed_of_nat signed_take_bit_int_eq_self)

lemma sint_i32_bounds: "- (2 ^ 31) \<le> sint (w :: i32)" "sint (w :: i32) < 2 ^ 31"
  using sint_greater_eq [of w] sint_less [of w] by simp_all

lemma sint_inject:
  assumes "sint (b :: i32) = sint a"
  shows "a = b"
proof -
  have "word_of_int (sint a) = a" "word_of_int (sint b) = b" by simp_all
  with assms show ?thesis by metis
qed

lemma sint_succ: "sint (n :: i32) < sint (m :: i32) \<Longrightarrow> sint (n + 1) = sint n + 1"
proof -
  assume "sint n < sint m"
  then have "- (2 ^ 31) \<le> sint n + 1" "sint n + 1 < 2 ^ 31"
    using sint_i32_bounds(1) [of n] sint_i32_bounds(2) [of m] by simp_all
  then show ?thesis
    by (simp add: sint_word_ariths signed_take_bit_int_eq_self)
qed

lemma array_at_ok [simp]: "i < length a \<Longrightarrow> array_at a (int i) = Inr (a ! i)"
  by (simp add: array_at_def)

lemma array_set_ok [simp]: "i < length a \<Longrightarrow> array_set (int i) x a = Inr (a[i := x])"
  by (simp add: array_set_def)

lemma bisect_partition:
  assumes "\<forall>i. first \<le> i \<and> i < first + len \<longrightarrow> right i = Inr (q i)"
    and "\<forall>i j. first \<le> i \<and> i \<le> j \<and> j < first + len \<longrightarrow> q j \<longrightarrow> q i"
  shows "\<exists>m. bisect right first len = Inr m \<and> first \<le> m \<and> m \<le> first + len \<and>
    (\<forall>i. first \<le> i \<and> i < m \<longrightarrow> q i) \<and> (\<forall>i. m \<le> i \<and> i < first + len \<longrightarrow> \<not> q i)"
  using assms
proof (induction len arbitrary: first rule: less_induct)
  case (less len)
  show ?case
  proof (cases "len = 0")
    case True
    then show ?thesis by (intro exI [of _ first]) (auto simp: bisect.simps [of right first 0])
  next
    case False
    let ?half = "len div 2" and ?mid = "first + len div 2"
    have mid: "?half < len" "right ?mid = Inr (q ?mid)" using False less.prems(1) by simp_all
    show ?thesis
    proof (cases "q ?mid")
      case True
      have lt: "len - ?half - 1 < len" and le: "?mid + 1 + (len - ?half - 1) = first + len" using False by simp_all
      have "\<exists>m. bisect right (?mid + 1) (len - ?half - 1) = Inr m \<and> ?mid + 1 \<le> m \<and> m \<le> first + len \<and>
          (\<forall>i. ?mid + 1 \<le> i \<and> i < m \<longrightarrow> q i) \<and> (\<forall>i. m \<le> i \<and> i < first + len \<longrightarrow> \<not> q i)"
      proof (rule less.IH [OF lt, of "?mid + 1", unfolded le])
        show "\<forall>i. ?mid + 1 \<le> i \<and> i < first + len \<longrightarrow> right i = Inr (q i)" using less.prems(1) by simp
        show "\<forall>i j. ?mid + 1 \<le> i \<and> i \<le> j \<and> j < first + len \<longrightarrow> q j \<longrightarrow> q i"
          using less.prems(2) by (meson add_leD1 le_trans)
      qed
      then obtain m where m: "bisect right (?mid + 1) (len - ?half - 1) = Inr m" "?mid + 1 \<le> m" "m \<le> first + len"
        "\<forall>i. ?mid + 1 \<le> i \<and> i < m \<longrightarrow> q i" "\<forall>i. m \<le> i \<and> i < first + len \<longrightarrow> \<not> q i" by blast
      have "q i" if "first \<le> i" "i < m" for i
      proof (cases "?mid + 1 \<le> i")
        case False
        then have "first \<le> i \<and> i \<le> ?mid \<and> ?mid < first + len" using that(1) mid(1) by simp
        then show ?thesis using less.prems(2) True by blast
      qed (use that m(4) in blast)
      moreover have "bisect right first len = Inr m"
        using False True mid(2) m(1) by (subst bisect.simps) (simp add: Let_def)
      ultimately show ?thesis using m(2,3,5) by (intro exI [of _ m]) simp
    next
      case no: False
      have "\<exists>m. bisect right first ?half = Inr m \<and> first \<le> m \<and> m \<le> ?mid \<and>
          (\<forall>i. first \<le> i \<and> i < m \<longrightarrow> q i) \<and> (\<forall>i. m \<le> i \<and> i < ?mid \<longrightarrow> \<not> q i)"
      proof (rule less.IH [OF mid(1)])
        show "\<forall>i. first \<le> i \<and> i < ?mid \<longrightarrow> right i = Inr (q i)" using less.prems(1) mid(1) by simp
        show "\<forall>i j. first \<le> i \<and> i \<le> j \<and> j < ?mid \<longrightarrow> q j \<longrightarrow> q i"
          using less.prems(2) mid(1) by (meson add_less_cancel_left less_trans)
      qed
      then obtain m where m: "bisect right first ?half = Inr m" "first \<le> m" "m \<le> ?mid"
        "\<forall>i. first \<le> i \<and> i < m \<longrightarrow> q i" "\<forall>i. m \<le> i \<and> i < ?mid \<longrightarrow> \<not> q i" by blast
      have "\<not> q i" if "m \<le> i" "i < first + len" for i
      proof (cases "i < ?mid")
        case False
        then have "first \<le> ?mid \<and> ?mid \<le> i \<and> i < first + len" using that(2) by simp
        then show ?thesis using less.prems(2) no by blast
      qed (use that m(5) in blast)
      moreover have "bisect right first len = Inr m"
        using False no mid(2) m(1) by (subst bisect.simps) (simp add: Let_def)
      ultimately show ?thesis using m(2-4) mid(1) by (intro exI [of _ m]) simp
    qed
  qed
qed

lemma shift_entries_ok:
  "i \<le> n \<Longrightarrow> n < length a \<Longrightarrow>
   shift_entries (rev [Suc i..<Suc n]) a = Inr (take (Suc i) a @ take (n - i) (drop i a) @ drop (Suc n) a)"
proof (induction n arbitrary: a)
  case 0
  then show ?case by (cases a) simp_all
next
  case (Suc n)
  show ?case
  proof (cases "i = Suc n")
    case True
    then show ?thesis using Suc.prems(2) by (simp add: id_take_nth_drop [symmetric])
  next
    case False
    then have i: "i \<le> n" using Suc.prems(1) by simp
    let ?a = "a[Suc n := a ! n]"
    have "array_at a (int (Suc n) - 1) = Inr (a ! n)" using Suc.prems(2) by (simp add: array_at_def)
    moreover have "array_set (int (Suc n)) (a ! n) a = Inr ?a" by (rule array_set_ok [OF Suc.prems(2)])
    moreover have "rev [Suc i..<Suc (Suc n)] = Suc n # rev [Suc i..<Suc n]" using i by simp
    ultimately have "shift_entries (rev [Suc i..<Suc (Suc n)]) a = shift_entries (rev [Suc i..<Suc n]) ?a"
      by (simp only: shift_entries.simps bind_result_simps)
    also have "\<dots> = Inr (take (Suc i) ?a @ take (n - i) (drop i ?a) @ drop (Suc n) ?a)"
      using Suc.IH [OF i, of ?a] Suc.prems(2) by simp
    also have "take (Suc i) ?a = take (Suc i) a" using i by simp
    also have "take (n - i) (drop i ?a) = take (n - i) (drop i a)" using i by (simp add: drop_update_swap)
    also have "drop (Suc n) ?a = a ! n # drop (Suc (Suc n)) a"
      using Suc.prems(2) by (simp add: drop_update_swap Cons_nth_drop_Suc [symmetric])
    finally show ?thesis
      using i Suc.prems(2) by (simp add: Suc_diff_le take_Suc_conv_app_nth)
  qed
qed

section \<open>The comparator\<close>

text \<open>What the pages rely on: a strict total order.\<close>

locale key_comparator =
  fixes lt :: "'k \<Rightarrow> 'k \<Rightarrow> bool"
  assumes irrefl: "\<not> lt x x"
    and trans: "lt x y \<Longrightarrow> lt y z \<Longrightarrow> lt x z"
    and total_order: "\<not> lt x y \<Longrightarrow> \<not> lt y x \<Longrightarrow> x = y"

definition leaf_entries :: "('k, 'v) leaf_page \<Rightarrow> ('k \<times> 'v) list" where
  "leaf_entries p = take (nat (sint (bp_size p))) (leaf_array p)"

text \<open>A leaf page: its entries are in strict order of their keys, and its memory has room for the maximum.\<close>

definition leaf_ok :: "('k \<Rightarrow> 'k \<Rightarrow> bool) \<Rightarrow> ('k, 'v) leaf_page \<Rightarrow> bool" where
  "leaf_ok lt p \<longleftrightarrow> 0 \<le> sint (bp_size p) \<and> sint (bp_size p) \<le> sint (bp_max_size p) \<and>
     sint (bp_max_size p) \<le> int (length (leaf_array p)) \<and> sorted_wrt lt (map fst (leaf_entries p))"

lemma leaf_okD:
  assumes "leaf_ok lt p"
  shows "sint (bp_size p) = int (length (leaf_entries p))" "length (leaf_entries p) \<le> length (leaf_array p)"
    "length (leaf_entries p) < 2 ^ 31" "sorted_wrt lt (map fst (leaf_entries p))"
    "bp_size p = word_of_nat (length (leaf_entries p))"
    "i < length (leaf_entries p) \<Longrightarrow> leaf_array p ! i = leaf_entries p ! i"
proof -
  have le: "nat (sint (bp_size p)) \<le> length (leaf_array p)" using assms by (simp add: leaf_ok_def nat_le_iff)
  then have len: "length (leaf_entries p) = nat (sint (bp_size p))" by (simp add: leaf_entries_def)
  then show s: "sint (bp_size p) = int (length (leaf_entries p))" using assms by (simp add: leaf_ok_def)
  show "length (leaf_entries p) < 2 ^ 31" using s sint_i32_bounds(2) [of "bp_size p"] by simp
  show "length (leaf_entries p) \<le> length (leaf_array p)" using len le by simp
  show "sorted_wrt lt (map fst (leaf_entries p))" using assms by (simp add: leaf_ok_def)
  show "bp_size p = word_of_nat (length (leaf_entries p))"
  proof -
    have "word_of_int (sint (bp_size p)) = bp_size p" by simp
    then show ?thesis by (simp only: s) simp
  qed
  show "i < length (leaf_entries p) \<Longrightarrow> leaf_array p ! i = leaf_entries p ! i" by (simp add: leaf_entries_def)
qed

lemma length_takeWhile_eqI:
  assumes "m \<le> length xs" and "\<forall>i < m. P (xs ! i)" and "\<forall>i. m \<le> i \<and> i < length xs \<longrightarrow> \<not> P (xs ! i)"
  shows "length (takeWhile P xs) = m"
proof (rule antisym)
  show "length (takeWhile P xs) \<le> m"
  proof (rule ccontr)
    assume "\<not> length (takeWhile P xs) \<le> m"
    then have "m < length (takeWhile P xs)" by simp
    moreover from this have "takeWhile P xs ! m = xs ! m" by (rule takeWhile_nth)
    ultimately have "P (xs ! m)" by (metis nth_mem set_takeWhileD)
    moreover have "m < length xs" using \<open>m < _\<close> length_takeWhile_le [of P xs] by simp
    ultimately show False using assms(3) by blast
  qed
  show "m \<le> length (takeWhile P xs)"
  proof (rule ccontr)
    assume "\<not> m \<le> length (takeWhile P xs)"
    then have "length (takeWhile P xs) < m" by simp
    moreover from this have "length (takeWhile P xs) < length xs" using assms(1) by simp
    ultimately show False using assms(2) nth_length_takeWhile by blast
  qed
qed

context key_comparator
begin

text \<open>In an ordered list the entries before a key are a prefix.\<close>

lemma before_prefix:
  assumes "sorted_wrt lt (map fst xs)" and "i \<le> j" and "j < length xs"
  shows "lt (fst (xs ! j)) k \<Longrightarrow> lt (fst (xs ! i)) k"
    and "\<not> lt k (fst (xs ! j)) \<Longrightarrow> \<not> lt k (fst (xs ! i))"
proof -
  have "i = j \<or> lt (fst (xs ! i)) (fst (xs ! j))"
    using sorted_wrt_nth_less [OF assms(1), of i j] assms(2,3) by (cases "i = j") auto
  then show "lt (fst (xs ! j)) k \<Longrightarrow> lt (fst (xs ! i)) k"
    and "\<not> lt k (fst (xs ! j)) \<Longrightarrow> \<not> lt k (fst (xs ! i))"
    using trans by blast+
qed

abbreviation before :: "'k \<Rightarrow> ('k \<times> 'v) list \<Rightarrow> ('k \<times> 'v) list" where
  "before k xs \<equiv> takeWhile (\<lambda>e. lt (fst e) k) xs"

abbreviation from_key :: "'k \<Rightarrow> ('k \<times> 'v) list \<Rightarrow> ('k \<times> 'v) list" where
  "from_key k xs \<equiv> dropWhile (\<lambda>e. lt (fst e) k) xs"

lemma key_index_ok:
  assumes ok: "leaf_ok lt p"
  shows "key_index lt k p = Inr (word_of_nat (length (before k (leaf_entries p))))"
proof -
  note d = leaf_okD [OF ok]
  let ?E = "leaf_entries p" and ?q = "\<lambda>i. lt (fst (leaf_array p ! i)) k"
  let ?r = "\<lambda>i. bind_result (array_at (leaf_array p) (int i)) (\<lambda>e. Inr (lt (fst e) k))"
  have mono: "?q i" if "i \<le> j" "j < length ?E" "?q j" for i j
    using before_prefix(1) [OF d(4) that(1,2), of k] that d(6) by simp
  have "\<exists>m. bisect ?r 0 (length ?E) = Inr m \<and> 0 \<le> m \<and> m \<le> 0 + length ?E \<and> (\<forall>i. 0 \<le> i \<and> i < m \<longrightarrow> ?q i) \<and>
      (\<forall>i. m \<le> i \<and> i < 0 + length ?E \<longrightarrow> \<not> ?q i)"
  proof (rule bisect_partition)
    show "\<forall>i. 0 \<le> i \<and> i < 0 + length ?E \<longrightarrow> ?r i = Inr (?q i)" using d(2) by simp
    show "\<forall>i j. 0 \<le> i \<and> i \<le> j \<and> j < 0 + length ?E \<longrightarrow> ?q j \<longrightarrow> ?q i" using mono by auto
  qed
  then obtain m where m: "bisect ?r 0 (length ?E) = Inr m" "m \<le> length ?E" "\<forall>i < m. ?q i"
    "\<forall>i. m \<le> i \<and> i < length ?E \<longrightarrow> \<not> ?q i" by auto
  have "length (before k ?E) = m" using m(2-4) d(6) by (intro length_takeWhile_eqI) auto
  then show ?thesis using m(1) d(1) by (simp add: key_index_def get_size_def)
qed

lemma key_present_iff:
  assumes sorted: "sorted_wrt lt (map fst xs)"
  shows "k \<in> fst ` set xs \<longleftrightarrow> from_key k xs \<noteq> [] \<and> fst (hd (from_key k xs)) = k"
proof
  assume "k \<in> fst ` set xs"
  then obtain j where j: "j < length xs" "fst (xs ! j) = k" by (auto simp: in_set_conv_nth)
  let ?m = "length (before k xs)"
  have "\<not> j < ?m"
    using j irrefl [of k] takeWhile_nth [of j _ xs] set_takeWhileD nth_mem by metis
  then have m: "?m \<le> j" "?m < length xs" using j(1) by simp_all
  have "?m = j"
  proof (rule ccontr)
    assume "?m \<noteq> j"
    then have "lt (fst (xs ! ?m)) k"
      using sorted_wrt_nth_less [OF sorted, of ?m j] m j by simp
    then show False using nth_length_takeWhile [OF m(2)] by simp
  qed
  then show "from_key k xs \<noteq> [] \<and> fst (hd (from_key k xs)) = k"
    using m(2) j(2) by (simp add: dropWhile_eq_drop hd_drop_conv_nth)
next
  assume "from_key k xs \<noteq> [] \<and> fst (hd (from_key k xs)) = k"
  then show "k \<in> fst ` set xs" by (metis hd_in_set imageI set_dropWhileD)
qed

lemma sorted_between:
  assumes sorted: "sorted_wrt lt (map fst (xs @ ys))"
    and b: "\<forall>x \<in> set xs. lt (fst x) k" and a: "\<forall>y \<in> set ys. lt k (fst y)"
  shows "sorted_wrt lt (map fst (xs @ (k, v) # ys))"
    and "map_of (xs @ (k, v) # ys) = (map_of (xs @ ys))(k \<mapsto> v)"
proof -
  show "sorted_wrt lt (map fst (xs @ (k, v) # ys))"
    using sorted b a by (auto simp: sorted_wrt_append)
  have "k \<notin> fst ` set xs" using b irrefl by blast
  then have "map_of xs k = None" by (simp add: map_of_eq_None_iff)
  then show "map_of (xs @ (k, v) # ys) = (map_of (xs @ ys))(k \<mapsto> v)"
    by (auto simp: map_add_def fun_eq_iff split: option.splits)
qed

lemma from_key_after:
  assumes sorted: "sorted_wrt lt (map fst xs)" and new: "k \<notin> fst ` set xs"
  shows "\<forall>y \<in> set (from_key k xs). lt k (fst y)"
proof (cases "from_key k xs")
  case (Cons z zs)
  have "sorted_wrt lt (map fst (before k xs @ from_key k xs))" using sorted by (simp only: takeWhile_dropWhile_id)
  then have s: "\<forall>y \<in> set zs. lt (fst z) (fst y)" unfolding Cons by (simp add: sorted_wrt_append)
  have "\<not> lt (fst z) k" using hd_dropWhile [of "\<lambda>e. lt (fst e) k" xs] unfolding Cons by simp
  moreover have "z \<in> set xs" using set_dropWhileD [of z "\<lambda>e. lt (fst e) k" xs] unfolding Cons by simp
  then have "fst z \<noteq> k" using new by blast
  ultimately have "lt k (fst z)" using total_order by blast
  then show ?thesis unfolding Cons using s trans by auto
next
  case Nil
  show ?thesis unfolding Nil by simp
qed

lemma sorted_insert:
  assumes sorted: "sorted_wrt lt (map fst xs)" and new: "k \<notin> fst ` set xs"
  shows "sorted_wrt lt (map fst (before k xs @ (k, v) # from_key k xs))"
    and "map_of (before k xs @ (k, v) # from_key k xs) = (map_of xs)(k \<mapsto> v)"
proof -
  have b: "\<forall>x \<in> set (before k xs). lt (fst x) k" by (auto dest: set_takeWhileD)
  note between = sorted_between [OF _ b from_key_after [OF sorted new], unfolded takeWhile_dropWhile_id, OF sorted, of v]
  show "sorted_wrt lt (map fst (before k xs @ (k, v) # from_key k xs))" by (rule between(1))
  show "map_of (before k xs @ (k, v) # from_key k xs) = (map_of xs)(k \<mapsto> v)" by (rule between(2))
qed

text \<open>The test for a key that is there already.\<close>

lemma exists_already_ok:
  assumes ok: "leaf_ok lt p" and index: "index = word_of_nat (length (before k (leaf_entries p)))"
  shows "(if sint index < sint (bp_size p)
          then bind_result (leaf_key_at index p) (\<lambda>e. Inr (\<not> lt e k \<and> \<not> lt k e))
          else Inr False) = Inr (k \<in> fst ` set (leaf_entries p))"
proof -
  note d = leaf_okD [OF ok]
  let ?E = "leaf_entries p"
  define bs fs where "bs = before k ?E" and "fs = from_key k ?E"
  have E: "?E = bs @ fs" unfolding bs_def fs_def by (rule takeWhile_dropWhile_id [symmetric])
  have present: "k \<in> fst ` set ?E \<longleftrightarrow> fs \<noteq> [] \<and> fst (hd fs) = k"
    unfolding fs_def by (rule key_present_iff [OF d(4)])
  have sint: "sint index = int (length bs)"
    unfolding index bs_def [symmetric] using d(3) by (intro sint_of_nat_i32) (simp add: E)
  show ?thesis
  proof (cases fs)
    case Nil
    then show ?thesis using present by (simp add: sint d(1) E)
  next
    case (Cons e es)
    have key: "leaf_key_at index p = Inr (fst e)"
      using d(2) d(6) [of "length bs"] by (simp add: leaf_key_at_def sint E Cons)
    have "k \<in> fst ` set ?E \<longleftrightarrow> \<not> lt (fst e) k \<and> \<not> lt k (fst e)"
      using present irrefl total_order unfolding Cons by auto
    then show ?thesis by (simp add: key sint d(1)) (simp add: E Cons)
  qed
qed

lemma leaf_insert_full:
  "sint (bp_max_size p) \<le> sint (bp_size p) \<Longrightarrow> leaf_insert lt k v p = Inr (-1, p)"
  by (simp add: leaf_insert_def get_size_def get_max_size_def)

lemma leaf_insert_present:
  assumes ok: "leaf_ok lt p" and "k \<in> fst ` set (leaf_entries p)"
  shows "leaf_insert lt k v p = Inr (-1, p)"
  unfolding leaf_insert_def Let_def get_size_def get_max_size_def key_index_ok [OF ok] bind_result_simps
    exists_already_ok [OF ok refl]
  using assms(2) by simp

lemma leaf_insert_new:
  assumes ok: "leaf_ok lt p" and room: "sint (bp_size p) < sint (bp_max_size p)"
    and new: "k \<notin> fst ` set (leaf_entries p)"
  obtains a where "leaf_insert lt k v p = Inr (bp_size p + 1, p\<lparr>leaf_array := a, bp_size := bp_size p + 1\<rparr>)"
    and "length a = length (leaf_array p)"
    and "take (Suc (length (leaf_entries p))) a = before k (leaf_entries p) @ (k, v) # from_key k (leaf_entries p)"
proof -
  note d = leaf_okD [OF ok]
  let ?E = "leaf_entries p" and ?A = "leaf_array p"
  define bs fs where "bs = before k ?E" and "fs = from_key k ?E"
  have E: "?E = bs @ fs" unfolding bs_def fs_def by (rule takeWhile_dropWhile_id [symmetric])
  define n m where "n = length bs + length fs" and "m = length bs"
  have m: "m \<le> n" unfolding n_def m_def by simp
  have nE: "length ?E = n" unfolding n_def E by simp
  have nA: "n < length ?A" using room ok d(1) unfolding nE leaf_ok_def by linarith
  have tA: "take n ?A = bs @ fs" using E d(1) unfolding nE leaf_entries_def by (simp only: nat_int n_def length_append)
  have bm: "take m ?A = bs" using arg_cong [OF tA, of "take m"] m by (simp add: m_def min_absorb1)
  have fm: "take (n - m) (drop m ?A) = fs" using arg_cong [OF tA, of "drop m"] by (simp add: m_def drop_take)
  define a where "a = take m ?A @ (k, v) # take (n - m) (drop m ?A) @ drop (Suc n) ?A"
  have sm: "sint (word_of_nat m :: i32) = int m" using m d(3) unfolding nE by (intro sint_of_nat_i32) linarith
  have sn: "sint (bp_size p) = int n" using d(1) by (simp add: nE)
  have shift: "shift_entries (rev [Suc m..<Suc n]) ?A = Inr (take (Suc m) ?A @ take (n - m) (drop m ?A) @ drop (Suc n) ?A)"
    using shift_entries_ok [OF m nA] .
  have set: "array_set (int m) (k, v) (take (Suc m) ?A @ take (n - m) (drop m ?A) @ drop (Suc n) ?A) = Inr a"
    unfolding a_def using m nA by (simp add: array_set_def take_Suc_conv_app_nth list_update_append)
  have inc: "increase_size 1 (p\<lparr>leaf_array := a\<rparr>) = Inr (p\<lparr>leaf_array := a, bp_size := bp_size p + 1\<rparr>)"
    using sint_i32_bounds [of "bp_size p"] sint_i32_bounds [of "bp_max_size p"] room
    by (simp add: increase_size_def)
  have "leaf_insert lt k v p = Inr (bp_size p + 1, p\<lparr>leaf_array := a, bp_size := bp_size p + 1\<rparr>)"
    unfolding leaf_insert_def Let_def get_size_def get_max_size_def key_index_ok [OF ok] bind_result_simps
      exists_already_ok [OF ok refl]
    unfolding bs_def [symmetric] m_def [symmetric] sm sn nat_int shift set inc bind_result_simps
    using new room unfolding sn by simp
  moreover have "length a = length ?A" unfolding a_def using m nA by simp
  moreover have "take (Suc n) a = bs @ (k, v) # fs"
    unfolding a_def bm fm by (simp add: n_def)
  ultimately show thesis using that unfolding nE bs_def fs_def by blast
qed

lemma leaf_insert_rejects:
  assumes "leaf_ok lt p" and "k \<in> fst ` set (leaf_entries p) \<or> sint (bp_max_size p) \<le> sint (bp_size p)"
  shows "leaf_insert lt k v p = Inr (-1, p)"
  using assms(2)
proof
  assume "k \<in> fst ` set (leaf_entries p)"
  then show ?thesis by (rule leaf_insert_present [OF assms(1)])
next
  assume "sint (bp_max_size p) \<le> sint (bp_size p)"
  then show ?thesis by (rule leaf_insert_full)
qed

lemma leaf_insert_adds:
  assumes ok: "leaf_ok lt p" and room: "sint (bp_size p) < sint (bp_max_size p)"
    and new: "k \<notin> fst ` set (leaf_entries p)"
  obtains p' where "leaf_insert lt k v p = Inr (bp_size p + 1, p')" and "leaf_ok lt p'"
    and "bp_max_size p' = bp_max_size p" and "sint (bp_size p') = sint (bp_size p) + 1"
    and "map_of (leaf_entries p') = (map_of (leaf_entries p))(k \<mapsto> v)"
    and "leaf_array p' = take (length (leaf_array p)) (leaf_array p')"
proof -
  note d = leaf_okD [OF ok]
  let ?E = "before k (leaf_entries p) @ (k, v) # from_key k (leaf_entries p)"
  obtain a where a: "leaf_insert lt k v p = Inr (bp_size p + 1, p\<lparr>leaf_array := a, bp_size := bp_size p + 1\<rparr>)"
    "length a = length (leaf_array p)" "take (Suc (length (leaf_entries p))) a = ?E"
    by (rule leaf_insert_new [OF ok room new]) (rule that; assumption)
  let ?p = "p\<lparr>leaf_array := a, bp_size := bp_size p + 1\<rparr>"
  have s: "sint (bp_size p + 1) = int (Suc (length (leaf_entries p)))"
    using sint_succ [OF room] d(1) by simp
  have E: "leaf_entries ?p = ?E"
    unfolding a(3) [symmetric] leaf_entries_def [of ?p] by (simp add: s nat_add_distrib)
  note ins = sorted_insert [OF d(4) new, of v]
  have "leaf_ok lt ?p"
    using ok room a(2) ins(1) sint_succ [OF room] unfolding leaf_ok_def E by simp
  moreover have "map_of (leaf_entries ?p) = (map_of (leaf_entries p))(k \<mapsto> v)" unfolding E by (rule ins(2))
  ultimately show thesis using that [OF a(1)] a(2) sint_succ [OF room] by simp
qed

text \<open>A page whose maximum is larger than its memory writes behind it when it has to grow.\<close>

lemma other_maximum:
  "key_index lt k (p\<lparr>bp_max_size := n\<rparr>) = key_index lt k p"
  "leaf_key_at i (p\<lparr>bp_max_size := n\<rparr>) = leaf_key_at i p"
  "leaf_entries (p\<lparr>bp_max_size := n\<rparr>) = leaf_entries p"
  by (simp_all add: key_index_def get_size_def leaf_key_at_def leaf_entries_def cong: if_cong)

lemma leaf_insert_overflow:
  assumes ok: "leaf_ok lt (p\<lparr>bp_max_size := bp_size p\<rparr>)" and no_memory: "sint (bp_size p) = int (length (leaf_array p))"
    and room: "sint (bp_size p) < sint (bp_max_size p)" and new: "k \<notin> fst ` set (leaf_entries p)"
  shows "leaf_insert lt k v p = Inl Undefined"
proof -
  let ?q = "p\<lparr>bp_max_size := bp_size p\<rparr>"
  note d = leaf_okD [OF ok, unfolded other_maximum]
  define bs where "bs = before k (leaf_entries p)"
  define index :: i32 where "index = word_of_nat (length bs)"
  have "length bs \<le> length (leaf_entries p)" unfolding bs_def by (rule length_takeWhile_le)
  moreover have n: "length (leaf_entries p) = length (leaf_array p)" using d(1) no_memory by simp
  ultimately have m: "length bs \<le> length (leaf_array p)" by simp
  have sm: "sint index = int (length bs)"
    unfolding index_def using m n d(3) by (intro sint_of_nat_i32) linarith
  have ki: "key_index lt k p = Inr index"
    using key_index_ok [OF ok, of k] unfolding other_maximum index_def bs_def .
  have ex: "(if sint index < sint (bp_size p)
          then bind_result (leaf_key_at index p) (\<lambda>e. Inr (\<not> lt e k \<and> \<not> lt k e)) else Inr False) = Inr False"
    using exists_already_ok [OF ok, of index k] new unfolding other_maximum index_def bs_def by simp
  let ?n = "length (leaf_array p)"
  have grow: "bind_result (shift_entries (rev [Suc (length bs)..<Suc ?n]) (leaf_array p))
      (\<lambda>a. bind_result (array_set (int (length bs)) (k, v) a) f) = Inl Undefined" for f
  proof (cases "length bs = ?n")
    case False
    then have "rev [Suc (length bs)..<Suc ?n] = ?n # rev [Suc (length bs)..<?n]" using m by simp
    moreover have "array_at (leaf_array p) (int ?n - 1) = Inr (leaf_array p ! (?n - 1))"
      using False m by (auto simp: array_at_def nat_diff_distrib')
    ultimately show ?thesis by (simp add: array_set_def del: upt_Suc)
  qed (simp add: array_set_def)
  show ?thesis
    unfolding leaf_insert_def Let_def get_size_def get_max_size_def ki bind_result_simps ex
    unfolding sm no_memory nat_int bind_result_simps grow
    using room no_memory by simp
qed

text \<open>A lookup takes the last child whose key is not above the key, and the first child below all of them.\<close>

lemma internal_lookup_ok:
  assumes size: "bp_size p = word_of_nat (length es)" "length es < 2 ^ 31" "es \<noteq> []"
    and mem: "take (length es) (internal_array p) = es" and sorted: "sorted_wrt lt (map fst (tl es))"
  shows "internal_lookup lt d k p = Inr (snd (last (hd es # takeWhile (\<lambda>e. \<not> lt k (fst e)) (tl es))))"
proof -
  let ?n = "length es" and ?q = "\<lambda>i. \<not> lt k (fst (es ! i))"
  have s: "sint (bp_size p) = int ?n" using sint_of_nat_i32 [OF size(2)] by (simp add: size(1))
  have n: "?n \<le> length (internal_array p)"
  proof -
    have "min (length (internal_array p)) ?n = ?n" using arg_cong [OF mem, of length] by simp
    then show ?thesis by simp
  qed
  have nth: "internal_array p ! i = es ! i" if "i < ?n" for i
    using that arg_cong [OF mem, of "\<lambda>xs. xs ! i"] by simp
  let ?r = "\<lambda>i. bind_result (array_at (internal_array p) (int i)) (\<lambda>e. Inr (\<not> lt k (fst e)))"
  have pos: "0 < ?n" using size(3) by simp
  have tl: "tl es ! (i - 1) = es ! i" if "1 \<le> i" "i < ?n" for i using that by (simp add: nth_tl)
  have "\<exists>m. bisect ?r 1 (?n - 1) = Inr m \<and> 1 \<le> m \<and> m \<le> 1 + (?n - 1) \<and> (\<forall>i. 1 \<le> i \<and> i < m \<longrightarrow> ?q i) \<and>
      (\<forall>i. m \<le> i \<and> i < 1 + (?n - 1) \<longrightarrow> \<not> ?q i)"
  proof (rule bisect_partition)
    show "\<forall>i. 1 \<le> i \<and> i < 1 + (?n - 1) \<longrightarrow> ?r i = Inr (?q i)" using n nth by auto
    show "\<forall>i j. 1 \<le> i \<and> i \<le> j \<and> j < 1 + (?n - 1) \<longrightarrow> ?q j \<longrightarrow> ?q i"
    proof (intro allI impI, elim conjE)
      fix i j assume ij: "1 \<le> i" "i \<le> j" "j < 1 + (?n - 1)" "?q j"
      then show "?q i"
        using before_prefix(2) [OF sorted, of "i - 1" "j - 1" k] tl [of i] tl [of j] by simp
    qed
  qed
  then obtain m where m: "bisect ?r 1 (?n - 1) = Inr m" "1 \<le> m" "m \<le> ?n" "\<forall>i. 1 \<le> i \<and> i < m \<longrightarrow> ?q i"
    "\<forall>i. m \<le> i \<and> i < ?n \<longrightarrow> \<not> ?q i" using pos by auto
  have "length (takeWhile (\<lambda>e. \<not> lt k (fst e)) (tl es)) = m - 1"
  proof (rule length_takeWhile_eqI)
    show "\<forall>i < m - 1. \<not> lt k (fst (tl es ! i))" using m(3,4) by (auto simp: nth_tl)
    show "\<forall>i. m - 1 \<le> i \<and> i < length (tl es) \<longrightarrow> \<not> \<not> lt k (fst (tl es ! i))"
    proof (intro allI impI)
      fix i assume i: "m - 1 \<le> i \<and> i < length (tl es)"
      then have "m \<le> Suc i \<and> Suc i < ?n" by auto
      then show "\<not> \<not> lt k (fst (tl es ! i))" using m(5) i by (auto simp: nth_tl)
    qed
  qed (use m(3) in simp)
  then have "takeWhile (\<lambda>e. \<not> lt k (fst e)) (tl es) = take (m - 1) (tl es)"
    by (metis takeWhile_eq_take)
  then have last: "last (hd es # takeWhile (\<lambda>e. \<not> lt k (fst e)) (tl es)) = es ! (m - 1)"
    using size(3) m(2,3) by (cases es; cases m) (auto simp: last_conv_nth)
  have "get_size p \<noteq> 0" using s pos by (auto simp: get_size_def)
  moreover have "array_at (internal_array p) (int m - 1) = Inr (es ! (m - 1))"
    using m(2,3) n nth [of "m - 1"] by (simp add: array_at_def nat_diff_distrib')
  moreover have "nat (sint (get_size p)) - 1 = ?n - 1" "\<not> sint (get_size p) < 0" by (simp_all add: get_size_def s)
  ultimately show ?thesis unfolding internal_lookup_def last by (simp only: m(1) bind_result_simps if_False)
qed

end

section \<open>Integer keys\<close>

text \<open>\<open>std::less<int>\<close>, the comparator of the instances that the program has.\<close>

definition int32_less :: "i32 \<Rightarrow> i32 \<Rightarrow> bool" where
  "int32_less a b \<longleftrightarrow> sint a < sint b"

interpretation int_keys: key_comparator int32_less
  by unfold_locales (auto simp: int32_less_def intro: sint_inject)

text \<open>A client that inserts pairs in turn, and what it sees of a map that takes at most \<open>n\<close> keys and never overwrites.\<close>

primrec leaf_inserts ::
  "(i32 \<times> 'v) list \<Rightarrow> (i32, 'v) leaf_page \<Rightarrow> (i32 list \<times> (i32, 'v) leaf_page) result" where
  "leaf_inserts [] p = Inr ([], p)"
| "leaf_inserts (e # es) p =
     bind_result (leaf_insert int32_less (fst e) (snd e) p) (\<lambda>(r, p').
     bind_result (leaf_inserts es p') (\<lambda>(rs, p''). Inr (r # rs, p'')))"

primrec bounded_inserts :: "nat \<Rightarrow> (i32 \<times> 'v) list \<Rightarrow> (i32 \<times> 'v) list \<Rightarrow> i32 list \<times> (i32 \<times> 'v) list" where
  "bounded_inserts n [] taken = ([], taken)"
| "bounded_inserts n (e # es) taken =
     (if fst e \<in> fst ` set taken \<or> n \<le> length taken
      then let (rs, t) = bounded_inserts n es taken in (-1 # rs, t)
      else let (rs, t) = bounded_inserts n es (e # taken) in (word_of_nat (Suc (length taken)) # rs, t))"

lemma leaf_inserts_ok:
  assumes "leaf_ok int32_less p" and "map_of (leaf_entries p) = map_of taken"
    and "length (leaf_entries p) = length taken"
  shows "\<exists>p'. leaf_inserts es p = Inr (fst (bounded_inserts (nat (sint (bp_max_size p))) es taken), p') \<and>
    leaf_ok int32_less p' \<and> map_of (leaf_entries p') = map_of (snd (bounded_inserts (nat (sint (bp_max_size p))) es taken))"
  using assms
proof (induction es arbitrary: p taken)
  case Nil
  then show ?case by simp
next
  case (Cons e es)
  obtain k v where e: "e = (k, v)" by (cases e)
  let ?n = "nat (sint (bp_max_size p))"
  note d = leaf_okD [OF Cons.prems(1)]
  have keys: "fst ` set (leaf_entries p) = fst ` set taken"
    using Cons.prems(2) by (metis dom_map_of_conv_image_fst)
  have full: "sint (bp_max_size p) \<le> sint (bp_size p) \<longleftrightarrow> ?n \<le> length taken"
    using Cons.prems(3) d(1) by (simp add: nat_le_iff)
  show ?case
  proof (cases "k \<in> fst ` set taken \<or> ?n \<le> length taken")
    case True
    then have step: "leaf_insert int32_less k v p = Inr (-1, p)"
      using int_keys.leaf_insert_rejects [OF Cons.prems(1), of k v] unfolding keys full by blast
    obtain p' where "leaf_inserts es p = Inr (fst (bounded_inserts ?n es taken), p')" "leaf_ok int32_less p'"
      "map_of (leaf_entries p') = map_of (snd (bounded_inserts ?n es taken))"
      using Cons.IH [OF Cons.prems] by blast
    then show ?thesis using True step by (simp add: e split_def Let_def)
  next
    case False
    then have room: "sint (bp_size p) < sint (bp_max_size p)" and new: "k \<notin> fst ` set (leaf_entries p)"
      using full keys by auto
    obtain q where q: "leaf_insert int32_less k v p = Inr (bp_size p + 1, q)" "leaf_ok int32_less q"
      "bp_max_size q = bp_max_size p" "sint (bp_size q) = sint (bp_size p) + 1"
      "map_of (leaf_entries q) = (map_of (leaf_entries p))(k \<mapsto> v)"
      by (rule int_keys.leaf_insert_adds [OF Cons.prems(1) room new]) (rule that; assumption)
    have "length (leaf_entries q) = length (e # taken)"
      using leaf_okD(1) [OF q(2)] q(4) d(1) Cons.prems(3) by simp
    moreover have "map_of (leaf_entries q) = map_of (e # taken)" using q(5) Cons.prems(2) by (simp add: e)
    ultimately obtain p' where "leaf_inserts es q = Inr (fst (bounded_inserts ?n es (e # taken)), p')"
      "leaf_ok int32_less p'" "map_of (leaf_entries p') = map_of (snd (bounded_inserts ?n es (e # taken)))"
      using Cons.IH [OF q(2)] q(3) by metis
    moreover have "bp_size p + 1 = word_of_nat (Suc (length taken))"
      using d(5) Cons.prems(3) by (simp add: add.commute)
    ultimately show ?thesis using False q(1) by (simp add: e split_def Let_def)
  qed
qed

section \<open>Properties\<close>

text \<open>
  C26: A leaf page that \<open>Init\<close> has set up in memory for \<open>max_size\<close> entries is a map that takes at most \<open>max_size\<close>
  keys and never overwrites: any sequence of \<open>Insert\<close> calls returns the new size for a key it takes, and -1 for
  one it has already or has no room for; its keys stay in strict order, and its entries are those it took.
\<close>

theorem leaf_page_is_bounded_sorted_map:
  assumes "0 < sint max_size" and "sint max_size \<le> int (length (leaf_array p))"
  shows "\<exists>p'. leaf_inserts es (leaf_init pair_size pid parent max_size p) =
      Inr (fst (bounded_inserts (nat (sint max_size)) es []), p') \<and>
    sorted_wrt int32_less (map fst (leaf_entries p')) \<and>
    map_of (leaf_entries p') = map_of (snd (bounded_inserts (nat (sint max_size)) es []))"
proof -
  let ?p = "leaf_init pair_size pid parent max_size p"
  have p: "bp_size ?p = 0" "bp_max_size ?p = max_size" "leaf_array ?p = leaf_array p"
    using assms(1) by (auto simp: leaf_init_def bp_set_defs set_leaf_next_page_id_def Let_def)
  then have "leaf_entries ?p = []" by (simp add: leaf_entries_def)
  moreover from this have "leaf_ok int32_less ?p" using assms p by (simp add: leaf_ok_def)
  ultimately show ?thesis using leaf_inserts_ok [of ?p "[]" es] leaf_okD(4) p(2) by fastforce
qed

theorem leaf_page_is_bounded_sorted_map_witness:
  "\<exists>p'. leaf_inserts [(5, 1), (-3, 2), (5, 9), (4, 3), (7, 4)]
        (leaf_init 8 1 (-1) 3 \<lparr>page_type = INVALID_PAGE, bp_lsn = 0, bp_size = 9, bp_max_size = 0,
          parent_page_id = 0, bp_page_id = 0, leaf_next_page_id = 0, leaf_array = replicate 3 (0, 0 :: nat)\<rparr>) =
      Inr ([1, 2, -1, 3, -1], p') \<and>
    sorted_wrt int32_less (map fst (leaf_entries p')) \<and>
    map_of (leaf_entries p') = map_of [(4, 3), (-3, 2), (5, 1 :: nat)]"
  using leaf_page_is_bounded_sorted_map [of 3
    "\<lparr>page_type = INVALID_PAGE, bp_lsn = 0, bp_size = 9, bp_max_size = 0, parent_page_id = 0, bp_page_id = 0,
      leaf_next_page_id = 0, leaf_array = replicate 3 (0, 0 :: nat)\<rparr>"
    "[(5, 1), (-3, 2), (5, 9), (4, 3), (7, 4)]" 8 1 "-1"]
  by simp

text \<open>
  C27: The binary search of \<open>KeyIndex\<close> is a linear search: on an ordered leaf page it returns the number of leading
  entries whose keys are smaller, whatever the size of the page.
\<close>

theorem key_index_is_linear_search:
  assumes "leaf_ok int32_less p"
  shows "key_index int32_less k p =
    Inr (word_of_nat (length (takeWhile (\<lambda>e. int32_less (fst e) k) (leaf_entries p))))"
  by (rule int_keys.key_index_ok [OF assms])

definition example_leaf :: "(i32, nat) leaf_page" where
  "example_leaf = \<lparr>page_type = LEAF_PAGE, bp_lsn = 0, bp_size = 3, bp_max_size = 4, parent_page_id = -1,
     bp_page_id = 0, leaf_next_page_id = -1, leaf_array = [(-3, 1), (4, 2), (9, 3), (0, 0)]\<rparr>"

theorem key_index_is_linear_search_witness:
  "key_index int32_less 5 example_leaf = Inr 2"
proof -
  have "leaf_entries example_leaf = [(-3, 1), (4, 2), (9, 3)]" by (simp add: leaf_entries_def example_leaf_def numeral_eq_Suc)
  moreover from this have "leaf_ok int32_less example_leaf"
    by (simp add: leaf_ok_def int32_less_def) (simp add: example_leaf_def)
  ultimately show ?thesis using key_index_is_linear_search [of example_leaf 5] by (simp add: int32_less_def)
qed

text \<open>
  \<open>Lookup\<close> of an internal page with \<open>n \<ge> 1\<close> children, whose keys from the second on are in order, routes a key to
  the last child whose key is not greater, and to the first child where all of them are; the first key is never read.
\<close>

theorem lookup_routes_to_child:
  assumes "bp_size p = word_of_nat (length es)" and "length es < 2 ^ 31" and "es \<noteq> []"
    and "take (length es) (internal_array p) = es" and "sorted_wrt int32_less (map fst (tl es))"
  shows "internal_lookup int32_less default_value k p =
    Inr (snd (last (hd es # takeWhile (\<lambda>e. \<not> int32_less k (fst e)) (tl es))))"
  by (rule int_keys.internal_lookup_ok [OF assms])

theorem lookup_routes_to_child_witness:
  "internal_lookup int32_less 0 6 \<lparr>page_type = INTERNAL_PAGE, bp_lsn = 0, bp_size = 3, bp_max_size = 509,
     parent_page_id = -1, bp_page_id = 0, internal_array = [(99, 10), (5, 20), (8, 30 :: nat)]\<rparr> = Inr 20"
  using lookup_routes_to_child [of "\<lparr>page_type = INTERNAL_PAGE, bp_lsn = 0, bp_size = 3, bp_max_size = 509,
     parent_page_id = -1, bp_page_id = 0, internal_array = [(99, 10), (5, 20), (8, 30 :: nat)]\<rparr>"
    "[(99, 10), (5, 20), (8, 30)]" 0 6]
  by (simp add: int32_less_def)

text \<open>
  C28: \<open>Init\<close> takes any \<open>max_size\<close>, and nothing compares it with the memory behind the page: \<open>Insert\<close> of a new key into
  an ordered page that fills its memory, but not its \<open>max_size\<close>, accesses the array outside its bounds.
\<close>

theorem insert_runs_over_the_page:
  assumes "leaf_ok int32_less (p\<lparr>bp_max_size := bp_size p\<rparr>)"
    and "sint (bp_size p) = int (length (leaf_array p))" and "sint (bp_size p) < sint (bp_max_size p)"
    and "k \<notin> fst ` set (leaf_entries p)"
  shows "leaf_insert int32_less k v p = Inl Undefined"
  by (rule int_keys.leaf_insert_overflow [OF assms])

theorem insert_runs_over_the_page_witness:
  "leaf_insert int32_less 5 7 (bp_set_max_size 509 (example_leaf\<lparr>leaf_array := [(-3, 1), (4, 2), (9, 3)]\<rparr>)) = Inl Undefined"
proof (rule insert_runs_over_the_page)
  let ?p = "bp_set_max_size 509 (example_leaf\<lparr>leaf_array := [(-3, 1), (4, 2), (9, 3)]\<rparr>)"
  have E: "leaf_entries ?p = [(-3, 1), (4, 2), (9, 3)]" "leaf_entries (?p\<lparr>bp_max_size := bp_size ?p\<rparr>) = [(-3, 1), (4, 2), (9, 3)]"
    by (simp_all add: leaf_entries_def example_leaf_def bp_set_max_size_def)
  show "leaf_ok int32_less (?p\<lparr>bp_max_size := bp_size ?p\<rparr>)"
    unfolding leaf_ok_def E by (simp add: int32_less_def example_leaf_def bp_set_max_size_def)
  show "sint (bp_size ?p) = int (length (leaf_array ?p))" "sint (bp_size ?p) < sint (bp_max_size ?p)"
    by (simp_all add: example_leaf_def bp_set_max_size_def)
  show "5 \<notin> fst ` set (leaf_entries ?p)" unfolding E by simp
qed

text \<open>The capacity that \<open>Init\<close> computes by itself is the largest that fits behind the headers of 28 and 24 bytes.\<close>

lemma default_capacity_fits:
  "capacity_of 28 8 = 508 \<and> 28 + 508 * 8 \<le> (4096 :: nat) \<and> capacity_of 24 8 = 509 \<and> 24 + 509 * 8 \<le> (4096 :: nat)"
  by (simp add: capacity_of_def)

end
