(* ===== verification/Page_Visits.thy ===== *)
theory Page_Visits
  imports Page_Cache
begin

text \<open>
  A buffer pool (\<open>src/src/storage/page_cache.{h,cpp}\<close>) of which each page is fetched and its handle destroyed before
  the next one, as the benchmarks and the offline trainer use it. Then no page is pinned, and the pool is a list of
  pages in order of use with an observer, a policy and two counters.
\<close>

section \<open>Visiting pages\<close>

primrec visit_pages ::
  "(workload_hint \<Rightarrow> observers \<Rightarrow> u32 list \<Rightarrow> 'p \<Rightarrow> u32 \<times> 'p) \<Rightarrow> workload_hint \<Rightarrow> u32 list \<Rightarrow> 'p page_cache \<Rightarrow>
   unit result \<times> 'p page_cache" where
  "visit_pages pick hint [] pc = (Inr (), pc)"
| "visit_pages pick hint (pid # pids) pc =
     (case fetch_page pick hint pid pc of
        (Inl e, pc') \<Rightarrow> (Inl e, pc')
      | (Inr h, pc') \<Rightarrow> visit_pages pick hint pids (handle_destroy h pc'))"

lemma visit_pages_append:
  "visit_pages pick hint (ps @ qs) pc =
     (case visit_pages pick hint ps pc of (Inl e, pc') \<Rightarrow> (Inl e, pc') | (Inr _, pc') \<Rightarrow> visit_pages pick hint qs pc')"
  by (induction ps arbitrary: pc) (auto split: prod.split sum.split)

section \<open>The abstract pool\<close>

text \<open>\<open>vs_lru\<close> lists the cached pages, most recently used first.\<close>

record 'p visits =
  vs_lru :: "u32 list"
  vs_observers :: observers
  vs_policy :: "'p option"
  vs_hits :: nat
  vs_misses :: nat

definition observe_at :: "observer_ptr \<Rightarrow> u32 \<Rightarrow> bool \<Rightarrow> observers \<Rightarrow> observers" where
  "observe_at observer pid hit obs =
     (case observer of None \<Rightarrow> obs | Some a \<Rightarrow> obs(a := record_page_access pid hit (obs a)))"

definition pick_victim ::
  "(workload_hint \<Rightarrow> observers \<Rightarrow> u32 list \<Rightarrow> 'p \<Rightarrow> u32 \<times> 'p) \<Rightarrow> workload_hint \<Rightarrow> observers \<Rightarrow> u32 list \<Rightarrow>
   'p option \<Rightarrow> u32 \<times> 'p option" where
  "pick_victim pick hint obs ids policy =
     (case policy of None \<Rightarrow> (hd ids, None) | Some p \<Rightarrow> (let (v, p') = pick hint obs ids p in (v, Some p')))"

definition visit ::
  "(workload_hint \<Rightarrow> observers \<Rightarrow> u32 list \<Rightarrow> 'p \<Rightarrow> u32 \<times> 'p) \<Rightarrow> workload_hint \<Rightarrow> observer_ptr \<Rightarrow> nat \<Rightarrow> u32 \<Rightarrow>
   'p visits \<Rightarrow> 'p visits" where
  "visit pick hint observer cap pid v =
     (let hit = pid \<in> set (vs_lru v);
          obs = observe_at observer pid hit (vs_observers v);
          v1 = v\<lparr>vs_observers := obs\<rparr>
      in if hit then v1\<lparr>vs_lru := pid # removeAll pid (vs_lru v), vs_hits := vs_hits v + 1\<rparr>
         else
           let (victim, policy) =
                 (if length (vs_lru v) < cap then (None, vs_policy v)
                  else let (x, p) = pick_victim pick hint obs (rev (vs_lru v)) (vs_policy v) in (Some x, p))
           in v1\<lparr>vs_lru := pid # filter (\<lambda>q. Some q \<noteq> victim) (vs_lru v), vs_policy := policy,
                 vs_misses := vs_misses v + 1\<rparr>)"

definition visit_all ::
  "(workload_hint \<Rightarrow> observers \<Rightarrow> u32 list \<Rightarrow> 'p \<Rightarrow> u32 \<times> 'p) \<Rightarrow> workload_hint \<Rightarrow> observer_ptr \<Rightarrow> nat \<Rightarrow>
   u32 list \<Rightarrow> 'p visits \<Rightarrow> 'p visits" where
  "visit_all pick hint observer cap pids v = fold (visit pick hint observer cap) pids v"

definition visits_new :: "observers \<Rightarrow> 'p option \<Rightarrow> 'p visits" where
  "visits_new obs policy = \<lparr>vs_lru = [], vs_observers = obs, vs_policy = policy, vs_hits = 0, vs_misses = 0\<rparr>"

lemma visit_all_append: "visit_all pick hint observer cap (ps @ qs) v =
    visit_all pick hint observer cap qs (visit_all pick hint observer cap ps v)"
  by (simp add: visit_all_def)

lemma visit_all_simps [simp]:
  "visit_all pick hint observer cap [] v = v"
  "visit_all pick hint observer cap (p # ps) v = visit_all pick hint observer cap ps (visit pick hint observer cap p v)"
  by (simp_all add: visit_all_def)

lemma visit_hit:
  "pid \<in> set (vs_lru v) \<Longrightarrow> visit pick hint observer cap pid v =
     v\<lparr>vs_lru := pid # removeAll pid (vs_lru v), vs_observers := observe_at observer pid True (vs_observers v),
       vs_hits := vs_hits v + 1\<rparr>"
  by (simp add: visit_def)

lemma visit_room:
  "pid \<notin> set (vs_lru v) \<Longrightarrow> length (vs_lru v) < cap \<Longrightarrow> visit pick hint observer cap pid v =
     v\<lparr>vs_lru := pid # vs_lru v, vs_observers := observe_at observer pid False (vs_observers v),
       vs_misses := vs_misses v + 1\<rparr>"
  by (simp add: visit_def)

lemma removeAll_filter: "removeAll x xs = filter (\<lambda>q. q \<noteq> x) xs"
  by (induction xs) auto

lemma visit_evict:
  "pid \<notin> set (vs_lru v) \<Longrightarrow> cap \<le> length (vs_lru v) \<Longrightarrow>
   pick_victim pick hint (observe_at observer pid False (vs_observers v)) (rev (vs_lru v)) (vs_policy v) = (x, policy) \<Longrightarrow>
   visit pick hint observer cap pid v =
     v\<lparr>vs_lru := pid # removeAll x (vs_lru v), vs_observers := observe_at observer pid False (vs_observers v),
       vs_policy := policy, vs_misses := vs_misses v + 1\<rparr>"
  by (simp add: visit_def removeAll_filter)

section \<open>The pool as an abstract pool\<close>

definition quiet :: "mapped_file \<Rightarrow> observer_ptr \<Rightarrow> nat \<Rightarrow> 'p page_cache \<Rightarrow> 'p visits \<Rightarrow> bool" where
  "quiet file observer cap pc v \<longleftrightarrow> cache_ok pc \<and> pc_file pc = file \<and> length (pc_pool pc) = cap \<and> (\<forall>q. pins pc q = 0) \<and>
     dl_values (pc_lru_list pc) = vs_lru v \<and> pc_policy pc = vs_policy v \<and>
     counters pc = (vs_observers v, observer, vs_hits v, vs_misses v)"

lemma unpin_page_rest:
  "pc_lru_list (unpin_page pid pc) = pc_lru_list pc" "pc_policy (unpin_page pid pc) = pc_policy pc"
  "counters (unpin_page pid pc) = counters pc"
  by (simp_all add: unpin_page_def counters_def split: option.split)

lemma quiet_new:
  assumes "mf_ok file sys"
  shows "quiet file observer cap (cache_new file sys obs cap observer policy) (visits_new obs policy)"
proof -
  let ?pc = "cache_new file sys obs cap observer policy"
  have "pc_file ?pc = file" "length (pc_pool ?pc) = cap" "pc_policy ?pc = policy" "dl_values (pc_lru_list ?pc) = []"
    "counters ?pc = (obs, observer, 0, 0)"
    by (simp_all add: cache_new_def dl_values_def dl_empty_def counters_def)
  then show ?thesis by (simp add: quiet_def visits_new_def cache_ok_new(1,3) [OF assms])
qed

text \<open>One access, given what the fetch did to the recency list and to the policy.\<close>

lemma quiet_fetched:
  assumes quiet: "quiet file observer cap pc v"
    and f: "fetch_page pick hint pid pc = (Inr \<lparr>ph_cached = True, ph_frame = f, ph_page_id = pid\<rparr>, pc')" "fetched pc pc' pid f"
    and new: "dl_values (pc_lru_list pc') = vs_lru v'" "pc_policy pc' = vs_policy v'"
      "vs_observers v' = observe_at observer pid (pid \<in> set (vs_lru v)) (vs_observers v)"
      "vs_hits v' = vs_hits v + (if pid \<in> set (vs_lru v) then 1 else 0)"
      "vs_misses v' = vs_misses v + (if pid \<in> set (vs_lru v) then 0 else 1)"
  shows "visit_pages pick hint (pid # pids) pc = visit_pages pick hint pids (unpin_page pid pc') \<and>
    quiet file observer cap (unpin_page pid pc') v'"
proof -
  have s: "cache_ok pc" "pc_file pc = file" "length (pc_pool pc) = cap" "pins pc q = 0" "dl_values (pc_lru_list pc) = vs_lru v"
    "pc_observers pc = vs_observers v" "pc_observer pc = observer" "pc_hits pc = vs_hits v" "pc_misses pc = vs_misses v" for q
    using quiet by (simp_all add: quiet_def counters_def)
  have "dom (pc_page_map pc) = set (vs_lru v)" using list_okD(3) [OF cache_okD(4) [OF s(1)]] s(5) by simp
  then have hit: "pc_page_map pc pid \<noteq> None \<longleftrightarrow> pid \<in> set (vs_lru v)" by blast
  have "counters pc' = (vs_observers v', observer, vs_hits v', vs_misses v')"
    using fetch_page_counters [of pick hint pid pc] f(1) s(6-9) new(3-5) unfolding hit
    by (simp add: Let_def counters_def cache_observe_def observe_at_def split: if_splits option.splits)
  moreover have "cache_ok pc'" "pc_file pc' = file" "length (pc_pool pc') = cap"
    "pins pc' q = (if q = pid then 1 else 0)" for q
    using f(2) s(2-4) by (simp_all add: fetched_def)
  ultimately show ?thesis
    using f(1) new(1,2) by (simp add: quiet_def handle_destroy_def unpin_page_ok unpin_page_rest)
qed

context page_eviction_policy
begin

lemma quiet_visit:
  assumes quiet: "quiet file observer cap pc v" and pid: "pid < mf_page_count file" and cap: "0 < cap"
  shows "\<exists>pc'. visit_pages pick hint (pid # pids) pc = visit_pages pick hint pids pc' \<and>
    quiet file observer cap pc' (visit pick hint observer cap pid v)"
proof -
  have s: "cache_ok pc" "pc_file pc = file" "length (pc_pool pc) = cap" "pins pc q = 0" "dl_values (pc_lru_list pc) = vs_lru v"
    "pc_policy pc = vs_policy v" "pc_observers pc = vs_observers v" "pc_observer pc = observer" for q
    using quiet by (simp_all add: quiet_def counters_def)
  have dom: "dom (pc_page_map pc) = set (vs_lru v)" using list_okD(3) [OF cache_okD(4) [OF s(1)]] s(5) by simp
  have free: "length (pc_free_frames pc) + length (vs_lru v) = cap" using free_frames_count [OF s(1)] s(3,5) by simp
  have pid': "pid < mf_page_count (pc_file pc)" using pid s(2) by simp
  let ?pc1 = "cache_observe pid False (pc\<lparr>pc_misses := Suc (pc_misses pc)\<rparr>)"
  note step = quiet_fetched [OF quiet, where pick = pick and hint = hint and pid = pid and pids = pids
      and v' = "visit pick hint observer cap pid v"]
  consider (hit) g where "pc_page_map pc pid = Some g" | (room) "pc_page_map pc pid = None" "length (vs_lru v) < cap"
    | (full) "pc_page_map pc pid = None" "cap \<le> length (vs_lru v)" by (cases "pc_page_map pc pid") (auto, linarith)
  then show ?thesis
  proof cases
    case hit
    then have "pid \<in> set (vs_lru v)" using dom by auto
    moreover obtain pc' where "fetch_page pick hint pid pc = (Inr \<lparr>ph_cached = True, ph_frame = g, ph_page_id = pid\<rparr>, pc')"
      "fetched pc pc' pid g" "dl_values (pc_lru_list pc') = pid # filter (\<lambda>q. q \<noteq> pid) (vs_lru v)" "pc_policy pc' = pc_policy pc"
      using fetch_hit [OF s(1) hit, of pick hint] s(5) by auto
    ultimately show ?thesis
      using step [of g pc'] s(6) visit_hit [of pid v pick hint observer cap] by (auto simp: removeAll_filter)
  next
    case room
    then have new: "pid \<notin> set (vs_lru v)" using dom by auto
    obtain fr fs where fs: "pc_free_frames pc = fr # fs" using free room(2) by (cases "pc_free_frames pc") auto
    have "cache_ok ?pc1" using s(1) by (subst core_cong(1) [of _ pc]) simp_all
    then have "took_frame ?pc1 (?pc1\<lparr>pc_free_frames := fs\<rparr>) fr" by (rule took_free_frame) (simp add: fs)
    then obtain pc' where "fetch_page pick hint pid pc = (Inr \<lparr>ph_cached = True, ph_frame = fr, ph_page_id = pid\<rparr>, pc')"
      "fetched pc pc' pid fr" "dl_values (pc_lru_list pc') = pid # vs_lru v" "pc_policy pc' = pc_policy pc"
      using fetch_miss_frame [OF s(1) room(1) pid' _ refl, where f = fr and ?pc2.0 = "?pc1\<lparr>pc_free_frames := fs\<rparr>"
          and pick = pick and hint = hint] fs s(5) by auto
    then show ?thesis
      using step [of fr pc'] s(6) visit_room [OF new room(2), of pick hint observer] new by auto
  next
    case full
    have "length (pc_free_frames pc) = 0" using full(2) free by linarith
    then have none: "pc_free_frames pc = []" by simp
    have new: "pid \<notin> set (vs_lru v)" using full(1) dom by auto
    have "vs_lru v \<noteq> []" using full(2) cap by auto
    then have unp: "unpinned pc = rev (vs_lru v)" "unpinned pc \<noteq> []" using s(4,5) by (simp_all add: unpinned_def)
    obtain fr pc' where f: "fetch_page pick hint pid pc = (Inr \<lparr>ph_cached = True, ph_frame = fr, ph_page_id = pid\<rparr>, pc')"
      "fetched pc pc' pid fr" "unpinned ?pc1 = unpinned pc"
      "dl_values (pc_lru_list pc') = pid # filter (\<lambda>q. q \<noteq> fst (victim_of pick hint ?pc1)) (vs_lru v)"
      "pc_policy pc' = snd (victim_of pick hint ?pc1)"
      using fetch_miss_evict [OF s(1) full(1) pid' none unp(2), of hint] s(5) by auto
    have "pc_observers ?pc1 = observe_at observer pid False (vs_observers v)"
      using s(7,8) by (simp add: cache_observe_def observe_at_def split: option.split)
    then have "pick_victim pick hint (observe_at observer pid False (vs_observers v)) (rev (vs_lru v)) (vs_policy v) =
        victim_of pick hint ?pc1"
      using f(3) unp(1) s(6) by (simp add: pick_victim_def victim_of_def cong: option.case_cong)
    then have "visit pick hint observer cap pid v = v\<lparr>vs_lru := pid # removeAll (fst (victim_of pick hint ?pc1)) (vs_lru v),
        vs_observers := observe_at observer pid False (vs_observers v),
        vs_policy := snd (victim_of pick hint ?pc1), vs_misses := vs_misses v + 1\<rparr>"
      by (intro visit_evict [OF new full(2)]) simp
    then show ?thesis using step [OF f(1,2)] f(4,5) new by (auto simp: removeAll_filter)
  qed
qed

lemma quiet_visits:
  assumes "quiet file observer cap pc v" and "\<forall>p \<in> set pids. p < mf_page_count file" and "0 < cap"
  shows "\<exists>pc'. visit_pages pick hint pids pc = (Inr (), pc') \<and>
    quiet file observer cap pc' (visit_all pick hint observer cap pids v)"
  using assms(1,2)
proof (induction pids arbitrary: pc v)
  case (Cons pid pids)
  obtain pc1 where "visit_pages pick hint (pid # pids) pc = visit_pages pick hint pids pc1"
    "quiet file observer cap pc1 (visit pick hint observer cap pid v)"
    using quiet_visit [OF Cons.prems(1) _ assms(3), of pid hint pids] Cons.prems(2) by auto
  with Cons.IH [of pc1 "visit pick hint observer cap pid v"] Cons.prems(2) show ?case by simp
qed simp

end

section \<open>Phases\<close>

text \<open>What an observer is told while pages are visited.\<close>

definition observe_list :: "observer_ptr \<Rightarrow> (u32 \<times> bool) list \<Rightarrow> observers \<Rightarrow> observers" where
  "observe_list observer evs obs = fold (\<lambda>(p, hit). observe_at observer p hit) evs obs"

lemma observe_list_simps [simp]:
  "observe_list observer [] obs = obs"
  "observe_list observer ((p, hit) # evs) obs = observe_list observer evs (observe_at observer p hit obs)"
  "observe_list observer (evs @ evs') obs = observe_list observer evs' (observe_list observer evs obs)"
  by (simp_all add: observe_list_def)

lemma observe_list_own: "observe_list (Some a) evs obs a = observe_all evs (obs a)"
  by (induction evs arbitrary: obs) (auto simp: observe_at_def)

text \<open>Pages that are all cached: hits only, and the pages move to the front.\<close>

lemma visit_cached:
  assumes "distinct ps" and "set ps \<subseteq> set (vs_lru v)"
  shows "visit_all pick hint observer cap ps v =
    v\<lparr>vs_lru := rev ps @ filter (\<lambda>q. q \<notin> set ps) (vs_lru v),
      vs_observers := observe_list observer (map (\<lambda>p. (p, True)) ps) (vs_observers v),
      vs_hits := vs_hits v + length ps\<rparr>"
  using assms
proof (induction ps arbitrary: v)
  case (Cons p ps)
  let ?v = "visit pick hint observer cap p v"
  have v: "?v = v\<lparr>vs_lru := p # removeAll p (vs_lru v), vs_observers := observe_at observer p True (vs_observers v),
      vs_hits := vs_hits v + 1\<rparr>"
    using Cons.prems by (intro visit_hit) simp
  then have "set ps \<subseteq> set (vs_lru ?v)" using Cons.prems by auto
  from Cons.IH [OF _ this] Cons.prems(1) show ?case
    by (simp add: v removeAll_filter filter_filter conj_commute cong: filter_cong)
qed simp

text \<open>
  New pages, when the policy gives up the oldest page each time the pool is full: misses only, and the oldest
  pages fall out.
\<close>

definition gives_up_oldest ::
  "(workload_hint \<Rightarrow> observers \<Rightarrow> u32 list \<Rightarrow> 'p \<Rightarrow> u32 \<times> 'p) \<Rightarrow> workload_hint \<Rightarrow> observer_ptr \<Rightarrow> nat \<Rightarrow>
   u32 list \<Rightarrow> 'p visits \<Rightarrow> bool" where
  "gives_up_oldest pick hint observer cap ps v \<longleftrightarrow> (\<forall>k < length ps.
     cap \<le> k + length (vs_lru v) \<longrightarrow>
     pick_victim pick hint (observe_list observer (map (\<lambda>p. (p, False)) (take (Suc k) ps)) (vs_observers v))
       (rev (take cap (rev (take k ps) @ vs_lru v))) (vs_policy v) =
     (last (take cap (rev (take k ps) @ vs_lru v)), vs_policy v))"

lemma removeAll_last: "distinct xs \<Longrightarrow> xs \<noteq> [] \<Longrightarrow> removeAll (last xs) xs = butlast xs"
  by (induction xs rule: rev_induct) auto

lemma visit_new:
  assumes "distinct ps" and "set ps \<inter> set (vs_lru v) = {}" and "distinct (vs_lru v)" and "length (vs_lru v) \<le> cap" and "0 < cap"
    and "gives_up_oldest pick hint observer cap ps v"
  shows "visit_all pick hint observer cap ps v =
    v\<lparr>vs_lru := take cap (rev ps @ vs_lru v),
      vs_observers := observe_list observer (map (\<lambda>p. (p, False)) ps) (vs_observers v),
      vs_misses := vs_misses v + length ps\<rparr>"
  using assms
proof (induction ps arbitrary: v)
  case (Cons p ps)
  let ?obs = "observe_at observer p False (vs_observers v)"
  let ?v = "v\<lparr>vs_lru := take cap (p # vs_lru v), vs_observers := ?obs, vs_misses := vs_misses v + 1\<rparr>"
  have new: "p \<notin> set (vs_lru v)" using Cons.prems(2) by simp
  have v: "visit pick hint observer cap p v = ?v"
  proof (cases "length (vs_lru v) < cap")
    case True
    then show ?thesis using visit_room [OF new True, of pick hint observer] by simp
  next
    case False
    then have full: "length (vs_lru v) = cap" "vs_lru v \<noteq> []" using Cons.prems(4,5) by auto
    have "\<And>k. k < length (p # ps) \<Longrightarrow> cap \<le> k + length (vs_lru v) \<Longrightarrow>
        pick_victim pick hint (observe_list observer (map (\<lambda>p. (p, False)) (take (Suc k) (p # ps))) (vs_observers v))
          (rev (take cap (rev (take k (p # ps)) @ vs_lru v))) (vs_policy v) =
        (last (take cap (rev (take k (p # ps)) @ vs_lru v)), vs_policy v)"
      using Cons.prems(6) unfolding gives_up_oldest_def by blast
    from this [of 0] full(1)
    have "pick_victim pick hint ?obs (rev (vs_lru v)) (vs_policy v) = (last (vs_lru v), vs_policy v)" by simp
    from visit_evict [OF new _ this, of cap] full
    show ?thesis
      by (cases cap) (simp_all add: removeAll_last [OF Cons.prems(3) full(2)] butlast_conv_take)
  qed
  have cut: "take cap (rev xs @ take cap (p # vs_lru v)) = take cap (rev xs @ p # vs_lru v)" for xs
    using Cons.prems(5) by (cases "cap - length xs") (auto simp: take_Cons' min_def)
  have "gives_up_oldest pick hint observer cap ps ?v"
    unfolding gives_up_oldest_def
  proof (intro allI impI)
    fix k assume k: "k < length ps" "cap \<le> k + length (vs_lru ?v)"
    have "length (vs_lru ?v) \<le> Suc (length (vs_lru v))" by simp
    then have "cap \<le> Suc k + length (vs_lru v)" using k(2) by linarith
    moreover have "Suc k < length (p # ps)" using k(1) by simp
    ultimately show "pick_victim pick hint (observe_list observer (map (\<lambda>p. (p, False)) (take (Suc k) ps)) (vs_observers ?v))
        (rev (take cap (rev (take k ps) @ vs_lru ?v))) (vs_policy ?v) =
      (last (take cap (rev (take k ps) @ vs_lru ?v)), vs_policy ?v)"
      using Cons.prems(6) [unfolded gives_up_oldest_def, rule_format, of "Suc k"] cut [of "take k ps"] by simp
  qed
  moreover have "distinct (take cap (p # vs_lru v))" using new Cons.prems(3) by (intro distinct_take) simp
  moreover have "set ps \<inter> set (take cap (p # vs_lru v)) = {}"
    using Cons.prems(1,2) set_take_subset [of cap "p # vs_lru v"] by auto
  ultimately show ?case
    using Cons.IH [of ?v] Cons.prems(1,5) by (simp add: v cut)
qed simp

lemma lru_gives_up_oldest:
  "vs_policy v = None \<Longrightarrow> gives_up_oldest pick hint observer cap ps v"
  by (simp add: gives_up_oldest_def pick_victim_def hd_rev del: take_append rev_append)

section \<open>Pools of different sizes\<close>

text \<open>The pages of a trace, the most recent first: without a policy a pool holds a prefix of them.\<close>

definition recency :: "u32 list \<Rightarrow> u32 list" where
  "recency pids = fold (\<lambda>p r. p # removeAll p r) pids []"

definition holds_prefix :: "nat \<Rightarrow> u32 list \<Rightarrow> 'p visits \<Rightarrow> bool" where
  "holds_prefix cap r v \<longleftrightarrow> vs_policy v = None \<and> vs_lru v = take cap r"

lemma take_removeAll_new: "p \<notin> set (take n r) \<Longrightarrow> take n (removeAll p r) = take n r"
proof (induction r arbitrary: n)
  case (Cons x r)
  then show ?case by (cases n) auto
qed simp

lemma take_removeAll_old:
  "distinct r \<Longrightarrow> p \<in> set (take (Suc n) r) \<Longrightarrow> removeAll p (take (Suc n) r) = take n (removeAll p r)"
proof (induction r arbitrary: n)
  case (Cons x r)
  show ?case
  proof (cases "x = p")
    case True
    with Cons.prems(1) have "p \<notin> set (take n r)" using in_set_takeD by fastforce
    then show ?thesis using True Cons.prems(1) by simp
  next
    case False
    with Cons.prems(2) obtain m where "n = Suc m" by (cases n) auto
    with Cons False show ?thesis by simp
  qed
qed simp

lemma holds_prefix_visit:
  assumes prefix: "holds_prefix cap r v" and r: "distinct r" and cap: "0 < cap"
  shows "holds_prefix cap (p # removeAll p r) (visit pick hint observer cap p v)"
    "vs_hits (visit pick hint observer cap p v) = vs_hits v + (if p \<in> set (take cap r) then 1 else 0)"
    "vs_misses (visit pick hint observer cap p v) = vs_misses v + (if p \<in> set (take cap r) then 0 else 1)"
proof -
  obtain n where n: "cap = Suc n" using cap by (cases cap) auto
  have v: "vs_lru v = take cap r" "vs_policy v = None" using prefix by (simp_all add: holds_prefix_def)
  show hits: "vs_hits (visit pick hint observer cap p v) = vs_hits v + (if p \<in> set (take cap r) then 1 else 0)"
    "vs_misses (visit pick hint observer cap p v) = vs_misses v + (if p \<in> set (take cap r) then 0 else 1)"
    by (simp_all add: visit_def v(1) Let_def split: prod.split)
  show "holds_prefix cap (p # removeAll p r) (visit pick hint observer cap p v)"
  proof (cases "p \<in> set (take cap r)")
    case True
    then show ?thesis
      using visit_hit [of p v pick hint observer cap] take_removeAll_old [OF r, of p n]
      by (simp add: holds_prefix_def v n)
  next
    case False
    then have new: "take n (removeAll p r) = take n r"
      using in_set_takeD set_take_subset_set_take [of n cap r] n by (intro take_removeAll_new) auto
    show ?thesis
    proof (cases "length (vs_lru v) < cap")
      case True
      then have "length r < cap" using v(1) by simp
      then show ?thesis
        using visit_room [of p v cap pick hint observer] True False new by (simp add: holds_prefix_def v n)
    next
      case full: False
      then have ne: "vs_lru v \<noteq> []" "distinct (vs_lru v)" "length (vs_lru v) = Suc n"
        using n r by (auto simp: v)
      let ?obs = "observe_at observer p False (vs_observers v)"
      have "pick_victim pick hint ?obs (rev (vs_lru v)) (vs_policy v) = (last (vs_lru v), None)"
        by (simp add: pick_victim_def v(2) hd_rev)
      from visit_evict [OF _ _ this, of cap] full False v(1)
      have "vs_lru (visit pick hint observer cap p v) = p # butlast (vs_lru v)"
        "vs_policy (visit pick hint observer cap p v) = None"
        by (simp_all add: removeAll_last [OF ne(2,1), unfolded v(1)])
      moreover have "butlast (vs_lru v) = take n r" using ne(3) by (simp add: butlast_conv_take v(1) n min_def)
      ultimately show ?thesis using new by (simp add: holds_prefix_def n)
    qed
  qed
qed

lemma pools_compare:
  assumes "holds_prefix small r v" and "holds_prefix large r w" and "distinct r" and "0 < small" and "small \<le> large"
    and "vs_hits v \<le> vs_hits w" and "vs_hits v + vs_misses v = n" and "vs_hits w + vs_misses w = n"
  shows "\<exists>r'. holds_prefix small r' (visit_all pick hint observer small ps v) \<and>
    holds_prefix large r' (visit_all pick hint observer' large ps w) \<and>
    vs_hits (visit_all pick hint observer small ps v) \<le> vs_hits (visit_all pick hint observer' large ps w) \<and>
    vs_hits (visit_all pick hint observer small ps v) + vs_misses (visit_all pick hint observer small ps v) = n + length ps \<and>
    vs_hits (visit_all pick hint observer' large ps w) + vs_misses (visit_all pick hint observer' large ps w) = n + length ps"
  using assms
proof (induction ps arbitrary: r v w n)
  case (Cons p ps)
  let ?v = "visit pick hint observer small p v" and ?w = "visit pick hint observer' large p w"
  have "0 < large" using Cons.prems(4,5) by simp
  note step = holds_prefix_visit [OF Cons.prems(1,3,4), where p = p and pick = pick and hint = hint and observer = observer]
    holds_prefix_visit [OF Cons.prems(2,3) this, where p = p and pick = pick and hint = hint and observer = observer']
  have "distinct (p # removeAll p r)" using Cons.prems(3) by (simp add: distinct_removeAll)
  moreover have "vs_hits ?v \<le> vs_hits ?w"
    using step(2,5) Cons.prems(6) set_take_subset_set_take [OF Cons.prems(5), of r] by auto
  moreover have "vs_hits ?v + vs_misses ?v = Suc n" "vs_hits ?w + vs_misses ?w = Suc n"
    using step(2,3,5,6) Cons.prems(7,8) by auto
  ultimately show ?case
    using Cons.IH [OF step(1,4) _ Cons.prems(4,5), of "Suc n"] by simp
qed auto

section \<open>Properties\<close>

text \<open>
  C18: A larger buffer pool is never worse. Without a policy, as in the storage engine, for every trace of pages that
  are fetched and released in turn, a pool of more frames has at least as many hits and at most as many misses, and
  the pages of the smaller pool are the most recent ones of the larger; hits and misses together count the fetches.
\<close>

theorem larger_pool_hits_more:
  assumes "mf_ok file sys" and "\<forall>p \<in> set pids. p < mf_page_count file" and "0 < small" and "small \<le> large"
  shows "\<exists>pc pc'.
    visit_pages (choose_victim D) hint pids (cache_new file sys obs small observer None) = (Inr (), pc) \<and>
    visit_pages (choose_victim D) hint pids (cache_new file sys obs large observer None) = (Inr (), pc') \<and>
    get_hits pc \<le> get_hits pc' \<and> get_misses pc' \<le> get_misses pc \<and>
    get_hits pc + get_misses pc = length pids \<and> get_hits pc' + get_misses pc' = length pids \<and>
    dl_values (pc_lru_list pc) = take small (dl_values (pc_lru_list pc'))"
proof -
  let ?new = "visits_new obs (None :: 'a page_policy option)"
  have "0 < large" using assms(3,4) by simp
  note runs = policy.quiet_visits [OF quiet_new [OF assms(1), where obs = obs and policy = None and observer = observer] assms(2,3),
      of D hint]
    policy.quiet_visits [OF quiet_new [OF assms(1), where obs = obs and policy = None and observer = observer] assms(2) this,
      of D hint]
  from runs obtain pc pc' where
    pc: "visit_pages (choose_victim D) hint pids (cache_new file sys obs small observer None) = (Inr (), pc)"
      "quiet file observer small pc (visit_all (choose_victim D) hint observer small pids ?new)" and
    pc': "visit_pages (choose_victim D) hint pids (cache_new file sys obs large observer None) = (Inr (), pc')"
      "quiet file observer large pc' (visit_all (choose_victim D) hint observer large pids ?new)" by blast
  have "holds_prefix small [] ?new" "holds_prefix large [] ?new" by (simp_all add: holds_prefix_def visits_new_def)
  from pools_compare [OF this, where n = 0 and pick = "choose_victim D" and hint = hint and observer = observer and observer' = observer
      and ps = pids] assms(3,4) obtain r where
    r: "holds_prefix small r (visit_all (choose_victim D) hint observer small pids ?new)"
      "holds_prefix large r (visit_all (choose_victim D) hint observer large pids ?new)"
    and counts: "vs_hits (visit_all (choose_victim D) hint observer small pids ?new) \<le> vs_hits (visit_all (choose_victim D) hint observer large pids ?new)"
      "vs_hits (visit_all (choose_victim D) hint observer small pids ?new) + vs_misses (visit_all (choose_victim D) hint observer small pids ?new) = length pids"
      "vs_hits (visit_all (choose_victim D) hint observer large pids ?new) + vs_misses (visit_all (choose_victim D) hint observer large pids ?new) = length pids"
    by (auto simp: visits_new_def)
  have "get_hits pc = vs_hits (visit_all (choose_victim D) hint observer small pids ?new)"
    "get_misses pc = vs_misses (visit_all (choose_victim D) hint observer small pids ?new)"
    "get_hits pc' = vs_hits (visit_all (choose_victim D) hint observer large pids ?new)"
    "get_misses pc' = vs_misses (visit_all (choose_victim D) hint observer large pids ?new)"
    using pc(2) pc'(2) by (simp_all add: quiet_def counters_def get_hits_def get_misses_def)
  moreover have "dl_values (pc_lru_list pc) = take small r" "dl_values (pc_lru_list pc') = take large r"
    using pc(2) pc'(2) r by (simp_all add: quiet_def holds_prefix_def)
  ultimately show ?thesis using pc(1) pc'(1) counts assms(4) by (intro exI [of _ pc] exI [of _ pc']) (simp add: min_def)
qed

lemma larger_pool_hits_more_witness:
  "\<exists>pc pc'.
    visit_pages (choose_victim int_ops) Scan [0, 1, 0, 1] (cache_new two_pages two_pages_os (\<lambda>_. observer_new 4) 1 None None) = (Inr (), pc) \<and>
    visit_pages (choose_victim int_ops) Scan [0, 1, 0, 1] (cache_new two_pages two_pages_os (\<lambda>_. observer_new 4) 2 None None) = (Inr (), pc') \<and>
    get_hits pc \<le> get_hits pc' \<and> get_misses pc' \<le> get_misses pc \<and> get_hits pc + get_misses pc = 4"
proof -
  have "\<forall>p \<in> set [0, 1, 0, 1]. p < mf_page_count two_pages" by (simp add: two_pages_def)
  from larger_pool_hits_more [OF two_pages_ok this, of 1 2 int_ops Scan "\<lambda>_. observer_new 4" None] show ?thesis by auto
qed

end
