(* ===== verification/Trainer.thy ===== *)
theory Trainer
  imports Page_Visits Text_Input Storage_Engine
begin

text \<open>
  \<open>src/benchmarks/learned_eviction_trainer.cpp\<close>: the offline trainer, which replays a trace of page accesses on a
  simulated cache with the learned policy and writes the weights to a file that the loaded policy
  (\<open>src/src/cache/eviction_policy.cpp\<close>) reads. The simulated cache is compared with the real buffer pool.
\<close>

section \<open>The simulation\<close>

text \<open>\<open>tr_lru\<close> is \<open>cache_lru\<close>, most recently used first. The policy points to the trainer's observer, object 0.\<close>

record 'd trainer =
  tr_observer :: access_observer
  tr_policy :: "'d learned_policy"
  tr_lru :: "u32 list"
  tr_in_cache :: "u32 set"
  tr_accesses :: u64

definition trainer_new :: "'d double_ops \<Rightarrow> nat \<Rightarrow> u64 \<Rightarrow> 'd \<Rightarrow> 'd trainer" where
  "trainer_new D ring_cap feedback_horizon lr =
     \<lparr>tr_observer = observer_new ring_cap, tr_policy = learned_new D (Some 0) feedback_horizon lr,
      tr_lru = [], tr_in_cache = {}, tr_accesses = 0\<rparr>"

text \<open>The body of the loop; \<open>std::list::remove\<close> removes every equal element.\<close>

definition trainer_access :: "'d double_ops \<Rightarrow> nat \<Rightarrow> u32 \<Rightarrow> 'd trainer \<Rightarrow> 'd trainer" where
  "trainer_access D cache_cap page_id tr =
     (let hit = page_id \<in> tr_in_cache tr;
          ob = record_page_access page_id hit (tr_observer tr);
          tr1 = tr\<lparr>tr_observer := ob, tr_accesses := tr_accesses tr + 1\<rparr>
      in if hit then tr1\<lparr>tr_lru := page_id # removeAll page_id (tr_lru tr)\<rparr>
         else
           let tr2 = (if length (tr_lru tr) \<ge> cache_cap
                      then let (victim, policy) = learned_choose_victim D (\<lambda>_. ob) (rev (tr_lru tr)) (tr_policy tr)
                           in tr1\<lparr>tr_policy := policy, tr_lru := removeAll victim (tr_lru tr),
                                  tr_in_cache := tr_in_cache tr - {victim}\<rparr>
                      else tr1)
           in tr2\<lparr>tr_lru := page_id # tr_lru tr2, tr_in_cache := insert page_id (tr_in_cache tr2)\<rparr>)"

definition train :: "'d double_ops \<Rightarrow> nat \<Rightarrow> u32 list \<Rightarrow> 'd trainer \<Rightarrow> 'd trainer" where
  "train D cache_cap ids tr = fold (trainer_access D cache_cap) ids tr"

section \<open>The program\<close>

text \<open>\<open>pr\<close> is \<open>operator<<\<close> on a \<open>double\<close>.\<close>

definition policy_text :: "('d \<Rightarrow> string) \<Rightarrow> 'd trainer \<Rightarrow> string" where
  "policy_text pr tr =
     (let (wr, wc, ws) = get_weights (tr_policy tr)
      in ''# Learned eviction weights (trace accesses='' @ decimal (unat (tr_accesses tr)) @ '')'' @ [CHR 0x0A] @
         pr wr @ '' '' @ pr wc @ '' '' @ pr ws @ [CHR 0x0A])"

text \<open>
  The exit code, \<open>None\<close> for an exception that nobody catches, and the files. \<open>rd\<close> is \<open>std::stod\<close>; \<open>out_ok\<close> says whether
  the output file can be created.
\<close>

definition trainer_main ::
  "'d double_ops \<Rightarrow> ('d \<Rightarrow> string) \<Rightarrow> (string \<Rightarrow> 'd option) \<Rightarrow> string list \<Rightarrow> bool \<Rightarrow> (string \<rightharpoonup> string) \<Rightarrow>
   nat option \<times> (string \<rightharpoonup> string)" where
  "trainer_main D pr rd argv out_ok files =
     (if length argv < 3 then (Some 1, files)
      else
        let size_arg = (\<lambda>k dflt. if length argv > k then stoull (argv ! k) else Some dflt)
        in case (size_arg 3 256, size_arg 4 64, size_arg 5 64,
                 if length argv > 6 then rd (argv ! 6) else Some (d_div D (d_of_int D 5) (d_of_int D 100))) of
             (Some ring_cap, Some cache_cap, Some feedback_horizon, Some lr) \<Rightarrow>
               (case files (argv ! 1) of
                  None \<Rightarrow> (Some 1, files)
                | Some trace \<Rightarrow>
                    let tr = train D (unat cache_cap) (read_ids trace)
                               (trainer_new D (unat ring_cap) feedback_horizon lr)
                    in if out_ok then (Some 0, files(argv ! 2 \<mapsto> policy_text pr tr)) else (Some 1, files))
           | _ \<Rightarrow> (None, files))"

section \<open>The simulated cache\<close>

definition trainer_ok :: "nat \<Rightarrow> 'd trainer \<Rightarrow> bool" where
  "trainer_ok cap tr \<longleftrightarrow> distinct (tr_lru tr) \<and> tr_in_cache tr = set (tr_lru tr) \<and> length (tr_lru tr) \<le> max 1 cap"

lemma learned_victim_in: "ids \<noteq> [] \<Longrightarrow> fst (learned_choose_victim D obs ids lp) \<in> set ids"
  using choose_in_candidates [of ids D PointLookup obs "Learned lp"] by (simp add: case_prod_unfold Let_def)

lemma length_removeAll_in: "distinct xs \<Longrightarrow> x \<in> set xs \<Longrightarrow> Suc (length (removeAll x xs)) = length xs"
  by (metis One_nat_def Suc_pred distinct_remove1_removeAll length_pos_if_in_set length_remove1)

lemma trainer_access_ok:
  assumes "trainer_ok cap tr"
  shows "trainer_ok cap (trainer_access D cap pid tr)"
proof -
  have d: "distinct (tr_lru tr)" "tr_in_cache tr = set (tr_lru tr)" "length (tr_lru tr) \<le> max 1 cap"
    using assms by (simp_all add: trainer_ok_def)
  consider (hit) "pid \<in> set (tr_lru tr)" | (room) "pid \<notin> set (tr_lru tr)" "length (tr_lru tr) < cap"
    | (full) "pid \<notin> set (tr_lru tr)" "cap \<le> length (tr_lru tr)" by linarith
  then show ?thesis
  proof cases
    case hit
    then show ?thesis
      using d length_removeAll_in [OF d(1) hit] by (auto simp: trainer_access_def trainer_ok_def distinct_removeAll)
  next
    case room
    with d show ?thesis by (simp add: trainer_access_def trainer_ok_def)
  next
    case full
    let ?ob = "record_page_access pid False (tr_observer tr)"
    obtain v policy where v: "learned_choose_victim D (\<lambda>_. ?ob) (rev (tr_lru tr)) (tr_policy tr) = (v, policy)" by fastforce
    have len: "Suc (length (removeAll v (tr_lru tr))) \<le> max 1 cap"
    proof (cases "tr_lru tr = []")
      case False
      then have "v \<in> set (tr_lru tr)" using learned_victim_in [of "rev (tr_lru tr)" D] v by (metis fst_conv rev_is_Nil_conv set_rev)
      then show ?thesis using length_removeAll_in [OF d(1)] d(3) by simp
    qed simp
    have "trainer_access D cap pid tr =
        tr\<lparr>tr_observer := ?ob, tr_accesses := tr_accesses tr + 1, tr_policy := policy,
           tr_lru := pid # removeAll v (tr_lru tr), tr_in_cache := insert pid (set (tr_lru tr) - {v})\<rparr>"
      using full v d(2) by (simp add: trainer_access_def Let_def)
    then show ?thesis using d(1) full(1) len by (simp add: trainer_ok_def distinct_removeAll)
  qed
qed

lemma train_ok: "trainer_ok cap tr \<Longrightarrow> trainer_ok cap (train D cap ids tr)"
  by (induction ids arbitrary: tr) (simp_all add: train_def trainer_access_ok)

lemma trainer_ok_new: "trainer_ok cap (trainer_new D ring horizon lr)"
  by (simp add: trainer_ok_def trainer_new_def)

section \<open>The buffer pool on the same trace\<close>

text \<open>The learned policy looks at no observer but its own.\<close>

lemma learned_own_observer:
  assumes "lp_observer lp = Some a"
  shows "learned_choose_victim D obs ids lp = learned_choose_victim D (\<lambda>_. obs a) ids lp"
proof -
  have "lp_observer (feedback D ob lp) = Some a" for ob
    using assms by (simp add: feedback_def update_weights_def Let_def split: option.split)
  then have "extract_features D (lp_observer (feedback D (obs a) lp)) obs =
      extract_features D (lp_observer (feedback D (obs a) lp)) (\<lambda>_. obs a)"
    by (simp add: extract_features_def fun_eq_iff)
  then show ?thesis using assms by (simp add: learned_choose_victim_def)
qed

lemma learned_keeps_observer:
  "lp_observer (snd (learned_choose_victim D obs ids lp)) = lp_observer lp"
  by (auto simp: learned_choose_victim_def feedback_def update_weights_def Let_def split: option.split prod.split)

definition simulates :: "'d page_policy visits \<Rightarrow> 'd trainer \<Rightarrow> bool" where
  "simulates v tr \<longleftrightarrow> vs_lru v = tr_lru tr \<and> tr_in_cache tr = set (tr_lru tr) \<and> vs_observers v 0 = tr_observer tr \<and>
     vs_policy v = Some (Learned (tr_policy tr)) \<and> lp_observer (tr_policy tr) = Some 0"

lemma simulates_access:
  assumes "simulates v tr"
  shows "simulates (visit (choose_victim D) hint (Some 0) cap pid v) (trainer_access D cap pid tr)"
proof -
  have s: "vs_lru v = tr_lru tr" "tr_in_cache tr = set (tr_lru tr)" "vs_observers v 0 = tr_observer tr"
    "vs_policy v = Some (Learned (tr_policy tr))" "lp_observer (tr_policy tr) = Some 0"
    using assms by (simp_all add: simulates_def)
  consider (hit) "pid \<in> set (tr_lru tr)" | (room) "pid \<notin> set (tr_lru tr)" "length (tr_lru tr) < cap"
    | (full) "pid \<notin> set (tr_lru tr)" "cap \<le> length (tr_lru tr)" by linarith
  then show ?thesis
  proof cases
    case hit
    then show ?thesis
      using s visit_hit [of pid v "choose_victim D" hint "Some 0" cap]
      by (auto simp: simulates_def trainer_access_def observe_at_def)
  next
    case room
    then show ?thesis
      using s visit_room [of pid v cap "choose_victim D" hint "Some 0"]
      by (simp add: simulates_def trainer_access_def observe_at_def)
  next
    case full
    let ?ob = "record_page_access pid False (tr_observer tr)"
    let ?obs = "observe_at (Some 0) pid False (vs_observers v)"
    obtain x policy where x: "learned_choose_victim D (\<lambda>_. ?ob) (rev (tr_lru tr)) (tr_policy tr) = (x, policy)" by fastforce
    have "?obs 0 = ?ob" using s(3) by (simp add: observe_at_def)
    then have "learned_choose_victim D ?obs (rev (vs_lru v)) (tr_policy tr) = (x, policy)"
      using learned_own_observer [OF s(5), of D ?obs "rev (tr_lru tr)"] x s(1) by simp
    then have "pick_victim (choose_victim D) hint ?obs (rev (vs_lru v)) (vs_policy v) = (x, Some (Learned policy))"
      using s(4) by (simp add: pick_victim_def)
    from visit_evict [OF _ _ this, of cap] full s(1)
    have v: "visit (choose_victim D) hint (Some 0) cap pid v = v\<lparr>vs_lru := pid # removeAll x (tr_lru tr),
        vs_observers := ?obs, vs_policy := Some (Learned policy), vs_misses := vs_misses v + 1\<rparr>" by simp
    have tr: "trainer_access D cap pid tr =
        tr\<lparr>tr_observer := ?ob, tr_accesses := tr_accesses tr + 1, tr_policy := policy,
           tr_lru := pid # removeAll x (tr_lru tr), tr_in_cache := insert pid (set (tr_lru tr) - {x})\<rparr>"
      using full x s(2) by (simp add: trainer_access_def Let_def)
    have "lp_observer policy = Some 0"
      using learned_keeps_observer [of D "\<lambda>_. ?ob" "rev (tr_lru tr)" "tr_policy tr"] x s(5) by simp
    then show ?thesis using \<open>?obs 0 = ?ob\<close> by (simp add: simulates_def v tr)
  qed
qed

lemma simulates_train:
  "simulates v tr \<Longrightarrow> simulates (visit_all (choose_victim D) hint (Some 0) cap ids v) (train D cap ids tr)"
  by (induction ids arbitrary: v tr) (simp_all add: train_def simulates_access)

lemma simulates_new:
  "obs 0 = observer_new ring_cap \<Longrightarrow>
   simulates (visits_new obs (Some (Learned (learned_new D (Some 0) horizon lr)))) (trainer_new D ring_cap horizon lr)"
  by (simp add: simulates_def visits_new_def trainer_new_def learned_new_def)

text \<open>A pool that is used like the trainer's cache, at the end of a trace.\<close>

lemma trained_pool:
  assumes "mf_ok file sys" and "\<forall>p \<in> set ids. p < mf_page_count file" and "0 < cap" and "obs 0 = observer_new ring_cap"
  obtains pc where "visit_pages (choose_victim D) hint ids
      (cache_new file sys obs cap (Some 0) (Some (Learned (learned_new D (Some 0) horizon lr)))) = (Inr (), pc)"
    "cache_ok pc" "dl_values (pc_lru_list pc) = tr_lru (train D cap ids (trainer_new D ring_cap horizon lr))"
    "pc_observers pc 0 = tr_observer (train D cap ids (trainer_new D ring_cap horizon lr))"
    "pc_policy pc = Some (Learned (tr_policy (train D cap ids (trainer_new D ring_cap horizon lr))))"
    "tr_in_cache (train D cap ids (trainer_new D ring_cap horizon lr)) = set (dl_values (pc_lru_list pc))"
proof -
  let ?tr = "train D cap ids (trainer_new D ring_cap horizon lr)"
  let ?v = "visit_all (choose_victim D) hint (Some 0) cap ids (visits_new obs (Some (Learned (learned_new D (Some 0) horizon lr))))"
  from policy.quiet_visits [OF quiet_new [OF assms(1)] assms(2,3)] obtain pc where
    "visit_pages (choose_victim D) hint ids
      (cache_new file sys obs cap (Some 0) (Some (Learned (learned_new D (Some 0) horizon lr)))) = (Inr (), pc)"
    "quiet file (Some 0) cap pc ?v" by blast
  moreover have "simulates ?v ?tr" by (rule simulates_train [OF simulates_new [of obs ring_cap D horizon lr, OF assms(4)]])
  ultimately show thesis by (intro that [of pc]) (simp_all add: quiet_def simulates_def counters_def)
qed

section \<open>The policy file\<close>

lemma lines_of_line: "\<forall>c \<in> set l. c \<noteq> CHR 0x0A \<Longrightarrow> lines_of (l @ CHR 0x0A # s) = l # lines_of s"
  by (induction l) simp_all

lemma load_policy_text:
  assumes pr: "\<And>x. pr x \<noteq> [] \<and> hd (pr x) \<noteq> CHR ''#'' \<and> CHR 0x0A \<notin> set (pr x)"
    and rd: "\<And>a b c. d_read3 D (pr a @ '' '' @ pr b @ '' '' @ pr c) = Some (q a, q b, q c)"
  shows "load_weights_from_file D (Some (policy_text pr tr)) =
    Some (q (w_recency (lp_weights (tr_policy tr))), q (w_count (lp_weights (tr_policy tr))), q (w_scan (lp_weights (tr_policy tr))))"
proof -
  let ?w = "lp_weights (tr_policy tr)"
  let ?head = "''# Learned eviction weights (trace accesses='' @ decimal (unat (tr_accesses tr)) @ '')''"
  let ?line = "pr (w_recency ?w) @ '' '' @ pr (w_count ?w) @ '' '' @ pr (w_scan ?w)"
  have content: "policy_text pr tr = ?head @ CHR 0x0A # ?line @ CHR 0x0A # []"
    by (simp add: policy_text_def get_weights_def)
  have "CHR 0x0A \<notin> set (decimal n)" for n using decimal_digits [of n] digit_not_other by blast
  then have head: "\<forall>c \<in> set ?head. c \<noteq> CHR 0x0A" by auto
  have line: "\<forall>c \<in> set ?line. c \<noteq> CHR 0x0A" using pr by auto
  have "lines_of (policy_text pr tr) = [?head, ?line]"
    unfolding content lines_of_line [OF head] lines_of_line [OF line] by simp
  moreover have "?line \<noteq> []" "hd ?line \<noteq> CHR ''#''" using pr [of "w_recency ?w"] by simp_all
  ultimately show ?thesis
    using rd [of "w_recency ?w" "w_count ?w" "w_scan ?w"] by (simp add: load_weights_from_file_def)
qed

section \<open>Properties\<close>

text \<open>
  C17: The offline simulation is the real buffer pool. On every trace of pages of a file, a page cache with the
  learned policy, in which each page is fetched and released in turn, ends with the same recency order, the same
  cached pages, the same observer and the same weights as the trainer with the same capacity.
\<close>

theorem trainer_simulates_page_cache:
  assumes "mf_ok file sys" and "\<forall>p \<in> set ids. p < mf_page_count file" and "0 < cap" and "obs 0 = observer_new ring_cap"
  shows "\<exists>pc. visit_pages (choose_victim D) hint ids
      (cache_new file sys obs cap (Some 0) (Some (Learned (learned_new D (Some 0) horizon lr)))) = (Inr (), pc) \<and>
    (case train D cap ids (trainer_new D ring_cap horizon lr) of tr \<Rightarrow>
      dl_values (pc_lru_list pc) = tr_lru tr \<and> dom (pc_page_map pc) = tr_in_cache tr \<and>
      pc_observers pc 0 = tr_observer tr \<and> pc_policy pc = Some (Learned (tr_policy tr)))"
proof -
  from trained_pool [where D = D and hint = hint and horizon = horizon and lr = lr and cap = cap and ids = ids and obs = obs
      and ring_cap = ring_cap, OF assms]
  obtain pc where pc: "visit_pages (choose_victim D) hint ids
      (cache_new file sys obs cap (Some 0) (Some (Learned (learned_new D (Some 0) horizon lr)))) = (Inr (), pc)" "cache_ok pc"
    "dl_values (pc_lru_list pc) = tr_lru (train D cap ids (trainer_new D ring_cap horizon lr))"
    "pc_observers pc 0 = tr_observer (train D cap ids (trainer_new D ring_cap horizon lr))"
    "pc_policy pc = Some (Learned (tr_policy (train D cap ids (trainer_new D ring_cap horizon lr))))"
    "tr_in_cache (train D cap ids (trainer_new D ring_cap horizon lr)) = set (dl_values (pc_lru_list pc))" by blast
  with list_okD(3) [OF cache_okD(4) [OF pc(2)]] show ?thesis by (intro exI [of _ pc]) simp
qed

lemma trainer_simulates_page_cache_witness:
  "\<exists>pc. visit_pages (choose_victim int_ops) PointLookup [0, 1, 0, 2, 1]
      (cache_new three_pages three_pages_os (\<lambda>_. observer_new 4) 2 (Some 0) (Some (Learned (learned_new int_ops (Some 0) 1 1)))) =
      (Inr (), pc) \<and>
    pc_policy pc = Some (Learned (tr_policy (train int_ops 2 [0, 1, 0, 2, 1] (trainer_new int_ops 4 1 1))))"
proof -
  have "\<forall>p \<in> set [0, 1, 0, 2, 1]. p < mf_page_count three_pages" by (simp add: three_pages_def)
  from trainer_simulates_page_cache [OF three_pages_ok this, of 2 "\<lambda>_. observer_new 4" 4 int_ops PointLookup 1 1]
  show ?thesis by auto
qed

text \<open>
  C20: What the trainer learns from a trace file is what the loaded policy scores with, up to the printing of
  the weights: when the trainer, with its default parameters, is run on the decimal ids of a trace, it writes a file from which
  \<open>LoadedLearnedPageEvictionPolicy\<close> reads the weights that the learned policy has after the same accesses to a real
  page cache of 64 frames, each rounded (\<open>q\<close>) as its printed form is.
\<close>

theorem trained_weights_are_loaded:
  assumes "files trace = Some (print_ids ids)"
    and "mf_ok file sys" and "\<forall>p \<in> set ids. p < mf_page_count file" and "obs 0 = observer_new 256"
    and "\<And>x. pr x \<noteq> [] \<and> hd (pr x) \<noteq> CHR ''#'' \<and> CHR 0x0A \<notin> set (pr x)"
    and "\<And>a b c. d_read3 D (pr a @ '' '' @ pr b @ '' '' @ pr c) = Some (q a, q b, q c)"
    and "lr = d_div D (d_of_int D 5) (d_of_int D 100)"
  shows "\<exists>files' pc lp. trainer_main D pr rd [app, trace, out] True files = (Some 0, files') \<and>
    visit_pages (choose_victim D) hint ids
      (cache_new file sys obs 64 (Some 0) (Some (Learned (learned_new D (Some 0) 64 lr)))) = (Inr (), pc) \<and>
    pc_policy pc = Some (Learned lp) \<and>
    ld_weights (loaded_new D observer (files' out)) =
      \<lparr>w_recency = q (w_recency (lp_weights lp)), w_count = q (w_count (lp_weights lp)), w_scan = q (w_scan (lp_weights lp))\<rparr>"
proof -
  let ?tr = "train D 64 ids (trainer_new D 256 64 lr)"
  let ?pc = "cache_new file sys obs 64 (Some 0) (Some (Learned (learned_new D (Some 0) 64 lr)))"
  have "(0 :: nat) < 64" by simp
  from trained_pool [where D = D and hint = hint and horizon = 64 and lr = lr and cap = 64 and ids = ids and obs = obs
      and ring_cap = 256, OF assms(2,3) this assms(4)]
  obtain pc where pc: "visit_pages (choose_victim D) hint ids ?pc = (Inr (), pc)" "pc_policy pc = Some (Learned (tr_policy ?tr))"
    by blast
  have main: "trainer_main D pr rd [app, trace, out] True files = (Some 0, files(out \<mapsto> policy_text pr ?tr))"
    using assms(1,7) by (simp add: trainer_main_def read_print_ids Let_def)
  note load = load_policy_text [where pr = pr and D = D and q = q and tr = ?tr, OF assms(5,6)]
  show ?thesis
    by (rule exI [of _ "files(out \<mapsto> policy_text pr ?tr)"], rule exI [of _ pc], rule exI [of _ "tr_policy ?tr"])
      (simp add: main pc loaded_new_def load)
qed

text \<open>Integers as numbers, printed and read without loss.\<close>

definition int_text_ops :: "int double_ops" where
  "int_text_ops = int_ops\<lparr>d_read3 := (\<lambda>s. case scan_number s of None \<Rightarrow> None
     | Some (a, s1) \<Rightarrow> (case scan_number s1 of None \<Rightarrow> None
       | Some (b, s2) \<Rightarrow> (case scan_number s2 of None \<Rightarrow> None | Some (c, s3) \<Rightarrow> Some (a, b, c))))\<rparr>"

lemma read_printed_ints:
  "d_read3 int_text_ops (print_int a @ '' '' @ print_int b @ '' '' @ print_int c) = Some (a, b, c)"
proof -
  have sp: "\<not> is_digit (CHR '' '')" "is_space (CHR '' '')" by (simp_all add: is_digit_def is_space_def less_eq_char_def)
  have "scan_number (print_int a @ CHR '' '' # s) = Some (a, CHR '' '' # s)" for a s
    using scan_print_int [of "CHR '' '' # s" a] sp(1) by simp
  moreover have "scan_number (print_int c) = Some (c, [])" using scan_print_int [of "[]" c] by simp
  ultimately show ?thesis by (simp add: int_text_ops_def scan_spaces [OF sp(2)])
qed

lemma printed_int_line: "print_int x \<noteq> [] \<and> hd (print_int x) \<noteq> CHR ''#'' \<and> CHR 0x0A \<notin> set (print_int x)"
proof -
  have "\<not> is_digit (CHR ''#'')" "\<not> is_digit (CHR 0x0A)" by (simp_all add: is_digit_def less_eq_char_def)
  then show ?thesis using print_int_chars hd_in_set [of "print_int x"] by fastforce
qed

lemma trained_weights_are_loaded_witness:
  "\<exists>files' pc lp. trainer_main int_text_ops print_int (\<lambda>_. None) [''t'', ''trace'', ''policy''] True
      [''trace'' \<mapsto> print_ids [0, 1, 2, 0]] = (Some 0, files') \<and>
    visit_pages (choose_victim int_text_ops) PointLookup [0, 1, 2, 0] (cache_new three_pages three_pages_os
      (\<lambda>_. observer_new 256) 64 (Some 0) (Some (Learned (learned_new int_text_ops (Some 0) 64 0)))) = (Inr (), pc) \<and>
    pc_policy pc = Some (Learned lp) \<and>
    ld_weights (loaded_new int_text_ops None (files' ''policy'')) = lp_weights lp"
proof -
  have pages: "\<forall>p \<in> set [0, 1, 2, 0]. p < mf_page_count three_pages" by (simp add: three_pages_def)
  have rate: "0 = d_div int_text_ops (d_of_int int_text_ops 5) (d_of_int int_text_ops 100)"
    by (simp add: int_text_ops_def int_ops_def)
  from trained_weights_are_loaded [where files = "[''trace'' \<mapsto> print_ids [0, 1, 2, 0]]" and trace = "''trace''"
      and obs = "\<lambda>_. observer_new 256" and pr = print_int and D = int_text_ops and q = "\<lambda>x. x" and hint = PointLookup
      and rd = "\<lambda>_. None" and app = "''t''" and out = "''policy''" and observer = None,
      OF _ three_pages_ok pages refl printed_int_line read_printed_ints rate]
  show ?thesis by auto
qed

text \<open>
  The simulated cache never holds more pages than its capacity, each of them once, and its set names exactly
  the pages of its list; but a capacity of 0, which the command line accepts, is a capacity of one page.
\<close>

theorem trainer_cache_is_bounded:
  "(case train D cap ids (trainer_new D ring_cap horizon lr) of tr \<Rightarrow>
      distinct (tr_lru tr) \<and> tr_in_cache tr = set (tr_lru tr) \<and> length (tr_lru tr) \<le> max 1 cap) \<and>
   length (tr_lru (train D 0 (pid # ids) (trainer_new D ring_cap horizon lr))) = 1"
proof -
  have "trainer_ok 0 tr \<Longrightarrow> tr_lru (trainer_access D 0 p tr) \<noteq> []" for p and tr :: "'a trainer"
    by (auto simp: trainer_access_def Let_def split: prod.split)
  then have "tr_lru (train D 0 (pid # ids) tr) \<noteq> []" if "trainer_ok 0 tr" for tr
    using that
  proof (induction ids arbitrary: pid tr)
    case (Cons p ids)
    have "train D 0 (pid # p # ids) tr = train D 0 (p # ids) (trainer_access D 0 pid tr)" by (simp add: train_def)
    with Cons.IH [of "trainer_access D 0 pid tr" p] Cons.prems trainer_access_ok [OF Cons.prems(2)] show ?case by simp
  qed (simp add: train_def)
  from this [OF trainer_ok_new]
  have "1 \<le> length (tr_lru (train D 0 (pid # ids) (trainer_new D ring_cap horizon lr)))"
    by (simp add: Suc_le_eq)
  moreover have "trainer_ok c (train D c xs (trainer_new D ring_cap horizon lr))" for c xs
    by (rule train_ok [OF trainer_ok_new])
  then have "trainer_ok 0 (train D 0 (pid # ids) (trainer_new D ring_cap horizon lr))"
    "trainer_ok cap (train D cap ids (trainer_new D ring_cap horizon lr))" by blast+
  ultimately show ?thesis by (simp add: trainer_ok_def)
qed

end
