(* ===== verification/Eviction_Benchmark.thy ===== *)
theory Eviction_Benchmark
  imports Page_Visits
begin

text \<open>
  \<open>src/benchmarks/eviction_benchmark.cpp\<close>: the benchmark that compares the least recently used policy with the
  hint-aware one on a working set, a scan and the working set again. What it prints is proved.
\<close>

section \<open>The program\<close>

definition CACHE_CAPACITY :: nat where "CACHE_CAPACITY = 32"
definition WORKING_SET_PAGES :: nat where "WORKING_SET_PAGES = 8"
definition SCAN_LEAD_PAGES :: nat where "SCAN_LEAD_PAGES = 16"
definition SCAN_TAIL_PAGES :: nat where "SCAN_TAIL_PAGES = 80"
definition REPEAT_WORKING_SET :: nat where "REPEAT_WORKING_SET = 4"
definition BENCH_PATH :: string where "BENCH_PATH = ''eviction_bench.db''"

definition total_scan_pages :: nat where
  "total_scan_pages = SCAN_LEAD_PAGES + SCAN_TAIL_PAGES"

text \<open>The pages of a loop \<open>for (p = a; p < b; ++p)\<close>.\<close>

definition page_range :: "nat \<Rightarrow> nat \<Rightarrow> u32 list" where
  "page_range a b = map word_of_nat [a..<b]"

definition working_set :: "u32 list" where
  "working_set = concat (replicate REPEAT_WORKING_SET (page_range 0 WORKING_SET_PAGES))"

text \<open>The result and the thread's workload hint, which an exception leaves as it is.\<close>

definition run_workload ::
  "(workload_hint \<Rightarrow> observers \<Rightarrow> u32 list \<Rightarrow> 'p \<Rightarrow> u32 \<times> 'p) \<Rightarrow> bool \<Rightarrow> workload_hint \<Rightarrow> 'p page_cache \<Rightarrow>
   (unit result \<times> workload_hint) \<times> 'p page_cache" where
  "run_workload pick use_scan_hint_during_scan hint cache =
     (case visit_pages pick hint
             (working_set @ page_range WORKING_SET_PAGES (WORKING_SET_PAGES + SCAN_LEAD_PAGES) @ working_set) cache of
        (Inl e, cache1) \<Rightarrow> ((Inl e, hint), cache1)
      | (Inr _, cache1) \<Rightarrow>
          let hint1 = (if use_scan_hint_during_scan then Scan else hint)
          in case visit_pages pick hint1
                   (page_range (WORKING_SET_PAGES + SCAN_LEAD_PAGES) (WORKING_SET_PAGES + total_scan_pages)) cache1 of
               (Inl e, cache2) \<Rightarrow> ((Inl e, hint1), cache2)
             | (Inr _, cache2) \<Rightarrow>
                 let hint2 = (if use_scan_hint_during_scan then PointLookup else hint1);
                     (r, cache3) = visit_pages pick hint2 working_set cache2
                 in ((r, hint2), cache3))"

text \<open>
  \<open>main\<close>: the hits and misses of both runs, or an exception that nobody catches. \<open>observer_lru\<close> is object 0 and
  \<open>observer_hint\<close> object 1; \<open>fd\<close> to \<open>remap\<close> are the results of the system calls.
\<close>

definition eviction_benchmark ::
  "'d double_ops \<Rightarrow> int \<Rightarrow> bool \<Rightarrow> bool \<Rightarrow> bool \<Rightarrow> bool \<Rightarrow> os \<Rightarrow> (nat \<times> nat) list result \<times> os" where
  "eviction_benchmark D fd stat_ok mmap_ok truncate_ok remap_ok sys =
     (case mf_new BENCH_PATH fd stat_ok mmap_ok (os_remove BENCH_PATH sys) of
        (Inl e, sys1) \<Rightarrow> (Inl e, sys1)
      | (Inr file0, sys1) \<Rightarrow>
          (case mf_grow_file (word_of_nat (WORKING_SET_PAGES + total_scan_pages + 1)) truncate_ok remap_ok file0 sys1 of
             (Inl e, _, sys2) \<Rightarrow> (Inl e, sys2)
           | (Inr _, file, sys2) \<Rightarrow>
               (case run_workload (choose_victim D) False initial_workload_hint
                       (cache_new file sys2 (\<lambda>_. observer_new 256) CACHE_CAPACITY (Some 0) (Some LruPage)) of
                  ((Inl e, _), cache) \<Rightarrow> (Inl e, pc_os cache)
                | ((Inr _, hint), cache) \<Rightarrow>
                    (case run_workload (choose_victim D) True hint
                            (cache_new (pc_file cache) (pc_os cache) (pc_observers cache) CACHE_CAPACITY (Some 1)
                               (Some (HintAware (Some 1)))) of
                       ((Inl e, _), cache') \<Rightarrow> (Inl e, pc_os cache')
                     | ((Inr _, _), cache') \<Rightarrow>
                         (Inr [(get_hits cache, get_misses cache), (get_hits cache', get_misses cache')],
                          mf_destroy (pc_file cache') (os_remove BENCH_PATH (pc_os cache')))))))"

section \<open>Ranges of pages\<close>

lemma page_range_simps [simp]:
  "length (page_range a b) = b - a" "page_range a b = [] \<longleftrightarrow> b \<le> a" "set (page_range a b) = word_of_nat ` {a..<b}"
  by (auto simp: page_range_def)

lemma small_word_eq: "a < 1000 \<Longrightarrow> b < 1000 \<Longrightarrow> (word_of_nat a :: u32) = word_of_nat b \<longleftrightarrow> a = b"
  by (auto simp: word_of_nat_eq_iff take_bit_nat_eq_self)

lemma small_inj: "b \<le> 1000 \<Longrightarrow> inj_on (word_of_nat :: nat \<Rightarrow> u32) {a..<b}"
  by (auto intro!: inj_onI simp: small_word_eq)

lemma distinct_page_range: "b \<le> 1000 \<Longrightarrow> distinct (page_range a b)"
  using small_inj [of b a] by (simp add: page_range_def distinct_map)

lemma page_range_disjoint: "b \<le> c \<Longrightarrow> d \<le> 1000 \<Longrightarrow> set (page_range a b) \<inter> set (page_range c d) = {}"
  by (auto simp: small_word_eq)

lemma page_range_append: "a \<le> b \<Longrightarrow> b \<le> c \<Longrightarrow> page_range a b @ page_range b c = page_range a c"
  using upt_add_eq_append [of a b "c - b"] by (simp add: page_range_def flip: map_append)

lemma take_page_range: "take k (page_range a b) = page_range a (min (a + k) b)"
  by (simp add: page_range_def take_map take_upt min_def)

lemma take_rev_page_range: "take k (rev (page_range a b)) = rev (page_range (max a (b - k)) b)"
proof -
  have "a + (b - (a + k)) = max a (b - k)" by arith
  then show ?thesis by (simp add: page_range_def rev_map [symmetric] take_rev drop_map)
qed

lemma last_rev_page_range: "a < b \<Longrightarrow> last (rev (page_range a b)) = word_of_nat a"
  by (simp add: page_range_def last_rev hd_map)

lemma distinct_count_list: "distinct xs \<Longrightarrow> count_list xs x = (if x \<in> set xs then 1 else 0)"
  by (induction xs) auto

lemma count_page_range:
  "x < 1000 \<Longrightarrow> b \<le> 1000 \<Longrightarrow> count_list (page_range a b) (word_of_nat x) = (if a \<le> x \<and> x < b then 1 else 0)"
  using distinct_page_range [of b a] by (auto simp: distinct_count_list small_word_eq image_iff)

section \<open>Phases of the workload\<close>

text \<open>How the pool stands: its pages, its counters, and what its observer has been told.\<close>

definition stands ::
  "nat \<Rightarrow> 'p option \<Rightarrow> u32 list \<Rightarrow> nat \<Rightarrow> nat \<Rightarrow> u32 list \<Rightarrow> 'p visits \<Rightarrow> bool" where
  "stands a policy lru hits misses seen v \<longleftrightarrow> vs_lru v = lru \<and> vs_policy v = policy \<and> vs_hits v = hits \<and> vs_misses v = misses \<and>
     (\<exists>evs. vs_observers v a = observe_all evs (observer_new 256) \<and> map fst evs = seen)"

lemma stands_observed:
  assumes "vs_observers v a = observe_all evs (observer_new 256)" and "map fst evs = seen"
  shows "\<exists>evs'. observe_list (Some a) (map (\<lambda>p. (p, hit)) ps) (vs_observers v) a = observe_all evs' (observer_new 256) \<and>
    map fst evs' = seen @ ps"
  using assms
  by (intro exI [of _ "evs @ map (\<lambda>p. (p, hit)) ps"]) (simp add: observe_list_own observe_all_append comp_def)

lemma stands_cached:
  assumes "stands a policy lru hits misses seen v" and "distinct ps" and "set ps \<subseteq> set lru"
  shows "stands a policy (rev ps @ filter (\<lambda>q. q \<notin> set ps) lru) (hits + length ps) misses (seen @ ps)
    (visit_all pick hint (Some a) cap ps v)"
  using assms visit_cached [of ps v pick hint "Some a" cap] stands_observed [of v a _ seen True ps]
  by (auto simp: stands_def)

lemma stands_new:
  assumes "stands a policy lru hits misses seen v" and "distinct ps" and "set ps \<inter> set lru = {}" and "distinct lru"
    and "length lru \<le> cap" and "0 < cap" and "gives_up_oldest pick hint (Some a) cap ps v"
  shows "stands a policy (take cap (rev ps @ lru)) hits (misses + length ps) (seen @ ps)
    (visit_all pick hint (Some a) cap ps v)"
  using assms visit_new [of ps v cap pick hint "Some a"] stands_observed [of v a _ seen False ps]
  by (auto simp: stands_def simp del: take_append)

text \<open>The working set once more, when it is in the pool.\<close>

lemma stands_again:
  assumes "stands a policy (rev ps @ lru) hits misses seen v" and "distinct ps" and "set ps \<inter> set lru = {}"
  shows "stands a policy (rev ps @ lru) (hits + n * length ps) misses (seen @ concat (replicate n ps))
    (visit_all pick hint (Some a) cap (concat (replicate n ps)) v)"
  using assms(1)
proof (induction n arbitrary: v hits seen)
  case (Suc n)
  have "filter (\<lambda>q. q \<notin> set ps) (rev ps @ lru) = lru"
    using assms(3) by (auto simp: filter_empty_conv filter_id_conv)
  then have "stands a policy (rev ps @ lru) (hits + length ps) misses (seen @ ps) (visit_all pick hint (Some a) cap ps v)"
    using stands_cached [OF Suc.prems assms(2), of pick hint cap] by simp
  from Suc.IH [OF this] show ?case by (simp add: visit_all_append algebra_simps)
qed (simp add: stands_def)

section \<open>The choices of the hint-aware policy\<close>

lemma observed_pages:
  assumes "ob = observe_all evs (observer_new 256)" and "length evs \<le> 256"
  shows "recent_set ob = set (map fst evs)" "get_access_count p ob = count_list (map fst evs) p"
proof -
  have ok: "observer_ok ob" "ao_capacity ob = 256" "window ob = map event_of evs"
    using observe_all_facts [of evs 256] assms by (simp_all add: last_n_def)
  then show "get_access_count p ob = count_list (map fst evs) p" by (simp add: access_count_window)
  show "recent_set ob = set (map fst evs)"
    using assms(2) by (simp add: recent_set_def get_recent_page_ids_def recent_accesses_window [OF ok(1)] ok(2,3))
qed

text \<open>
  A page that has a neighbour among the recent accesses counts as part of a run, whether or not it belongs to a scan:
  the scan-resistant choice is then the oldest page.
\<close>

lemma oldest_in_run:
  "ids \<noteq> [] \<Longrightarrow> in_run recent (hd ids) \<Longrightarrow> first_in_run recent ids (hd ids) = hd ids"
  by (cases ids) auto

lemma oldest_is_rarest:
  assumes "ids \<noteq> []" and "\<forall>p \<in> set ids. get_access_count (hd ids) ob \<le> get_access_count p ob"
  shows "least_count ob ids = hd ids"
proof -
  have "least_loop (<) m ps best = best" if "\<forall>p \<in> set ps. snd best \<le> m p" for m ps and best :: "u32 \<times> nat"
    using that by (induction ps) auto
  from this [of "tl ids" "(hd ids, get_access_count (hd ids) ob)"] assms show ?thesis
    by (cases ids) (auto simp: least_count_def)
qed

lemma hint_aware_gives_up_oldest:
  assumes v: "stands a (Some (HintAware (Some a))) lru hits misses seen v" and cap: "0 < cap" and len: "length seen + length ps \<le> 256"
    and oldest: "\<And>k x. k < length ps \<Longrightarrow> cap \<le> k + length lru \<Longrightarrow> x = last (take cap (rev (take k ps) @ lru)) \<Longrightarrow>
      (if hint = Scan then in_run (set (seen @ take (Suc k) ps)) x
       else \<forall>p \<in> set (take cap (rev (take k ps) @ lru)). count_list (seen @ take (Suc k) ps) x \<le> count_list (seen @ take (Suc k) ps) p)"
  shows "gives_up_oldest (choose_victim D) hint (Some a) cap ps v"
  unfolding gives_up_oldest_def
proof (intro allI impI)
  fix k assume k: "k < length ps" "cap \<le> k + length (vs_lru v)"
  let ?ids = "take cap (rev (take k ps) @ lru)"
  have lru: "vs_lru v = lru" "vs_policy v = Some (HintAware (Some a))" using v by (simp_all add: stands_def)
  obtain evs where evs: "vs_observers v a = observe_all evs (observer_new 256)" "map fst evs = seen"
    using v by (auto simp: stands_def)
  let ?evs = "evs @ map (\<lambda>p. (p, False)) (take (Suc k) ps)"
  let ?obs = "observe_list (Some a) (map (\<lambda>p. (p, False)) (take (Suc k) ps)) (vs_observers v)"
  have obs: "?obs a = observe_all ?evs (observer_new 256)" "map fst ?evs = seen @ take (Suc k) ps"
    using evs by (simp_all add: observe_list_own observe_all_append comp_def)
  have "length ?evs = length seen + Suc k" using evs(2) k(1) by (auto simp flip: evs(2))
  then have "length ?evs \<le> 256" using len k(1) by linarith
  note seen = observed_pages [OF obs(1) this, unfolded obs(2)]
  have ne: "rev ?ids \<noteq> []" "hd (rev ?ids) = last ?ids" using k cap lru(1) by (auto simp: hd_rev simp del: take_append)
  have "hint_aware_choose_victim hint (Some a) ?obs (rev ?ids) = last ?ids"
  proof (cases "hint = Scan")
    case True
    then show ?thesis
      using oldest [OF k(1) _ refl] k(2) lru(1) ne oldest_in_run [of "rev ?ids"] seen(1)
      by (auto simp: hint_aware_choose_victim_def simp del: take_append rev_append)
  next
    case False
    then show ?thesis
      using oldest [OF k(1) _ refl] k(2) lru(1) ne oldest_is_rarest [of "rev ?ids" "?obs a"] seen(2)
      by (auto simp: hint_aware_choose_victim_def simp del: take_append rev_append)
  qed
  then show "pick_victim (choose_victim D) hint ?obs (rev (take cap (rev (take k ps) @ vs_lru v))) (vs_policy v) =
      (last (take cap (rev (take k ps) @ vs_lru v)), vs_policy v)"
    by (simp add: pick_victim_def lru del: take_append rev_append)
qed

lemma lru_page_gives_up_oldest:
  assumes "stands a (Some LruPage) lru hits misses seen v" and "0 < cap"
  shows "gives_up_oldest (choose_victim D) hint (Some a) cap ps v"
  using assms
  by (auto simp: gives_up_oldest_def pick_victim_def stands_def lru_page_choose_victim_def hd_rev
      simp del: take_append rev_append)

section \<open>The workload\<close>

lemma roomy_gives_up_oldest:
  "length ps + length (vs_lru v) \<le> cap \<Longrightarrow> gives_up_oldest pick hint observer cap ps v"
  by (simp add: gives_up_oldest_def)

abbreviation lead_pages :: "u32 list" where
  "lead_pages \<equiv> page_range 8 24"

abbreviation tail_pages :: "u32 list" where
  "tail_pages \<equiv> page_range 24 104"

lemma working_set_passes: "working_set = page_range 0 8 @ concat (replicate 3 (page_range 0 8))"
  by (simp add: working_set_def REPEAT_WORKING_SET_def WORKING_SET_PAGES_def eval_nat_numeral)

lemma working_set_apart: "set (page_range 0 8) \<inter> set (page_range a b) = {}" if "8 \<le> a" "b \<le> 1000"
  using page_range_disjoint [OF that] .

text \<open>The pool after the first three loops, which fit into it.\<close>

lemma warm_pool:
  assumes "stands a policy [] 0 0 [] v"
  shows "stands a policy (rev (page_range 0 8) @ rev lead_pages) 56 24 (working_set @ lead_pages @ working_set)
    (visit_all pick hint (Some a) 32 (working_set @ lead_pages @ working_set) v)"
proof -
  let ?W = "page_range 0 8"
  note dW = distinct_page_range [of 8 0] and dL = distinct_page_range [of 24 8]
  have lru: "vs_lru v = lru" if "stands a policy lru h m s v" for lru h m s and v :: "'a visits"
    using that by (simp add: stands_def)
  define v1 where "v1 = visit_all pick hint (Some a) 32 ?W v"
  have "stands a policy (take 32 (rev ?W @ [])) 0 (0 + length ?W) ([] @ ?W) v1"
    unfolding v1_def
    by (rule stands_new [OF assms]) (use dW lru [OF assms] in \<open>simp_all add: roomy_gives_up_oldest\<close>)
  then have 1: "stands a policy (rev ?W @ []) 0 8 ?W v1" by simp
  define v2 where "v2 = visit_all pick hint (Some a) 32 (concat (replicate 3 ?W)) v1"
  have 2: "stands a policy (rev ?W) 24 8 working_set v2"
    using stands_again [OF 1, where n = 3 and pick = pick and hint = hint and cap = 32] dW
    by (simp add: v2_def working_set_passes)
  define v3 where "v3 = visit_all pick hint (Some a) 32 lead_pages v2"
  have "stands a policy (take 32 (rev lead_pages @ rev ?W)) 24 (8 + length lead_pages) (working_set @ lead_pages) v3"
    unfolding v3_def
    by (rule stands_new [OF 2]) (use dW dL lru [OF 2] working_set_apart [of 8 24] in
        \<open>simp_all add: roomy_gives_up_oldest Int_commute\<close>)
  then have 3: "stands a policy (rev lead_pages @ rev ?W) 24 24 (working_set @ lead_pages) v3" by simp
  define v4 where "v4 = visit_all pick hint (Some a) 32 ?W v3"
  have "filter (\<lambda>q. q \<notin> set ?W) (rev lead_pages @ rev ?W) = rev lead_pages"
    using working_set_apart [of 8 24] by (auto simp: filter_empty_conv filter_id_conv simp del: page_range_simps)
  then have 4: "stands a policy (rev ?W @ rev lead_pages) 32 24 (working_set @ lead_pages @ ?W) v4"
    using stands_cached [OF 3, of ?W pick hint 32] dW by (simp add: v4_def del: page_range_simps(3))
  have "stands a policy (rev ?W @ rev lead_pages) 56 24 (working_set @ lead_pages @ ?W @ concat (replicate 3 ?W))
      (visit_all pick hint (Some a) 32 (concat (replicate 3 ?W)) v4)"
    using stands_again [OF 4, where n = 3 and pick = pick and hint = hint and cap = 32] dW working_set_apart [of 8 24]
    by (simp del: page_range_simps(3))
  then show ?thesis
    by (simp add: visit_all_append v1_def v2_def v3_def v4_def working_set_passes)
qed

text \<open>The rest of the workload, for a policy that gives up the oldest page in both loops that evict.\<close>

lemma whole_workload:
  assumes v: "stands a policy [] 0 0 [] v"
    and scan: "\<And>v. stands a policy (rev (page_range 0 8) @ rev lead_pages) 56 24 (working_set @ lead_pages @ working_set) v \<Longrightarrow>
      gives_up_oldest pick hint1 (Some a) 32 tail_pages v"
    and again: "\<And>v. stands a policy (rev (page_range 72 104)) 56 104 (working_set @ lead_pages @ working_set @ tail_pages) v \<Longrightarrow>
      gives_up_oldest pick hint2 (Some a) 32 (page_range 0 8) v"
  shows "\<exists>lru seen. stands a policy lru 80 112 seen
    (visit_all pick hint2 (Some a) 32 working_set (visit_all pick hint1 (Some a) 32 tail_pages
      (visit_all pick hint (Some a) 32 (working_set @ lead_pages @ working_set) v)))"
proof -
  let ?W = "page_range 0 8"
  note dW = distinct_page_range [of 8 0] and dL = distinct_page_range [of 24 8]
  note warm = warm_pool [OF v, of pick hint]
  define v1 where "v1 = visit_all pick hint1 (Some a) 32 tail_pages
      (visit_all pick hint (Some a) 32 (working_set @ lead_pages @ working_set) v)"
  have "set tail_pages \<inter> set (rev ?W @ rev lead_pages) = {}" "distinct (rev ?W @ rev lead_pages)"
    using page_range_disjoint [of 8 24 104 0] page_range_disjoint [of 24 24 104 8] page_range_disjoint [of 8 8 24 0] dW dL
    by (auto simp del: page_range_simps)
  then have "stands a policy (take 32 (rev tail_pages @ rev ?W @ rev lead_pages)) 56 (24 + length tail_pages)
      ((working_set @ lead_pages @ working_set) @ tail_pages) v1"
    unfolding v1_def by (intro stands_new [OF warm] scan [OF warm] distinct_page_range) simp_all
  then have 1: "stands a policy (rev (page_range 72 104)) 56 104 (working_set @ lead_pages @ working_set @ tail_pages) v1"
    using take_rev_page_range [of 32 24 104] by simp
  define v2 where "v2 = visit_all pick hint2 (Some a) 32 ?W v1"
  have "stands a policy (take 32 (rev ?W @ rev (page_range 72 104))) 56 (104 + length ?W)
      ((working_set @ lead_pages @ working_set @ tail_pages) @ ?W) v2"
    unfolding v2_def
    by (intro stands_new [OF 1] again [OF 1] distinct_page_range)
      (use working_set_apart [of 72 104] distinct_page_range [of 104 72] in \<open>simp_all del: page_range_simps(3)\<close>)
  then have 2: "stands a policy (rev ?W @ rev (page_range 80 104)) 56 112
      (working_set @ lead_pages @ working_set @ tail_pages @ ?W) v2"
    using take_rev_page_range [of 24 72 104] by simp
  have "stands a policy (rev ?W @ rev (page_range 80 104)) (56 + 3 * length ?W) 112
      ((working_set @ lead_pages @ working_set @ tail_pages @ ?W) @ concat (replicate 3 ?W))
      (visit_all pick hint2 (Some a) 32 (concat (replicate 3 ?W)) v2)"
    by (rule stands_again [OF 2 dW]) (use working_set_apart [of 80 104] in \<open>simp_all del: page_range_simps(3)\<close>)
  then show ?thesis
    unfolding v2_def v1_def working_set_passes [symmetric]
    by (intro exI) (simp add: visit_all_append working_set_passes del: append_assoc)
qed

text \<open>Both policies of the benchmark do.\<close>

lemma in_run_of_range:
  assumes "q < n" and "n < 1000"
  shows "in_run (word_of_nat ` {0..<Suc n}) (word_of_nat q)"
proof -
  have "(word_of_nat q :: u32) + 1 = word_of_nat (Suc q)" by simp
  with assms(1) show ?thesis by (auto simp: in_run_def image_iff intro!: bexI [of _ "Suc q"])
qed

lemma seen_pages: "set working_set = word_of_nat ` {0..<8}"
  by (simp add: working_set_def REPEAT_WORKING_SET_def WORKING_SET_PAGES_def)

lemma hint_aware_scan:
  assumes v: "stands a (Some (HintAware (Some a))) (rev (page_range 0 8) @ rev lead_pages) 56 24
      (working_set @ lead_pages @ working_set) v"
  shows "gives_up_oldest (choose_victim D) Scan (Some a) 32 tail_pages v"
proof (rule hint_aware_gives_up_oldest [OF v], goal_cases)
  case (3 k x)
  have "{0..<8} \<union> {8..<24} = {0..<24 :: nat}" by auto
  then have seen: "set (working_set @ lead_pages @ working_set @ page_range 24 (24 + Suc k)) = word_of_nat ` {0..<Suc (24 + k)}"
    by (auto simp: seen_pages image_iff) (metis atLeastLessThan_iff le0 not_le_imp_less)+
  have "x \<in> set (take 32 (rev (take k tail_pages) @ rev (page_range 0 8) @ rev lead_pages))"
    unfolding 3(3) by (rule last_in_set) auto
  then have "x \<in> word_of_nat ` {0..<24 + k}"
    using 3(1) by (auto simp: take_page_range dest!: in_set_takeD)
  then obtain q where "x = word_of_nat q" "q < 24 + k" by auto
  with in_run_of_range [of q "24 + k"] 3(1) show ?case
    using seen by (simp add: take_page_range)
qed (simp_all add: working_set_def REPEAT_WORKING_SET_def WORKING_SET_PAGES_def eval_nat_numeral)

text \<open>When the working set comes back, every page of the scan has been accessed once.\<close>

lemma count_working_set: "count_list working_set (word_of_nat x) = (if x < 8 then 4 else 0)" if "x < 1000"
  using that count_page_range [OF that, of 8 0]
  by (simp add: working_set_def REPEAT_WORKING_SET_def WORKING_SET_PAGES_def eval_nat_numeral)

lemma hint_aware_again:
  assumes v: "stands a (Some (HintAware (Some a))) (rev (page_range 72 104)) 56 104
      (working_set @ lead_pages @ working_set @ tail_pages) v"
  shows "gives_up_oldest (choose_victim D) PointLookup (Some a) 32 (page_range 0 8) v"
proof (rule hint_aware_gives_up_oldest [OF v], goal_cases)
  case (3 k x)
  have k: "k < 8" using 3(1) by simp
  have ids: "take 32 (rev (take k (page_range 0 8)) @ rev (page_range 72 104)) =
      rev (page_range 0 k) @ rev (page_range (72 + k) 104)"
    using k take_rev_page_range [of "32 - k" 72 104] by (simp add: take_page_range max_def)
  have x: "x = word_of_nat (72 + k)"
    unfolding 3(3) ids using k last_rev_page_range [of "72 + k" 104] by simp
  let ?n = "count_list ((working_set @ lead_pages @ working_set @ tail_pages) @ take (Suc k) (page_range 0 8))"
  have "?n x = 1"
    using k count_working_set [of "72 + k"] count_page_range [of "72 + k" 24 8] count_page_range [of "72 + k" 104 24]
      count_page_range [of "72 + k" "Suc k" 0]
    by (simp add: x take_page_range del: of_nat_add)
  moreover have "1 \<le> ?n q" if "q \<in> set (rev (page_range 0 k) @ rev (page_range (72 + k) 104))" for q
  proof -
    have "q \<in> set (page_range 0 8) \<or> q \<in> set tail_pages" using that k by auto
    then have "q \<in> set working_set \<or> q \<in> set tail_pages" by (simp add: seen_pages)
    then show ?thesis by (auto simp: Suc_le_eq count_list_0_iff simp flip: neq0_conv simp del: page_range_simps(3))
  qed
  ultimately show ?case by (simp add: ids del: take_append rev_append)
qed (simp_all add: working_set_def REPEAT_WORKING_SET_def WORKING_SET_PAGES_def eval_nat_numeral)

section \<open>The benchmark on the buffer pool\<close>

lemma run_workload_quiet:
  assumes quiet: "quiet file (Some a) 32 pc v" and pages: "104 < unat (mf_page_count file)"
    and hints: "hint1 = (if use then Scan else hint)" "hint2 = (if use then PointLookup else hint1)"
  shows "\<exists>pc'. run_workload (choose_victim D) use hint pc = ((Inr (), hint2), pc') \<and>
    quiet file (Some a) 32 pc' (visit_all (choose_victim D) hint2 (Some a) 32 working_set
      (visit_all (choose_victim D) hint1 (Some a) 32 tail_pages
        (visit_all (choose_victim D) hint (Some a) 32 (working_set @ lead_pages @ working_set) v)))"
proof -
  have "word_of_nat p < mf_page_count file" if "p < 104" for p
    using that pages by (simp add: word_less_nat_alt unat_of_nat take_bit_nat_eq_self unsigned_of_nat)
  then have range: "\<forall>p \<in> set (page_range b c). p < mf_page_count file" if "c \<le> 104" for b c
    using that by auto
  then have ws: "\<forall>p \<in> set working_set. p < mf_page_count file"
    using range [of 8 0] by (simp add: seen_pages)
  have "\<forall>p \<in> set (working_set @ lead_pages @ working_set). p < mf_page_count file"
    using ws range [of 24 8] by (auto simp del: page_range_simps(3))
  note run = policy.quiet_visits [OF _ _ zero_less_numeral]
  obtain pc1 where 1: "visit_pages (choose_victim D) hint (working_set @ lead_pages @ working_set) pc = (Inr (), pc1)"
    "quiet file (Some a) 32 pc1 (visit_all (choose_victim D) hint (Some a) 32 (working_set @ lead_pages @ working_set) v)"
    using run [OF quiet \<open>\<forall>p \<in> set (working_set @ lead_pages @ working_set). p < mf_page_count file\<close>] by blast
  from run [OF 1(2) range [of 104 24]] obtain pc2 where 2: "visit_pages (choose_victim D) hint1 tail_pages pc1 = (Inr (), pc2)"
    "quiet file (Some a) 32 pc2 (visit_all (choose_victim D) hint1 (Some a) 32 tail_pages
      (visit_all (choose_victim D) hint (Some a) 32 (working_set @ lead_pages @ working_set) v))" by blast
  from run [OF 2(2) ws] obtain pc3 where 3: "visit_pages (choose_victim D) hint2 working_set pc2 = (Inr (), pc3)"
    "quiet file (Some a) 32 pc3 (visit_all (choose_victim D) hint2 (Some a) 32 working_set
      (visit_all (choose_victim D) hint1 (Some a) 32 tail_pages
        (visit_all (choose_victim D) hint (Some a) 32 (working_set @ lead_pages @ working_set) v)))" by blast
  have "run_workload (choose_victim D) use hint pc = ((Inr (), hint2), pc3)"
    using 1(1) 2(1) 3(1) hints
    by (cases use) (simp_all add: run_workload_def Let_def WORKING_SET_PAGES_def SCAN_LEAD_PAGES_def total_scan_pages_def SCAN_TAIL_PAGES_def)
  then show ?thesis using 3(2) by blast
qed

lemma visit_all_other:
  "b \<noteq> a \<Longrightarrow> vs_observers (visit_all pick hint (Some a) cap ps v) b = vs_observers v b"
  by (induction ps arbitrary: v) (simp_all add: visit_def observe_at_def Let_def split: prod.split)

lemma stands_fresh: "obs a = observer_new 256 \<Longrightarrow> stands a policy [] 0 0 [] (visits_new obs policy)"
  by (auto simp: stands_def visits_new_def intro: exI [of _ "[]"])

lemma run_workload_counts:
  assumes ok: "mf_ok file sys" and pages: "104 < unat (mf_page_count file)" and obs: "obs a = observer_new 256"
    and policy: "policy = LruPage \<and> \<not> use \<or> policy = HintAware (Some a) \<and> use"
  shows "\<exists>pc. run_workload (choose_victim D) use PointLookup (cache_new file sys obs 32 (Some a) (Some policy)) =
      ((Inr (), PointLookup), pc) \<and> get_hits pc = 80 \<and> get_misses pc = 112 \<and>
    cache_ok pc \<and> pc_file pc = file \<and> (\<forall>b. b \<noteq> a \<longrightarrow> pc_observers pc b = obs b)"
proof -
  define hint1 where "hint1 = (if use then Scan else PointLookup)"
  have hint2: "PointLookup = (if use then PointLookup else hint1)" by (simp add: hint1_def)
  let ?v = "visits_new obs (Some policy)"
  let ?after = "visit_all (choose_victim D) PointLookup (Some a) 32 working_set
      (visit_all (choose_victim D) hint1 (Some a) 32 tail_pages
        (visit_all (choose_victim D) PointLookup (Some a) 32 (working_set @ lead_pages @ working_set) ?v))"
  from run_workload_quiet [OF quiet_new [OF ok] pages hint1_def hint2] obtain pc where
    pc: "run_workload (choose_victim D) use PointLookup (cache_new file sys obs 32 (Some a) (Some policy)) = ((Inr (), PointLookup), pc)"
      "quiet file (Some a) 32 pc ?after" by blast
  have "\<exists>lru seen. stands a (Some policy) lru 80 112 seen ?after"
  proof (rule whole_workload [OF stands_fresh [where obs = obs and a = a, OF obs]], goal_cases)
    case (1 v)
    with policy show ?case
      using lru_page_gives_up_oldest [of a _ 56 24 _ v 32 D hint1 tail_pages] hint_aware_scan [of a v D] by (auto simp: hint1_def)
  next
    case (2 v)
    with policy show ?case
      using lru_page_gives_up_oldest [of a _ 56 104 _ v 32 D PointLookup "page_range 0 8"] hint_aware_again [of a v D] by auto
  qed
  then have "get_hits pc = 80" "get_misses pc = 112"
    using pc(2) by (auto simp: stands_def quiet_def counters_def get_hits_def get_misses_def)
  moreover have "cache_ok pc" "pc_file pc = file" using pc(2) by (simp_all add: quiet_def)
  moreover have "pc_observers pc b = obs b" if "b \<noteq> a" for b
    using pc(2) that by (simp add: quiet_def counters_def visit_all_other visits_new_def)
  ultimately show ?thesis using pc(1) by (intro exI [of _ pc]) simp
qed

lemma new_file_ok:
  assumes "fd \<noteq> -1" and "os_files sys path = None"
  shows "\<exists>mf sys'. mf_new path fd True mmap_ok sys = (Inr mf, sys') \<and> mf_ok mf sys' \<and> mf_page_count mf = 0"
  using assms by (simp add: mf_new_def Let_def os_content_def os_write_def mf_ok_def)

section \<open>Properties\<close>

text \<open>
  C19: What the eviction benchmark prints. When its system calls succeed, both policies have exactly 80 hits and 112
  misses: the hint-aware policy gives up the working set during the scan just as the least recently used policy does,
  because pages 0 to 7 are neighbours of each other and count as part of a run as well.
\<close>

theorem eviction_benchmark_shows_no_difference:
  assumes "fd \<noteq> -1"
  shows "\<exists>sys'. eviction_benchmark D fd True mmap_ok True True sys = (Inr [(80, 112), (80, 112)], sys')"
proof -
  obtain file0 sys1 where new: "mf_new BENCH_PATH fd True mmap_ok (os_remove BENCH_PATH sys) = (Inr file0, sys1)"
    "mf_ok file0 sys1" "mf_page_count file0 = 0"
    using new_file_ok [OF assms, of "os_remove BENCH_PATH sys" BENCH_PATH mmap_ok] by (auto simp: os_remove_def)
  obtain mf sys2 where grow: "mf_grow_file 105 True True file0 sys1 = (Inr (), mf, sys2)" "mf_ok mf sys2"
    "unat (mf_page_count mf) = 105"
    using grow_file_ok [OF new(2), of 105] new(3) by (auto simp: mf_get_page_count_def)
  obtain pc where run1: "run_workload (choose_victim D) False PointLookup
      (cache_new mf sys2 (\<lambda>_. observer_new 256) 32 (Some 0) (Some LruPage)) = ((Inr (), PointLookup), pc)"
    "get_hits pc = 80" "get_misses pc = 112" "cache_ok pc" "pc_file pc = mf" "pc_observers pc 1 = observer_new 256"
    using run_workload_counts [OF grow(2), of "\<lambda>_. observer_new 256" 0 LruPage False D] grow(3) by auto
  have "mf_ok mf (pc_os pc)" using cache_okD(1) [OF run1(4)] run1(5) by simp
  from run_workload_counts [OF this, of "pc_observers pc" 1 "HintAware (Some 1)" True D] grow(3) run1(6)
  obtain pc' where "run_workload (choose_victim D) True PointLookup
      (cache_new mf (pc_os pc) (pc_observers pc) 32 (Some 1) (Some (HintAware (Some 1)))) = ((Inr (), PointLookup), pc')"
    "get_hits pc' = 80" "get_misses pc' = 112" by auto
  with new(1) grow(1) run1 show ?thesis
    by (simp add: eviction_benchmark_def CACHE_CAPACITY_def WORKING_SET_PAGES_def total_scan_pages_def SCAN_LEAD_PAGES_def
        SCAN_TAIL_PAGES_def initial_workload_hint_def)
qed

lemma eviction_benchmark_shows_no_difference_witness:
  "\<exists>sys'. eviction_benchmark int_ops 3 True True True True \<lparr>os_files = Map.empty, os_fds = Map.empty\<rparr> =
    (Inr [(80, 112), (80, 112)], sys')"
  by (rule eviction_benchmark_shows_no_difference) simp

end
