(* ===== verification/Naive_Storage.thy ===== *)
theory Naive_Storage
  imports Mapped_File
begin

text \<open>
  \<open>src/benchmarks/naive_storage.h\<close>: the page file that the benchmarks compare the engine with, which reads and
  writes each page by a system call. It is compared with the mapped file on the same file.
\<close>

section \<open>The class\<close>

record naive_storage =
  ns_fd :: int

text \<open>\<open>open(O_RDWR | O_CREAT)\<close> returns \<open>fd\<close>.\<close>

definition naive_open :: "string \<Rightarrow> int \<Rightarrow> os \<Rightarrow> naive_storage result \<times> os" where
  "naive_open path fd sys =
     (if fd = -1 then (Inl OpenFailed, sys)
      else (Inr \<lparr>ns_fd = fd\<rparr>, (os_write path (os_content sys path) sys)\<lparr>os_fds := (os_fds sys)(fd \<mapsto> path)\<rparr>))"

definition naive_close :: "naive_storage \<Rightarrow> os \<Rightarrow> os" where
  "naive_close ns sys = (if ns_fd ns \<noteq> -1 then os_close (ns_fd ns) sys else sys)"

text \<open>
  \<open>pread\<close> of one page and \<open>pwrite\<close> of \<open>n\<close> bytes at a 64-bit offset, which does not wrap. A read stops at the end
  of the file; a write behind the end fills the gap with zeros. \<open>None\<close> is the result \<open>-1\<close>.
\<close>

definition os_pread :: "bool \<Rightarrow> int \<Rightarrow> nat \<Rightarrow> nat \<Rightarrow> os \<Rightarrow> bytes option" where
  "os_pread io_ok fd n off sys =
     (case os_fds sys fd of None \<Rightarrow> None
      | Some path \<Rightarrow> if io_ok then Some (mread (os_content sys path) off n) else None)"

definition os_pwrite :: "int \<Rightarrow> bytes \<Rightarrow> nat \<Rightarrow> os \<Rightarrow> os" where
  "os_pwrite fd src off sys =
     (case os_fds sys fd of None \<Rightarrow> sys
      | Some path \<Rightarrow>
          if src = [] then sys
          else let f = os_content sys path
               in os_write path (mwrite (f @ replicate (off + length src - length f) 0) off src) sys)"

text \<open>A short read, or none, leaves a page of zeros.\<close>

definition naive_read_page :: "bool \<Rightarrow> u32 \<Rightarrow> naive_storage \<Rightarrow> os \<Rightarrow> bytes" where
  "naive_read_page io_ok page_id ns sys =
     (case os_pread io_ok (ns_fd ns) PAGE_SIZE (PAGE_SIZE * unat page_id) sys of
        None \<Rightarrow> replicate PAGE_SIZE 0
      | Some bs \<Rightarrow> if length bs \<noteq> PAGE_SIZE then replicate PAGE_SIZE 0 else bs)"

text \<open>The result of \<open>pwrite\<close> is not looked at: \<open>n\<close> says how many bytes were written.\<close>

definition naive_write_page :: "nat \<Rightarrow> u32 \<Rightarrow> bytes \<Rightarrow> naive_storage \<Rightarrow> os \<Rightarrow> os" where
  "naive_write_page n page_id in_page ns sys = os_pwrite (ns_fd ns) (take n in_page) (PAGE_SIZE * unat page_id) sys"

section \<open>Pages\<close>

lemma naive_read_in:
  assumes "os_fds sys (ns_fd ns) = Some path" and "4096 * Suc (unat pid) \<le> length (os_content sys path)"
  shows "naive_read_page True pid ns sys = page_at (os_content sys path) (unat pid)"
  using assms by (simp add: naive_read_page_def os_pread_def page_at_def length_mread)

lemma naive_read_outside:
  assumes "os_fds sys (ns_fd ns) = Some path" and "length (os_content sys path) < 4096 * Suc (unat pid)"
  shows "naive_read_page io_ok pid ns sys = replicate 4096 0"
  using assms by (auto simp: naive_read_page_def os_pread_def mread_def)

lemma naive_write_in:
  assumes "os_fds sys (ns_fd ns) = Some path" and "4096 * Suc (unat pid) \<le> length (os_content sys path)" and "length p = 4096"
  shows "naive_write_page 4096 pid p ns sys = os_write path (mwrite (os_content sys path) (4096 * unat pid) p) sys"
  using assms by (auto simp: naive_write_page_def os_pwrite_def Let_def)

section \<open>Properties\<close>

text \<open>
  Naive storage and the mapping show the same pages. While a file is mapped, what a naive storage on it reads of a
  mapped page is what the mapping holds, before and after a page is written by either of them.
\<close>

theorem naive_storage_agrees_with_mapping:
  assumes "mf_ok mf sys" and "os_fds sys (ns_fd ns) = Some (mf_path mf)" and "pid < mf_page_count mf" and "length p = 4096"
  shows "mf_load mf sys (mf_get_page mf pid) = Inr (naive_read_page True pid ns sys) \<and>
    (\<exists>sys'. mf_store mf sys (mf_get_page mf pid) p = Inr sys' \<and> naive_write_page 4096 pid p ns sys = sys' \<and>
       mf_ok mf sys' \<and> (\<forall>q < mf_page_count mf.
         naive_read_page True q ns sys' = (if q = pid then p else naive_read_page True q ns sys)))"
proof -
  let ?f = "os_content sys (mf_path mf)"
  let ?s = "os_write (mf_path mf) (mwrite ?f (4096 * unat pid) p) sys"
  have size: "4096 * Suc (unat q) \<le> length ?f" if "q < mf_page_count mf" for q
    using mf_get_page_ok(3) [OF assms(1) that] .
  have read: "naive_read_page True q ns sys = page_at ?f (unat q)" if "q < mf_page_count mf" for q
    using naive_read_in [OF assms(2) size [OF that]] .
  have same: "naive_read_page True q ns ?s = (if q = pid then p else naive_read_page True q ns sys)"
    if q: "q < mf_page_count mf" for q
  proof -
    have "os_fds ?s (ns_fd ns) = Some (mf_path mf)" "4096 * Suc (unat q) \<le> length (os_content ?s (mf_path mf))"
      using assms(2,4) size [OF q] size [OF assms(3)] by simp_all
    from naive_read_in [OF this] have "naive_read_page True q ns ?s = page_at (mwrite ?f (4096 * unat pid) p) (unat q)" by simp
    then show ?thesis
      using page_at_mwrite [OF size [OF assms(3)] assms(4), of "unat q"] read [OF q] by (simp add: word_unat_eq_iff)
  qed
  have "mf_ok mf ?s" using assms(1,4) size [OF assms(3)] by (intro mf_ok_write) (simp_all add: mf_ok_def)
  then show ?thesis
    using same read [OF assms(3)] mf_load_page [OF assms(1,3)] mf_store_page [OF assms(1,3,4)]
      naive_write_in [OF assms(2) size [OF assms(3)] assms(4)] by auto
qed

lemma naive_storage_agrees_with_mapping_witness:
  "mf_load two_pages two_pages_os (mf_get_page two_pages 1) = Inr (naive_read_page True 1 \<lparr>ns_fd = 3\<rparr> two_pages_os) \<and>
   (\<exists>sys'. naive_write_page 4096 1 (replicate 4096 9) \<lparr>ns_fd = 3\<rparr> two_pages_os = sys' \<and>
     naive_read_page True 1 \<lparr>ns_fd = 3\<rparr> sys' = replicate 4096 9 \<and>
     naive_read_page True 0 \<lparr>ns_fd = 3\<rparr> sys' = naive_read_page True 0 \<lparr>ns_fd = 3\<rparr> two_pages_os)"
  using naive_storage_agrees_with_mapping [OF two_pages_ok, of "\<lparr>ns_fd = 3\<rparr>" 1 "replicate 4096 9"]
  by (auto simp: two_pages_def two_pages_os_def)

text \<open>
  Where the 32-bit offsets of the mapping wrap, at page \<open>2\<^sup>2\<^sup>0\<close>, naive storage still reaches the page: reading back what
  was written at any page gives it, also when that extends the file.
\<close>

theorem naive_read_after_write:
  assumes "os_fds sys (ns_fd ns) = Some path" and "length p = 4096"
  shows "naive_read_page True pid ns (naive_write_page 4096 pid p ns sys) = p"
proof -
  let ?f = "os_content sys path"
  let ?g = "?f @ replicate (4096 * unat pid + 4096 - length ?f) 0"
  have "naive_write_page 4096 pid p ns sys = os_write path (mwrite ?g (4096 * unat pid) p) sys"
    using assms by (auto simp: naive_write_page_def os_pwrite_def Let_def)
  moreover have "4096 * Suc (unat pid) \<le> length ?g" by simp
  ultimately show ?thesis
    using naive_read_in [of "os_write path (mwrite ?g (4096 * unat pid) p) sys" ns path pid] assms
      page_at_mwrite [of "unat pid" ?g p "unat pid"] by simp
qed

end
