(* ===== verification/Baseline_Benchmark.thy ===== *)
theory Baseline_Benchmark
  imports Page_Tools Naive_Storage Page_Visits
begin

text \<open>
  \<open>src/benchmarks/baseline_benchmark.cpp\<close>: the benchmark that reads random pages with naive storage and with the
  engine. Measured times are arguments, and arithmetic on them a parameter.
\<close>

section \<open>The program\<close>

record benchmark_config =
  cfg_db_path :: string
  cfg_total_pages :: u32
  cfg_ops_count :: u32
  cfg_cache_size :: nat

definition default_config :: benchmark_config where
  "default_config =
     \<lparr>cfg_db_path = ''benchmark_data.db'', cfg_total_pages = 10000, cfg_ops_count = 50000, cfg_cache_size = 1000\<rparr>"

text \<open>A draw from \<open>std::bernoulli_distribution(0.8)\<close>.\<close>

record 'g skewed_source = "'g random_source" +
  is_hot :: "'g \<Rightarrow> bool \<times> 'g"

text \<open>The operations per second that are printed.\<close>

definition throughput :: "'d double_ops \<Rightarrow> u32 \<Rightarrow> 'd \<Rightarrow> 'd" where
  "throughput D ops_count ms = d_div D (d_of_int D (uint ops_count)) (d_div D ms (d_of_int D 1000))"

text \<open>The magic numbers are the values that the \<open>volatile\<close> variable takes; \<open>io i\<close> says whether read \<open>i\<close> succeeds.\<close>

definition bench_naive_random ::
  "'d double_ops \<Rightarrow> int \<Rightarrow> (nat \<Rightarrow> bool) \<Rightarrow> 'd \<Rightarrow> benchmark_config \<Rightarrow> u32 list \<Rightarrow> os \<Rightarrow> (u32 list \<times> 'd) result \<times> os" where
  "bench_naive_random D fd io ms config indices sys =
     (case naive_open (cfg_db_path config) fd sys of
        (Inl e, sys1) \<Rightarrow> (Inl e, sys1)
      | (Inr store, sys1) \<Rightarrow>
          (Inr (map (\<lambda>(i, idx). hdr_magic (get_header (naive_read_page (io i) idx store sys1))) (enumerate 0 indices),
                throughput D (cfg_ops_count config) ms), naive_close store sys1))"

record 'd cache_report =
  cr_magics :: "u32 list"
  cr_throughput :: 'd
  cr_hits :: nat
  cr_misses :: nat
  cr_ratio :: 'd

definition bench_optimized_random ::
  "'d double_ops \<Rightarrow> process \<Rightarrow> 'd \<Rightarrow> benchmark_config \<Rightarrow> u32 list \<Rightarrow> os \<Rightarrow> 'd cache_report result \<times> os" where
  "bench_optimized_random D pr ms config indices sys =
     (case engine_new (cfg_db_path config) (pr_fd pr) (pr_stat pr) (pr_mmap pr) sys (pr_obs pr) (cfg_cache_size config) None [] of
        (Inl e, sys1) \<Rightarrow> (Inl e, sys1)
      | (Inr db, sys1) \<Rightarrow>
          let (r, db') = fetch_loop indices db
          in (case r of Inl e \<Rightarrow> Inl e
              | Inr magics \<Rightarrow>
                  Inr \<lparr>cr_magics = magics, cr_throughput = throughput D (cfg_ops_count config) ms,
                       cr_hits = engine_get_cache_hits db', cr_misses = engine_get_cache_misses db',
                       cr_ratio = d_div D (d_mul D (d_of_int D 100) (d_of_int D (int (engine_get_cache_hits db'))))
                                    (d_of_int D (uint (cfg_ops_count config)))\<rparr>,
              mf_destroy (pc_file (en_cache db')) (pc_os (en_cache db'))))"

text \<open>The pages that \<open>main\<close> allocates first; each handle is destroyed at once, and nothing is flushed.\<close>

primrec allocate_loop :: "(u32 \<Rightarrow> bool \<times> bool) \<Rightarrow> nat list \<Rightarrow> engine \<Rightarrow> unit result \<times> engine" where
  "allocate_loop grow [] en = (Inr (), en)"
| "allocate_loop grow (i # is) en =
     (case allocate_page (fst (grow (word_of_nat i))) (snd (grow (word_of_nat i))) en of
        (Inl e, en') \<Rightarrow> (Inl e, en')
      | (Inr h, en') \<Rightarrow> allocate_loop grow is (engine_release h en'))"

definition baseline_setup :: "process \<Rightarrow> benchmark_config \<Rightarrow> os \<Rightarrow> unit result \<times> os" where
  "baseline_setup pr config sys =
     (case engine_new (cfg_db_path config) (pr_fd pr) (pr_stat pr) (pr_mmap pr) sys (pr_obs pr) 1000 None [] of
        (Inl e, sys1) \<Rightarrow> (Inl e, sys1)
      | (Inr setup, sys1) \<Rightarrow>
          let (r, setup') =
                (if get_total_pages setup < cfg_total_pages config then
                   allocate_loop (pr_grow pr) [unat (get_total_pages setup)..<unat (cfg_total_pages config)] setup
                 else (Inr (), setup))
          in (r, mf_destroy (pc_file (en_cache setup')) (pc_os (en_cache setup'))))"

primrec draw_indices :: "('g, 'z) skewed_source_scheme \<Rightarrow> u32 \<Rightarrow> nat \<Rightarrow> 'g \<Rightarrow> u32 list" where
  "draw_indices rnd page_count 0 gen = []"
| "draw_indices rnd page_count (Suc n) gen =
     (let (hot, gen1) = is_hot rnd gen;
          (idx, gen2) = uniform rnd 0 (if hot then 500 else page_count - 1) gen1
      in idx # draw_indices rnd page_count n gen2)"

definition baseline_indices :: "('g, 'z) skewed_source_scheme \<Rightarrow> benchmark_config \<Rightarrow> u32 list" where
  "baseline_indices rnd config = draw_indices rnd (cfg_total_pages config) (unat (cfg_ops_count config)) (mt19937 rnd 42)"

text \<open>\<open>main\<close>, with the times and the surroundings of its three users of the file.\<close>

definition baseline_main ::
  "'d double_ops \<Rightarrow> ('g, 'z) skewed_source_scheme \<Rightarrow> process \<Rightarrow> int \<Rightarrow> (nat \<Rightarrow> bool) \<Rightarrow> 'd \<Rightarrow> process \<Rightarrow> 'd \<Rightarrow>
   benchmark_config \<Rightarrow> os \<Rightarrow> ((u32 list \<times> 'd) \<times> 'd cache_report) result \<times> os" where
  "baseline_main D rnd pr fd io ms pr' ms' config sys =
     (let path = cfg_db_path config;
          sys0 = (if os_files sys path \<noteq> None then os_remove path sys else sys)
      in case baseline_setup pr config sys0 of
           (Inl e, sys1) \<Rightarrow> (Inl e, sys1)
         | (Inr _, sys1) \<Rightarrow>
             let indices = baseline_indices rnd config
             in case bench_naive_random D fd io ms config indices sys1 of
                  (Inl e, sys2) \<Rightarrow> (Inl e, sys2)
                | (Inr naive, sys2) \<Rightarrow>
                    (case bench_optimized_random D pr' ms' config indices sys2 of
                       (Inl e, sys3) \<Rightarrow> (Inl e, sys3)
                     | (Inr optimized, sys3) \<Rightarrow> (Inr (naive, optimized), os_remove path sys3)))"

section \<open>Their pages and counters\<close>

lemma allocate_loop_ok:
  assumes "engine_ok [] en" and "en_threads en = []" and "pc_pool (en_cache en) \<noteq> []"
    and "unat (get_total_pages en) = i" and "i + k < 2 ^ 20" and "length (disk_bytes (en_cache en)) = 4096 * i"
    and "mf_path (pc_file (en_cache en)) = path"
  shows "\<exists>en'. allocate_loop (\<lambda>_. (True, True)) [i..<i + k] en = (Inr (), en') \<and>
    length (disk_bytes (en_cache en')) = 4096 * (i + k) \<and> mf_path (pc_file (en_cache en')) = path"
  using assms
proof (induction k arbitrary: i en)
  case 0
  then show ?case by simp
next
  case (Suc k)
  have small: "unat (get_total_pages en) + 1 < 2 ^ 20" using Suc.prems(4,5) by simp
  obtain h en1 where a: "allocate_page True True en = (Inr h, en1)" "engine_ok [h] en1" "en_threads en1 = []"
    "get_total_pages en1 = get_total_pages en + 1" "length (pc_pool (en_cache en1)) = length (pc_pool (en_cache en))"
    "mf_path (pc_file (en_cache en1)) = mf_path (pc_file (en_cache en))"
    "length (disk_bytes (en_cache en1)) = 4096 * (unat (get_total_pages en) + 1)"
    by (rule calm_allocate [OF Suc.prems(1-3) small]) (rule that; assumption)
  note r = calm_release [OF a(2,3)]
  let ?en2 = "engine_release h en1"
  have same: "pc_file (en_cache ?en2) = pc_file (en_cache en1)" "length (pc_pool (en_cache ?en2)) = length (pc_pool (en_cache en1))"
    using r(2) by (simp_all add: same_store_def)
  have "pc_pool (en_cache ?en2) \<noteq> []" using same(2) a(5) Suc.prems(3) by auto
  moreover have "unat (get_total_pages ?en2) = Suc i"
    using same_store_total [OF r(2)] a(4) Suc.prems(4,5) by (simp add: unat_word_ariths)
  moreover have "length (disk_bytes (en_cache ?en2)) = 4096 * Suc i" "mf_path (pc_file (en_cache ?en2)) = path"
    using a(6,7) r(4) same(1) Suc.prems(4,7) by (simp_all add: disk_bytes_def)
  moreover have "Suc i + k < 2 ^ 20" using Suc.prems(5) by simp
  ultimately obtain en' where "allocate_loop (\<lambda>_. (True, True)) [Suc i..<Suc i + k] ?en2 = (Inr (), en')"
    "length (disk_bytes (en_cache en')) = 4096 * (Suc i + k)" "mf_path (pc_file (en_cache en')) = path"
    using Suc.IH [OF r(1,3), of "Suc i"] by blast
  moreover have "[i..<i + Suc k] = i # [Suc i..<Suc i + k]" by (simp add: upt_conv_Cons)
  ultimately show ?case using a(1) by (simp del: upt_Suc)
qed

lemma baseline_setup_ok:
  assumes "good_process pr" and "os_content sys (cfg_db_path config) = []" and "unat (cfg_total_pages config) < 2 ^ 20"
  obtains sys' where "baseline_setup pr config sys = (Inr (), sys')"
    and "length (os_content sys' (cfg_db_path config)) = 4096 * unat (cfg_total_pages config)"
proof -
  let ?path = "cfg_db_path config" and ?n = "unat (cfg_total_pages config)"
  have frames: "(0 :: nat) < 1000" and empty: "length ([] :: bytes) = 4096 * 0" "(0 :: nat) < 2 ^ 20" by simp_all
  obtain en sys1 where en: "engine_new ?path (pr_fd pr) (pr_stat pr) (pr_mmap pr) sys (pr_obs pr) 1000 None [] = (Inr en, sys1)"
    "engine_ok [] en" "en_threads en = []" "length (pc_pool (en_cache en)) = 1000"
    "unat (get_total_pages en) = 0" "mf_path (pc_file (en_cache en)) = ?path" "disk_bytes (en_cache en) = []"
    by (rule engine_opened [OF assms(1,2) empty frames]) (rule that; assumption)
  have pool: "pc_pool (en_cache en) \<noteq> []" using en(4) by auto
  have "\<exists>en'. (if get_total_pages en < cfg_total_pages config then allocate_loop (\<lambda>_. (True, True)) [0..<?n] en else (Inr (), en)) =
      (Inr (), en') \<and> length (disk_bytes (en_cache en')) = 4096 * ?n \<and> mf_path (pc_file (en_cache en')) = ?path"
    using allocate_loop_ok [OF en(2,3) pool en(5), of ?n ?path] en(5-7) assms(3)
    by (cases "?n = 0") (simp_all add: word_less_nat_alt)
  then obtain en' where g: "(if get_total_pages en < cfg_total_pages config then allocate_loop (\<lambda>_. (True, True)) [0..<?n] en else (Inr (), en)) =
      (Inr (), en')" "length (disk_bytes (en_cache en')) = 4096 * ?n" "mf_path (pc_file (en_cache en')) = ?path" by blast
  have "pr_grow pr = (\<lambda>_. (True, True))" using assms(1) by (simp add: good_process_def)
  then have "baseline_setup pr config sys = (Inr (), mf_destroy (pc_file (en_cache en')) (pc_os (en_cache en')))"
    using g(1) en(5) by (simp add: baseline_setup_def en(1) split: if_splits)
  from that [OF this] show thesis using g(2,3) by (simp add: disk_bytes_def)
qed

lemma draw_indices_bounded:
  assumes "\<And>low high g. low \<le> high \<Longrightarrow> fst (uniform rnd low high g) \<le> high" and "500 < page_count"
  shows "\<forall>i \<in> set (draw_indices rnd page_count n gen). i < page_count"
proof (induction n arbitrary: gen)
  case (Suc n)
  have "fst (uniform rnd 0 (if fst (is_hot rnd gen) then 500 else page_count - 1) (snd (is_hot rnd gen))) < page_count"
  proof -
    have "page_count \<noteq> 0" using assms(2) by auto
    then have "page_count - 1 < page_count" using measure_unat word_less_nat_alt by blast
    then have "(if fst (is_hot rnd gen) then 500 else page_count - 1) < page_count" using assms(2) by simp
    then show ?thesis using assms(1) [OF word_zero_le] by (rule le_less_trans [rotated])
  qed
  then show ?case using Suc.IH by (simp add: case_prod_unfold Let_def)
qed simp

lemma length_draw_indices [simp]: "length (draw_indices rnd page_count n gen) = n"
  by (induction n arbitrary: gen) (simp_all add: case_prod_unfold Let_def)

text \<open>A loop of fetches visits the pages of the pool in turn.\<close>

lemma fetch_loop_visits:
  assumes "engine_ok [] en" and "en_threads en = []" and "\<forall>pid \<in> set pids. pid < get_total_pages en"
    and "quiet mf observer cap (en_cache en) v" and "0 < cap"
  shows "quiet mf observer cap (en_cache (snd (fetch_loop pids en))) (visit_all no_policy (en_hint en) observer cap pids v)"
  using assms(1-4)
proof (induction pids arbitrary: en v)
  case Nil
  then show ?case by simp
next
  case (Cons pid pids)
  have q: "length (pc_pool (en_cache en)) = cap" "pc_file (en_cache en) = mf" using Cons.prems(4) by (simp_all add: quiet_def)
  then have pool: "pc_pool (en_cache en) \<noteq> []" using assms(5) by auto
  have pid: "pid < get_total_pages en" using Cons.prems(3) by simp
  then have in_file: "pid < mf_page_count mf" by (simp add: get_total_pages_def mf_get_page_count_def q(2))
  obtain h en1 where 1: "engine_fetch_page pid en = (Inr h, en1)" "engine_ok [h] en1" "ph_page_id h = pid"
    "same_store en en1" "en_threads en1 = []"
    by (rule calm_fetch [OF Cons.prems(1,2) pool pid]) (rule that; assumption)
  note r = calm_release [OF 1(2,5)]
  let ?en2 = "engine_release h en1"
  have same: "same_store en ?en2" by (rule same_store_trans [OF 1(4) r(2)])
  obtain pc where pc: "fetch_page no_policy (en_hint en) pid (en_cache en) = (Inr h, pc)" "en_cache en1 = pc"
    using 1(1) pid [folded not_le] by (auto simp: engine_fetch_page_def run_scheduled_calm [OF Cons.prems(2)] bounded_fetch_def
        get_total_pages_def Let_def split: prod.splits)
  have "en_cache ?en2 = handle_destroy h pc"
    using pc(2) by (simp add: engine_release_def run_scheduled_calm [OF 1(5)] Let_def)
  then have "quiet mf observer cap (en_cache ?en2) (Page_Visits.visit no_policy (en_hint en) observer cap pid v)"
    using page_eviction_policy.quiet_visit [OF no_policy.page_eviction_policy_axioms Cons.prems(4) in_file assms(5), of "en_hint en" "[]"] pc(1) by auto
  moreover have "en_hint ?en2 = en_hint en" "get_total_pages ?en2 = get_total_pages en"
    using same same_store_total [OF same] by (simp_all add: same_store_def)
  ultimately have "quiet mf observer cap (en_cache (snd (fetch_loop pids ?en2)))
      (visit_all no_policy (en_hint en) observer cap pids (Page_Visits.visit no_policy (en_hint en) observer cap pid v))"
    using Cons.IH [OF r(1,3)] Cons.prems(3) by simp
  moreover have "raw_data h en1 = Inr (engine_view en pid)"
    using raw_data_ok [OF 1(2)] 1(3,4) by (simp add: same_store_def)
  then have "snd (fetch_loop (pid # pids) en) = snd (fetch_loop pids ?en2)"
    using 1(1) by (simp split: prod.split sum.split)
  ultimately show ?case by simp
qed

lemma visits_counted:
  "vs_hits (visit_all pick hint observer cap pids v) + vs_misses (visit_all pick hint observer cap pids v) =
     vs_hits v + vs_misses v + length pids"
proof (induction pids arbitrary: v)
  case (Cons pid pids)
  have "vs_hits (Page_Visits.visit pick hint observer cap pid v) + vs_misses (Page_Visits.visit pick hint observer cap pid v) = vs_hits v + vs_misses v + 1"
    by (simp add: Page_Visits.visit_def Let_def split: prod.split)
  with Cons.IH show ?case by simp
qed simp

text \<open>Both runs on a file of \<open>n\<close> pages; \<open>page_magic\<close> is the magic number of a page of it.\<close>

abbreviation page_magic :: "bytes \<Rightarrow> u32 \<Rightarrow> u32" where
  "page_magic f idx \<equiv> hdr_magic (get_header (page_at f (unat idx)))"

lemma bench_naive_ok:
  assumes "fd \<noteq> -1" and "os_content sys (cfg_db_path config) = f" and "length f = 4096 * n" and "\<forall>idx \<in> set indices. unat idx < n"
  shows "\<exists>sys'. bench_naive_random D fd (\<lambda>_. True) ms config indices sys =
      (Inr (map (page_magic f) indices, throughput D (cfg_ops_count config) ms), sys') \<and>
    os_content sys' (cfg_db_path config) = f"
proof -
  let ?path = "cfg_db_path config"
  let ?sys1 = "(os_write ?path f sys)\<lparr>os_fds := (os_fds sys)(fd \<mapsto> ?path)\<rparr>"
  have content: "os_content ?sys1 ?path = f" by (simp add: os_content_def os_write_def)
  have open_fd: "os_fds ?sys1 (ns_fd \<lparr>ns_fd = fd\<rparr>) = Some ?path" by simp
  have "naive_read_page True idx \<lparr>ns_fd = fd\<rparr> ?sys1 = page_at f (unat idx)" if "idx \<in> set indices" for idx
  proof -
    have "unat idx < n" using assms(4) that by blast
    then have "4096 * Suc (unat idx) \<le> length (os_content ?sys1 ?path)" unfolding content assms(3) by simp
    from naive_read_in [OF open_fd this] show ?thesis unfolding content .
  qed
  then have "map (\<lambda>(i, idx). hdr_magic (get_header (naive_read_page True idx \<lparr>ns_fd = fd\<rparr> ?sys1))) (enumerate 0 indices) =
      map (page_magic f) indices"
    by (intro nth_equalityI) (simp_all add: nth_enumerate_eq)
  moreover have "naive_open ?path fd sys = (Inr \<lparr>ns_fd = fd\<rparr>, ?sys1)" using assms(1,2) by (simp add: naive_open_def)
  ultimately show ?thesis
    using content assms(1) by (simp add: bench_naive_random_def naive_close_def os_close_def os_content_def)
qed

lemma bench_optimized_ok:
  assumes "good_process pr" and "os_content sys (cfg_db_path config) = f" and "length f = 4096 * n" and "n < 2 ^ 20"
    and "0 < cfg_cache_size config" and "\<forall>idx \<in> set indices. unat idx < n"
  shows "\<exists>r sys'. bench_optimized_random D pr ms config indices sys = (Inr r, sys') \<and> cr_magics r = map (page_magic f) indices \<and>
    cr_throughput r = throughput D (cfg_ops_count config) ms \<and>
    cr_hits r = vs_hits (visit_all no_policy initial_workload_hint None (cfg_cache_size config) indices (visits_new (pr_obs pr) None)) \<and>
    cr_hits r + cr_misses r = length indices"
proof -
  let ?path = "cfg_db_path config" and ?cap = "cfg_cache_size config"
  obtain mf sys1 where m: "mf_new ?path (pr_fd pr) True True sys = (Inr mf, sys1)" "mf_ok mf sys1" "mf_path mf = ?path"
    "os_files sys1 = (os_files sys)(?path \<mapsto> f)" "unat (mf_page_count mf) = n"
    using mf_new_ok [OF _ assms(2-4), of "pr_fd pr"] assms(1) by (auto simp: good_process_def)
  let ?pc = "cache_new mf sys1 (pr_obs pr) ?cap None None"
  let ?en = "\<lparr>en_cache = ?pc, en_hint = initial_workload_hint, en_threads = [], en_schedule = []\<rparr>"
  have new: "engine_new ?path (pr_fd pr) (pr_stat pr) (pr_mmap pr) sys (pr_obs pr) ?cap None [] = (Inr ?en, sys1)"
    using assms(1) by (simp add: engine_new_def m(1) good_process_def)
  have ok: "engine_ok [] ?en" and pool: "pc_pool (en_cache ?en) \<noteq> []"
    using engine_ok_new [OF m(2)] assms(5) by (simp_all add: cache_new_def)
  have inside: "\<forall>idx \<in> set indices. idx < get_total_pages ?en"
    using assms(6) m(5) by (simp add: get_total_pages_def mf_get_page_count_def cache_new_def word_less_nat_alt)
  obtain en' where l: "fetch_loop indices ?en = (Inr (map (\<lambda>pid. hdr_magic (get_header (engine_view ?en pid))) indices), en')"
    using fetch_loop_ok [OF ok _ pool inside] by auto
  let ?v = "visit_all no_policy initial_workload_hint None ?cap indices (visits_new (pr_obs pr) None)"
  have "quiet mf None ?cap (en_cache ?en) (visits_new (pr_obs pr) None)" by (simp add: quiet_new [OF m(2)])
  from fetch_loop_visits [OF ok _ inside this assms(5)] l have "quiet mf None ?cap (en_cache en') ?v" by simp
  then have "engine_get_cache_hits en' = vs_hits ?v" "engine_get_cache_misses en' = vs_misses ?v"
    by (simp_all add: quiet_def counters_def engine_get_cache_hits_def engine_get_cache_misses_def get_hits_def get_misses_def)
  moreover have "vs_hits ?v + vs_misses ?v = length indices"
    using visits_counted [of no_policy initial_workload_hint None ?cap indices "visits_new (pr_obs pr) None"]
    by (simp add: visits_new_def)
  moreover have "engine_view ?en idx = page_at f (unat idx)" for idx
    by (simp add: engine_view_def cache_ok_new(2) [OF m(2)] m(3,4) os_content_def)
  ultimately show ?thesis using l by (simp add: bench_optimized_random_def new Let_def)
qed

section \<open>Properties\<close>

text \<open>
  C39: The two variants of the baseline benchmark read the same pages. When the system calls succeed and the random
  numbers stay in their range, the benchmark ends, naive storage and the engine read the same magic number for every
  page that is drawn, whatever the size of the pool, and the hits that are printed are those of a pool that gives up
  the least recently used page, with the misses counting the other reads. The file is gone afterwards.
\<close>

theorem baseline_variants_read_the_same:
  assumes "good_process pr" and "fd \<noteq> -1" and "good_process pr'"
    and "\<And>low high g. low \<le> high \<Longrightarrow> fst (uniform rnd low high g) \<le> high"
    and "500 < cfg_total_pages config" and "unat (cfg_total_pages config) < 2 ^ 20" and "0 < cfg_cache_size config"
  shows "\<exists>r sys'. baseline_main D rnd pr fd (\<lambda>_. True) ms pr' ms' config sys = (Inr r, sys') \<and>
    fst (fst r) = cr_magics (snd r) \<and> length (fst (fst r)) = unat (cfg_ops_count config) \<and>
    cr_hits (snd r) = vs_hits (visit_all no_policy initial_workload_hint None (cfg_cache_size config)
      (baseline_indices rnd config) (visits_new (pr_obs pr') None)) \<and>
    cr_hits (snd r) + cr_misses (snd r) = unat (cfg_ops_count config) \<and> os_files sys' (cfg_db_path config) = None"
proof -
  let ?path = "cfg_db_path config" and ?indices = "baseline_indices rnd config"
  let ?sys0 = "if os_files sys ?path \<noteq> None then os_remove ?path sys else sys"
  have "os_content ?sys0 ?path = []" by (auto simp: os_content_def)
  from baseline_setup_ok [OF assms(1) this assms(6)] obtain sys1 where
    s: "baseline_setup pr config ?sys0 = (Inr (), sys1)" "length (os_content sys1 ?path) = 4096 * unat (cfg_total_pages config)"
    by blast
  have "\<forall>idx \<in> set ?indices. idx < cfg_total_pages config"
    unfolding baseline_indices_def by (rule draw_indices_bounded [OF assms(4,5)])
  then have inside: "\<forall>idx \<in> set ?indices. unat idx < unat (cfg_total_pages config)" by (simp add: word_less_nat_alt)
  from bench_naive_ok [OF assms(2) refl s(2) inside, of D ms] obtain sys2 where n: "bench_naive_random D fd (\<lambda>_. True) ms config ?indices sys1 =
      (Inr (map (page_magic (os_content sys1 ?path)) ?indices, throughput D (cfg_ops_count config) ms), sys2)"
    "os_content sys2 ?path = os_content sys1 ?path"
    by (elim exE conjE)
  from bench_optimized_ok [OF assms(3) n(2) s(2) assms(6,7) inside, of D ms'] obtain r sys3 where o: "bench_optimized_random D pr' ms' config ?indices sys2 = (Inr r, sys3)"
    "cr_magics r = map (page_magic (os_content sys1 ?path)) ?indices"
    "cr_hits r = vs_hits (visit_all no_policy initial_workload_hint None (cfg_cache_size config) ?indices (visits_new (pr_obs pr') None))"
    "cr_hits r + cr_misses r = length ?indices"
    by (elim exE conjE)
  have "length ?indices = unat (cfg_ops_count config)" by (simp add: baseline_indices_def)
  moreover have "baseline_main D rnd pr fd (\<lambda>_. True) ms pr' ms' config sys =
      (Inr ((map (page_magic (os_content sys1 ?path)) ?indices, throughput D (cfg_ops_count config) ms), r), os_remove ?path sys3)"
    unfolding baseline_main_def Let_def s(1) prod.case sum.case n(1) o(1) ..
  ultimately show ?thesis using o(2-4) by auto
qed

text \<open>A source of random numbers that counts.\<close>

definition counting_skewed :: "u32 skewed_source" where
  "counting_skewed = \<lparr>mt19937 = (\<lambda>seed. seed), uniform = (\<lambda>low high n. (min high (low + n mod 1000), n + 1)),
     is_hot = (\<lambda>n. (n mod 5 \<noteq> 0, n))\<rparr>"

lemma baseline_variants_read_the_same_witness:
  "\<exists>r sys'. baseline_main real_ops counting_skewed new_process 4 (\<lambda>_. True) 250 new_process 100 default_config no_files = (Inr r, sys') \<and>
    fst (fst r) = cr_magics (snd r) \<and> length (fst (fst r)) = 50000 \<and> cr_hits (snd r) + cr_misses (snd r) = 50000 \<and>
    os_files sys' ''benchmark_data.db'' = None"
proof -
  have pr: "good_process new_process" by (simp add: good_process_def new_process_def)
  have "fst (uniform counting_skewed low high g) \<le> high" for low high g by (simp add: counting_skewed_def)
  from baseline_variants_read_the_same [OF pr _ pr this, of 4 default_config real_ops 250 100 no_files] show ?thesis
    by (auto simp: default_config_def)
qed

end
