(* ===== verification/Still_Scan.thy ===== *)
theory Still_Scan
  imports Storage_Reader
begin

text \<open>
  Scans (\<open>src/src/storage/storage_reader.cpp\<close>) of an engine whose prefetch threads never get to run: the scan, which
  holds at most two handles at a time, then needs only two frames, however many pages the file has.
\<close>

definition still :: "page_handle list \<Rightarrow> engine \<Rightarrow> bool" where
  "still hs en \<longleftrightarrow> engine_ok hs en \<and> en_schedule en = [] \<and> thread_handles (en_threads en) = []"

lemma still_scheduled: "still hs en \<Longrightarrow> run_scheduled en = en"
  by (simp add: still_def run_scheduled_def)

lemma still_fetch:
  assumes s: "still hs en" and pid: "pid < get_total_pages en" and room: "length hs < length (pc_pool (en_cache en))"
  shows "\<exists>h en'. engine_fetch_page pid en = (Inr h, en') \<and> still (h # hs) en' \<and> same_store en en' \<and>
    raw_data h en' = Inr (engine_view en pid)"
proof -
  have ok: "engine_ok hs en" and h: "handles_ok (en_cache en) hs" using s by (auto simp: still_def engine_ok_def)
  obtain r pc where b: "bounded_fetch (en_hint en) pid (en_cache en) = (r, pc)" by fastforce
  then have f: "engine_fetch_page pid en = (r, en\<lparr>en_cache := pc\<rparr>)"
    by (simp add: engine_fetch_page_def still_scheduled [OF s] Let_def)
  have "\<not> pool_full (en_cache en) pc pid" using pool_full_held [OF h] room by fastforce
  then have "r \<noteq> Inl BufferPoolFull" using bounded_fetch_cases [OF h b] by auto
  with engine_fetch_ok [OF ok pid f] obtain x where x: "r = Inr x" "ph_page_id x = pid" "engine_ok (x # hs) (en\<lparr>en_cache := pc\<rparr>)"
    "same_store en (en\<lparr>en_cache := pc\<rparr>)" by blast
  then have "raw_data x (en\<lparr>en_cache := pc\<rparr>) = Inr (engine_view en pid)"
    using raw_data_ok [OF x(3)] by (simp add: same_store_def)
  with f x s show ?thesis by (simp add: still_def)
qed

lemma still_with_page:
  assumes s: "still hs en" and pid: "pid < get_total_pages en" and room: "length hs < length (pc_pool (en_cache en))"
    and body: "\<And>h en1. still (h # hs) en1 \<Longrightarrow> same_store en en1 \<Longrightarrow> raw_data h en1 = Inr (engine_view en pid) \<Longrightarrow>
      still (h # hs) (snd (body h en1)) \<and> same_store en1 (snd (body h en1)) \<and> Q (fst (body h en1))"
  shows "still hs (snd (with_page engine_fetch_page engine_release pid err body en)) \<and>
    same_store en (snd (with_page engine_fetch_page engine_release pid err body en)) \<and>
    Q (fst (with_page engine_fetch_page engine_release pid err body en))"
proof -
  obtain h en1 where f: "engine_fetch_page pid en = (Inr h, en1)" "still (h # hs) en1" "same_store en en1"
    "raw_data h en1 = Inr (engine_view en pid)"
    using still_fetch [OF s pid room] by blast
  obtain r en2 where b: "body h en1 = (r, en2)" by fastforce
  have 2: "still (h # hs) en2" "same_store en1 en2" "Q r" using body [OF f(2-4)] b by simp_all
  have "engine_ok hs (engine_release h en2)" "same_store en2 (engine_release h en2)"
    using engine_release_ok [of h hs en2] 2(1) by (simp_all add: still_def)
  moreover have "en_schedule (engine_release h en2) = []" "en_threads (engine_release h en2) = en_threads en2"
    using 2(1) by (simp_all add: engine_release_def still_scheduled [OF 2(1)] Let_def) (simp add: still_def)
  ultimately show ?thesis
    using f(1,3) b 2 same_store_trans by (auto simp: with_page_def still_def)
qed

lemma load_error: "load m off n = Inl e \<Longrightarrow> e = Undefined"
  by (simp add: load_def split: if_splits)

lemma read_slot_error: "read_slot raw sid = Inl e \<Longrightarrow> e = Undefined"
  by (auto simp: read_slot_def bind_result_def Let_def split: sum.splits if_splits dest: load_error)

lemma still_read_record:
  assumes s: "still hs en" and room: "length hs < length (pc_pool (en_cache en))"
  shows "still hs (snd (read_record rid en)) \<and> same_store en (snd (read_record rid en)) \<and>
    fst (read_record rid en) \<noteq> Inl BufferPoolFull"
proof (cases "rid_page_id rid < get_total_pages en")
  case True
  let ?body = "\<lambda>h en1. (bind_result (raw_data h en1) (\<lambda>raw. read_slot raw (rid_slot_id rid)), en1)"
  have "still (h # hs) (snd (?body h en1)) \<and> same_store en1 (snd (?body h en1)) \<and> fst (?body h en1) \<noteq> Inl BufferPoolFull"
    if "still (h # hs) en1" "raw_data h en1 = Inr (engine_view en (rid_page_id rid))" for h en1
    using that read_slot_error by fastforce
  from still_with_page [OF s True room this, where err = Inl] show ?thesis
    using True [folded not_le] by (simp add: read_record_def)
qed (use s in \<open>simp add: read_record_def not_less\<close>)

lemma still_prefetch: "still hs en \<Longrightarrow> still hs (prefetch_ahead as pid n en) \<and> same_store en (prefetch_ahead as pid n en)"
proof (induction as arbitrary: en)
  case (Cons a as)
  let ?en = "prefetch_page (pid + a) en"
  have "still hs ?en" "same_store en ?en"
    using Cons.prems prefetch_page_ok [of hs en "pid + a"] by (auto simp: still_def prefetch_page_def thread_handles_def)
  with Cons show ?case by (auto intro: same_store_trans)
qed simp

lemma same_store_frames: "same_store en en' \<Longrightarrow> length (pc_pool (en_cache en')) = length (pc_pool (en_cache en))"
  by (simp add: same_store_def)

lemma still_scan_slots:
  assumes "still hs en" and "length hs < length (pc_pool (en_cache en))" and cb: "\<And>rid k v c. fst (cb rid k v c) \<noteq> Inl BufferPoolFull"
  shows "still hs (snd (scan_slots cb pid sids c en)) \<and> same_store en (snd (scan_slots cb pid sids c en)) \<and>
    fst (fst (scan_slots cb pid sids c en)) \<noteq> Inl BufferPoolFull"
  using assms(1,2)
proof (induction sids arbitrary: en c)
  case (Cons j sids)
  obtain r en1 where r: "read_record (RecordID pid (word_of_nat j)) en = (r, en1)" by fastforce
  have 1: "still hs en1" "same_store en en1" "r \<noteq> Inl BufferPoolFull"
    using still_read_record [OF Cons.prems, of "RecordID pid (word_of_nat j)"] r by simp_all
  have "length hs < length (pc_pool (en_cache en1))" using Cons.prems(2) same_store_frames [OF 1(2)] by simp
  note ih = Cons.IH [OF 1(1) this]
  show ?case
  proof (cases r)
    case (Inl e)
    with 1 r show ?thesis by auto
  next
    case (Inr x)
    show ?thesis
    proof (cases x)
      case None
      with ih [of c] 1(2) r Inr show ?thesis by (auto intro: same_store_trans)
    next
      case (Some kv)
      obtain cr c1 where cr: "cb (RecordID pid (word_of_nat j)) (fst kv) (snd kv) c = (cr, c1)" by fastforce
      then have "cr \<noteq> Inl BufferPoolFull" using cb [of "RecordID pid (word_of_nat j)" "fst kv" "snd kv" c] by simp
      with ih [of c1] 1 r Inr Some cr show ?thesis
        by (cases kv; cases cr) (auto intro: same_store_trans)
    qed
  qed
qed simp

lemma still_scan_page:
  assumes s: "still hs en" and room: "length hs < length (pc_pool (en_cache en))" and cb: "\<And>rid k v c. fst (cb rid k v c) \<noteq> Inl BufferPoolFull"
    and d: "raw_data h en = Inr raw"
  shows "still hs (snd (scan_page cb n pid c h en)) \<and> same_store en (snd (scan_page cb n pid c h en)) \<and>
    fst (fst (scan_page cb n pid c h en)) \<noteq> Inl BufferPoolFull"
proof (cases "load raw PAGE_HEADER_SIZE 2")
  case (Inl e)
  then show ?thesis using s load_error [OF Inl] by (simp add: scan_page_def d bind_result_def)
next
  case (Inr cnt)
  obtain r c1 en1 where sc: "scan_slots cb pid [0..<unat (get_u16 cnt)] c en = ((r, c1), en1)" by (metis prod.collapse)
  have 1: "still hs en1" "same_store en en1" "r \<noteq> Inl BufferPoolFull"
    using still_scan_slots [OF s room, of cb pid "[0..<unat (get_u16 cnt)]" c] cb sc by simp_all
  then show ?thesis
    using still_prefetch [OF 1(1)] Inr by (cases r) (auto simp: scan_page_def d sc intro: same_store_trans)
qed

lemma still_scan_pages:
  assumes "still [] en" and "2 \<le> length (pc_pool (en_cache en))" and cb: "\<And>rid k v c. fst (cb rid k v c) \<noteq> Inl BufferPoolFull"
    and "\<forall>p \<in> set ps. word_of_nat p < get_total_pages en"
  shows "fst (fst (scan_pages cb n ps c en)) \<noteq> Inl BufferPoolFull"
  using assms(1,2,4)
proof (induction ps arbitrary: en c)
  case (Cons p ps)
  let ?pid = "word_of_nat p :: u32"
  have pid: "?pid < get_total_pages en" and room: "length ([] :: page_handle list) < length (pc_pool (en_cache en))"
    using Cons.prems(2,3) by auto
  obtain r c1 en1 where w: "with_page engine_fetch_page engine_release ?pid (\<lambda>e. (Inl e, c)) (scan_page cb n ?pid c) en = ((r, c1), en1)"
    by (metis prod.collapse)
  have "still [h] (snd (scan_page cb n ?pid c h s1)) \<and> same_store s1 (snd (scan_page cb n ?pid c h s1)) \<and>
      fst (fst (scan_page cb n ?pid c h s1)) \<noteq> Inl BufferPoolFull"
    if "still [h] s1" "same_store en s1" "raw_data h s1 = Inr (engine_view en ?pid)" for h s1
    using still_scan_page [OF that(1) _ cb that(3)] Cons.prems(2) same_store_frames [OF that(2)] by simp
  then have "still [] (snd ((r, c1), en1)) \<and> same_store en (snd ((r, c1), en1)) \<and> fst (fst ((r, c1), en1)) \<noteq> Inl BufferPoolFull"
    unfolding w [symmetric] by (intro still_with_page [OF Cons.prems(1) pid room])
  then have 1: "still [] en1" "same_store en en1" "r \<noteq> Inl BufferPoolFull" by simp_all
  have "fst (fst (scan_pages cb n ps c1 en1)) \<noteq> Inl BufferPoolFull"
    using Cons.IH [OF 1(1)] Cons.prems(2,3) same_store_frames [OF 1(2)] same_store_total [OF 1(2)] by simp
  then show ?case using w 1(3) by (cases r) simp_all
qed simp

lemma still_scan:
  assumes s: "still [] en" and image: "store_image en rss" and frames: "2 \<le> length (pc_pool (en_cache en))"
    and cb: "\<And>rid k v c. fst (cb rid k v c) \<noteq> Inl BufferPoolFull"
  shows "fst (reader_scan cb c en) = visit cb (all_records rss) c"
proof -
  have "\<forall>p \<in> set [0..<unat (get_total_pages en)]. word_of_nat p < get_total_pages en"
    using unat_u32_lt [of "get_total_pages en"] by (auto simp: word_less_nat_alt)
  with still_scan_pages [OF s frames, of cb "[0..<unat (get_total_pages en)]"] cb
  have "fst (fst (reader_scan cb c en)) \<noteq> Inl BufferPoolFull" by (simp add: reader_scan_def)
  moreover have "engine_ok [] en" using s by (simp add: still_def)
  ultimately show ?thesis using reader_scan_ok [OF _ image, of "[]" cb c] by (auto simp: scan_outcome_def)
qed

end
