(* ===== verification/Read_Benchmark.thy ===== *)
theory Read_Benchmark
  imports Page_Tools Still_Scan Database_Sessions
begin

text \<open>
  \<open>src/benchmarks/read_performance.cpp\<close>: the benchmark that looks for a record of a database by a scan and through
  the index. Measured times are left out.
\<close>

section \<open>The program\<close>

definition make_bytes :: "string \<Rightarrow> bytes" where
  "make_bytes s = map of_char s"

definition NUM_RECORDS :: nat where "NUM_RECORDS = 50000"

definition TARGET_KEY :: string where "TARGET_KEY = ''key_45000''"

definition bench_record :: "nat \<Rightarrow> kv" where
  "bench_record i = (make_bytes (''key_'' @ decimal i), make_bytes (''value_data_'' @ decimal i))"

primrec put_all :: "kv list \<Rightarrow> database \<Rightarrow> unit result \<times> database" where
  "put_all [] db = (Inr (), db)"
| "put_all (x # xs) db =
     (case db_put (fst x) (snd x) db of (Inl e, db') \<Rightarrow> (Inl e, db') | (Inr _, db') \<Rightarrow> put_all xs db')"

text \<open>The block with the first database. An exception that nothing catches ends the program as a crash does.\<close>

definition fill_database :: "environment \<Rightarrow> string \<Rightarrow> kv list \<Rightarrow> os \<Rightarrow> unit result \<times> os" where
  "fill_database env path records sys =
     (case db_open env path 1000 1000 sys of
        (Inl e, sys1) \<Rightarrow> (Inl e, sys1)
      | (Inr db, _) \<Rightarrow>
          (case put_all records db of
             (Inl e, db') \<Rightarrow> (Inl e, db_crash db')
           | (Inr _, db') \<Rightarrow> (Inr (), db_close db')))"

definition look_for :: "bytes \<Rightarrow> record_id \<Rightarrow> bytes \<Rightarrow> bytes \<Rightarrow> bool \<Rightarrow> unit result \<times> bool" where
  "look_for target rid k v found_scan = (Inr (), if \<not> found_scan \<and> k = target then True else found_scan)"

text \<open>
  \<open>main\<close>: the exit code. The second database and an engine with 100 frames are open on the file at the same time;
  the database sees in the file what the engine leaves there. \<open>schedule\<close> is that of the engine's prefetch threads. The
  files are removed while they are open, so what the destructors write after that is lost.
\<close>

definition read_performance ::
  "environment \<Rightarrow> environment \<Rightarrow> process \<Rightarrow> nat list list \<Rightarrow> os \<Rightarrow> nat result \<times> os" where
  "read_performance env env' pr schedule sys =
     (let path = ''read_bench.db'';
          target = make_bytes TARGET_KEY;
          sys0 = os_remove (wal_path path) (os_remove path sys)
      in case fill_database env path (map bench_record [0..<NUM_RECORDS]) sys0 of
           (Inl e, sys1) \<Rightarrow> (Inl e, sys1)
         | (Inr _, sys1) \<Rightarrow>
             (case db_open env' path 1000 1000 sys1 of
                (Inl e, sys2) \<Rightarrow> (Inl e, sys2)
              | (Inr db, sys2) \<Rightarrow>
                  (case engine_new path (pr_fd pr) (pr_stat pr) (pr_mmap pr) sys2 (pr_obs pr) 100 None schedule of
                     (Inl e, _) \<Rightarrow> (Inl e, db_crash db)
                   | (Inr en, _) \<Rightarrow>
                       let ((r, found_scan), en1) = reader_scan (look_for target) False en;
                           db1 = db\<lparr>db_engine := set_file (engine_file en1) (db_engine db)\<rparr>
                       in case r of
                            Inl e \<Rightarrow> (Inl e, db_crash db1)
                          | Inr _ \<Rightarrow>
                              (case db_get target db1 of
                                 (Inl e, db2) \<Rightarrow> (Inl e, db_crash db2)
                               | (Inr result, db2) \<Rightarrow>
                                   if \<not> found_scan \<or> result = None then (Inr 1, db_close db2)
                                   else (Inr 0, os_remove (wal_path path) (os_remove path (db_close db2)))))))"

section \<open>Sizes\<close>

text \<open>Pages are only closed when they are full, so they hold many small records.\<close>

lemma place_all_full:
  assumes "\<forall>x \<in> set xs. rec_size x + 4 \<le> sz" and "\<forall>x \<in> set (snd lg). rec_size x + 4 \<le> sz"
    and "\<forall>p \<in> set (fst lg). 4030 < sz * (length p + 1)"
  shows "\<forall>p \<in> set (fst (place_all xs lg)). 4030 < sz * (length p + 1)"
  using assms
proof (induction xs arbitrary: lg)
  case (Cons x xs)
  have small: "used rs \<le> 66 + sz * length rs" if "\<forall>x \<in> set rs. rec_size x + 4 \<le> sz" for rs
    using that by (induction rs) (auto simp: used_def heap_size_def)
  have "4030 < sz * (length (snd lg) + 1)" if "\<not> has_room (snd lg) x"
    using that small [OF Cons.prems(2)] Cons.prems(1) by (auto simp: has_room_def)
  with Cons.prems show ?case by (simp only: place_all.simps, intro Cons.IH) (auto simp: place_def)
qed simp

lemma place_all_count: "length (concat (log_pages (place_all xs lg))) = length (concat (log_pages lg)) + length xs"
  by (induction xs arbitrary: lg) (simp_all add: place_def log_pages_def)

lemma place_all_pages:
  assumes "\<forall>x \<in> set xs. rec_size x + 4 \<le> sz" and "sz * n \<le> 4030"
  shows "n * length (fst (place_all xs ([], []))) \<le> length xs"
proof -
  let ?lg = "place_all xs ([], [])"
  have "n \<le> length p" if "p \<in> set (fst ?lg)" for p
  proof -
    have "4030 < sz * (length p + 1)" using place_all_full [OF assms(1), of "([], [])"] that by simp
    with assms(2) have "sz * n < sz * (length p + 1)" by (rule le_less_trans)
    then show ?thesis by (simp only: mult_less_cancel1) simp
  qed
  then have "n * length ps \<le> length (concat ps)" if "set ps \<subseteq> set (fst ?lg)" for ps
    using that by (induction ps) (auto simp: algebra_simps intro: add_mono)
  from this [OF subset_refl] have "n * length (fst ?lg) \<le> length (concat (log_pages ?lg))"
    by (simp add: log_pages_def)
  also have "length (concat (log_pages ?lg)) = length xs" by (simp only: place_all_count) (simp add: log_pages_def)
  finally show ?thesis .
qed

lemma length_decimal: "n < 10 ^ Suc k \<Longrightarrow> length (decimal n) \<le> Suc k"
proof (induction k arbitrary: n)
  case 0
  then show ?case by (subst decimal.simps) simp
next
  case (Suc k)
  then have "n div 10 < 10 ^ Suc k" by simp
  with Suc.IH show ?case by (subst decimal.simps) simp
qed

section \<open>The files of the second benchmark\<close>

lemma put_all_run:
  "fst (db_run (map (\<lambda>x. DbPut (fst x) (snd x)) xs) db) = map Inr ys \<Longrightarrow>
     put_all xs db = (Inr (), snd (db_run (map (\<lambda>x. DbPut (fst x) (snd x)) xs) db))"
  by (induction xs arbitrary: db ys) (auto simp: case_prod_unfold Let_def split: sum.splits)

lemma puts_only [simp]:
  "puts_of (map (\<lambda>x. DbPut (fst x) (snd x)) xs) = xs" "fresh_reads S (map (\<lambda>x. DbPut (fst x) (snd x)) xs)"
  by (induction xs arbitrary: S) simp_all

lemma fill_database_ok:
  assumes "env_good env" and "files_hold path sys [] [] []" and "\<forall>x \<in> set records. fits_page x" and "length records < 2 ^ 20 - 1"
  obtains sys' pages ws where "fill_database env path records sys = (Inr (), sys')" and "files_hold path sys' pages ws []"
    and "\<forall>r \<in> set ws. fits_page (kv_of r)" and "length ws = length records" and "concat pages = records"
    and "map kv_of ws = records" and "length pages \<le> Suc (length (fst (place_all records ([], []))))"
proof -
  let ?ops = "map (\<lambda>x. DbPut (fst x) (snd x)) records"
  have "\<exists>db db'. db_open env path 1000 1000 sys = (Inr db, db_files db) \<and>
    db_run ?ops db = (map Inr (fst (spec_ops ?ops (latest (concat [])))), db') \<and>
    (\<exists>pages' ws'. files_hold path (db_close db') pages' ws' [] \<and> (\<forall>r \<in> set ws'. fits_page (kv_of r)) \<and>
      length ws' = length ([] :: wal_record list) + length (puts_of ?ops) \<and>
      length pages' \<le> Suc (length (fst (place_all (map kv_of [] @ puts_of ?ops) ([], [])))) \<and>
      concat pages' = concat [] @ map kv_of [] @ puts_of ?ops \<and> map kv_of ws' = map kv_of [] @ puts_of ?ops)"
    by (rule closed_session_ok [OF assms(1,2)]) (use assms(3,4) in simp_all)
  then obtain db db' pages ws where o: "db_open env path 1000 1000 sys = (Inr db, db_files db)"
    "db_run ?ops db = (map Inr (fst (spec_ops ?ops (latest (concat [])))), db')" "files_hold path (db_close db') pages ws []"
    "\<forall>r \<in> set ws. fits_page (kv_of r)" "length ws = length records" "concat pages = records" "map kv_of ws = records"
    "length pages \<le> Suc (length (fst (place_all records ([], []))))" by auto
  have "put_all records db = (Inr (), db')" using put_all_run [of records db] o(2) by simp
  then show thesis using o(1,3-8) by (intro that) (simp_all add: fill_database_def)
qed

lemma pages_determine:
  assumes "length f = 4096 * n" and "length g = length f" and "\<And>i. i < n \<Longrightarrow> page_at f i = page_at g i"
  shows "f = g"
proof (rule nth_equalityI)
  fix j assume j: "j < length f"
  have at: "m ! j = page_at m (j div 4096) ! (j mod 4096)" if "j < length m" for m :: bytes
    using that by (simp add: page_at_def mread_def)
  have "j div 4096 < n" using j assms(1) by (simp add: less_mult_imp_div_less mult.commute)
  from assms(3) [OF this] show "f ! j = g ! j" using at [of f] at [of g] j assms(2) by simp
qed (simp add: assms(2))

lemma scanned_file:
  assumes "file_image f rss" and "engine_file en = f" and "unat (get_total_pages en) = length rss"
    and "\<forall>i < length rss. engine_view en (word_of_nat i) = page_at f i" and "same_store en en'"
  shows "engine_file en' = f"
proof (rule pages_determine [symmetric])
  have d: "same_disk (en_cache en) (en_cache en')" using assms(5) by (simp add: same_store_def)
  show "length f = 4096 * length rss" using assms(1) by (simp add: file_image_def)
  show "length (engine_file en') = length f" using d assms(2) by (simp add: same_disk_def engine_file_def)
  show "page_at f i = page_at (engine_file en') i" if "i < length rss" for i
  proof -
    have "page_at (engine_file en') i = page_at f i \<or> page_at (engine_file en') i = engine_view en (word_of_nat i)"
      using d assms(2) by (auto simp: same_disk_def engine_file_def engine_view_def)
    then show ?thesis using assms(4) that by auto
  qed
qed

lemma visit_look_for: "Storage_Reader.visit (look_for t) xs b = (Inr (), b \<or> (\<exists>x \<in> set xs. fst (snd x) = t))"
  by (induction xs arbitrary: b) (auto simp: look_for_def)

text \<open>A database whose file another engine has had open, without any change.\<close>

lemma db_ok_reopened:
  assumes ok: "db_ok rss lg db" and same: "f = engine_file (db_engine db)"
  shows "db_ok rss lg (db\<lparr>db_engine := set_file f (db_engine db)\<rparr>)"
proof -
  note d = db_okD [OF ok]
  have "f = engine_file (db_engine db) @ []" using same by simp
  note s = set_file_ok [OF d(1) this]
  have "unat (get_total_pages (db_engine db)) = length rss" using d(2) by (simp add: store_image_def)
  then have "engine_view (set_file f (db_engine db)) (word_of_nat i) = engine_view (db_engine db) (word_of_nat i)" if "i < length rss" for i
    using s(2) that unat_u32_lt [of "get_total_pages (db_engine db)"] by simp
  then show ?thesis using d s(1) same by (simp add: db_holds_def store_image_def)
qed

text \<open>What the second database and the engine find.\<close>

lemma second_database:
  assumes env: "env_good env" and hold: "files_hold path sys pages ws []" and fits: "\<forall>r \<in> set ws. fits_page (kv_of r)"
    and few: "length pages + length ws < 2 ^ 20 - 1" and cap: "length pages \<le> 1000"
    and rc: "0 < rc_size" and recs: "concat pages = map kv_of ws"
  obtains db where "db_open env path 1000 rc_size sys = (Inr db, db_files db)"
    and "db_ok pages (place_all (map kv_of ws) (pages, [])) db" and "found pages db = latest (map kv_of ws)"
    and "os_content (db_files db) path = engine_file (db_engine db)"
    and "file_image (engine_file (db_engine db)) (fst (place_all (map kv_of ws) (pages, [])))"
    and "wal_is_open (db_wal db)" and "wal_file (db_wal db) = Some (os_content sys (wal_path path))"
    and "\<And>ops. fresh_reads {} ops \<Longrightarrow> fresh pages ops db (latest (map kv_of ws))"
proof -
  obtain db where o: "db_open env path 1000 rc_size sys = (Inr db, db_files db)"
    "db_ok pages (place_all (map kv_of ws) (pages, [])) db" "engine_path (db_engine db) = path"
    "wal_file (db_wal db) = Some (os_content sys (wal_path path))" "cached db \<subseteq>\<^sub>m latest (map kv_of ws)"
    "found pages db = latest (concat pages) ++ cached db" "wal_is_open (db_wal db)"
    "pages \<noteq> [] \<longrightarrow> db_index db = index_of_records (all_records pages)"
    using db_open_ok [OF env hold fits few cap rc] by blast
  have "found pages db = latest (map kv_of ws)"
    using o(5) unfolding o(6) recs by (auto simp: map_add_def map_le_def dom_def fun_eq_iff split: option.split)
  moreover have "os_content (db_files db) path = engine_file (db_engine db)"
    using o(3,4) by (simp add: db_files_def engine_file_def disk_bytes_def engine_path_def)
  moreover from this have "file_image (engine_file (db_engine db)) (fst (place_all (map kv_of ws) (pages, [])))"
    using db_crash_files(1) [OF o(2,4,3)] by (simp add: db_crash_def)
  moreover have "fresh pages ops db (latest (map kv_of ws))" if "fresh_reads {} ops" for ops
    using that coherent_opened [OF db_okD(2) [OF o(2)] o(8)] indexed_opened [OF db_okD(2) [OF o(2)] o(8)] o(5) unfolding recs
    by (auto simp: fresh_def)
  ultimately show thesis using that o(1,2,4,7) by blast
qed

lemma bench_records:
  assumes "i < 50000"
  shows "rec_size (bench_record i) \<le> 30" "fits_page (bench_record i)"
proof -
  have "length (decimal i) \<le> Suc 4" by (rule length_decimal) (use assms in simp)
  then show "rec_size (bench_record i) \<le> 30" "fits_page (bench_record i)"
    by (simp_all add: bench_record_def make_bytes_def rec_size_def fits_small)
qed

lemma target_recorded: "make_bytes TARGET_KEY = fst (bench_record 45000)"
proof -
  have "char_of (52 :: nat) = CHR ''4''" "char_of (53 :: nat) = CHR ''5''" "char_of (48 :: nat) = CHR ''0''"
    using char_of_char [of "CHR ''4''"] char_of_char [of "CHR ''5''"] char_of_char [of "CHR ''0''"] by simp_all
  then have "decimal 45000 = ''45000''" by (simp add: decimal.simps digit_char_def)
  then show ?thesis by (simp add: TARGET_KEY_def bench_record_def)
qed

text \<open>The scan and the get of the benchmark, on a database that has just been opened again.\<close>

lemma benchmark_reads:
  assumes pr: "good_process pr" and ok: "db_ok pages lg db" and image: "file_image (engine_file (db_engine db)) (fst lg)"
    and content: "os_content sys path = engine_file (db_engine db)" and few: "length (fst lg) < 2 ^ 20"
    and inside: "target \<in> fst ` set (concat (fst lg))" and there: "found pages db target \<noteq> None"
  obtains en sys1 r b en1 db2 where
    "engine_new path (pr_fd pr) (pr_stat pr) (pr_mmap pr) sys (pr_obs pr) 100 None schedule = (Inr en, sys1)"
    "reader_scan (look_for target) False en = ((r, b), en1)"
    "r = Inr () \<and> b \<or> r = Inl BufferPoolFull \<and> schedule \<noteq> []"
    "db_get target (db\<lparr>db_engine := set_file (engine_file en1) (db_engine db)\<rparr>) = (Inr (found pages db target), db2)"
proof -
  have fd: "pr_fd pr \<noteq> -1" and calls: "pr_stat pr" "pr_mmap pr" using pr by (simp_all add: good_process_def)
  obtain en sys1 where en: "engine_new path (pr_fd pr) True True sys (pr_obs pr) 100 None schedule = (Inr en, sys1)"
    "engine_ok [] en" "store_image en (fst lg)" "pc_os (en_cache en) = sys1"
    "os_files sys1 = (os_files sys)(path \<mapsto> engine_file (db_engine db))" "mf_path (pc_file (en_cache en)) = path"
    "\<forall>i < length (fst lg). engine_view en (word_of_nat i) = page_at (engine_file (db_engine db)) i"
    "en_schedule en = schedule" "en_threads en = []" "length (pc_pool (en_cache en)) = 100"
    using engine_new_pages [OF fd content image few] by blast
  obtain r b en1 where s: "reader_scan (look_for target) False en = ((r, b), en1)" by (metis prod.collapse)
  have "\<exists>x \<in> set (all_records (fst lg)). fst (snd x) = target"
    using inside unfolding all_records_values [symmetric] by force
  then have v: "Storage_Reader.visit (look_for target) (all_records (fst lg)) False = (Inr (), True)"
    by (simp add: visit_look_for)
  have scan: "same_store en en1" "(r, b) = (Inr (), True) \<or> r = Inl BufferPoolFull"
    using reader_scan_ok [OF en(2,3), of "look_for target" False] s v by (auto simp: scan_outcome_def)
  have "r \<noteq> Inl BufferPoolFull" if "schedule = []"
  proof -
    have "still [] en" using that en(2,8,9) by (simp add: still_def thread_handles_def)
    from still_scan [OF this en(3), of "look_for target" False] show ?thesis
      using en(10) s v by (simp add: look_for_def)
  qed
  with scan(2) have outcome: "r = Inr () \<and> b \<or> r = Inl BufferPoolFull \<and> schedule \<noteq> []" by auto
  have "engine_file en1 = engine_file (db_engine db)"
  proof (rule scanned_file [OF image _ _ en(7) scan(1)])
    show "engine_file en = engine_file (db_engine db)"
      by (simp add: engine_file_def [of en] disk_bytes_def en(4-6) os_content_def)
    show "unat (get_total_pages en) = length (fst lg)" using en(3) by (simp add: store_image_def)
  qed
  from db_ok_reopened [OF ok this]
  have "fst (db_get target (db\<lparr>db_engine := set_file (engine_file en1) (db_engine db)\<rparr>)) = Inr (found pages db target)"
    by (simp add: get_opened cong: found_cong)
  then obtain db2 where "db_get target (db\<lparr>db_engine := set_file (engine_file en1) (db_engine db)\<rparr>) = (Inr (found pages db target), db2)"
    by (metis prod.collapse)
  with outcome show thesis using that [of en sys1 r b en1 db2] en(1) s calls by simp
qed

section \<open>Properties\<close>

text \<open>
  C38: The read benchmark finds its record both ways. With system calls that succeed, whatever files it finds, it exits
  with 0 and removes its files: the scan and the index both lead to the key among the 50000 records put in the
  first session, although the record cache holds only 1000 of them. The one exception is a scan that the prefetch
  threads of its engine, which has fewer frames than the file has pages, stop with a full pool; that needs some thread
  to run.
\<close>

theorem read_benchmark_finds_its_key:
  assumes "env_good env" and "env_good env'" and "good_process pr"
  shows "\<exists>r sys'. read_performance env env' pr schedule sys = (r, sys') \<and>
    (r = Inr 0 \<and> os_files sys' ''read_bench.db'' = None \<and> os_files sys' ''read_bench.db.wal'' = None \<or>
     r = Inl BufferPoolFull \<and> schedule \<noteq> [])"
proof -
  let ?path = "''read_bench.db''" and ?target = "make_bytes TARGET_KEY" and ?recs = "map bench_record [0..<NUM_RECORDS]"
  let ?sys0 = "os_remove (wal_path ?path) (os_remove ?path sys)"
  have hold0: "files_hold ?path ?sys0 [] [] []" by (simp add: files_hold_def file_image_Nil wal_entry_def)
  have small: "\<forall>x \<in> set ?recs. rec_size x + 4 \<le> 34" and fits: "\<forall>x \<in> set ?recs. fits_page x" and count: "length ?recs = 50000"
    by (auto simp: bench_records NUM_RECORDS_def)
  obtain sys1 pages ws where f: "fill_database env ?path ?recs ?sys0 = (Inr (), sys1)" "files_hold ?path sys1 pages ws []"
    "\<forall>r \<in> set ws. fits_page (kv_of r)" "length ws = length ?recs" "concat pages = ?recs" "map kv_of ws = ?recs"
    "length pages \<le> Suc (length (fst (place_all ?recs ([], []))))"
    using fill_database_ok [OF assms(1) hold0 fits] count by auto
  have "118 * length (fst (place_all ?recs ([], []))) \<le> length ?recs"
    using place_all_pages [OF small, of 118] by simp
  then have len: "length pages \<le> 424" using f(7) count by simp
  have few: "length pages + length ws < 2 ^ 20 - 1" "length pages \<le> 1000" using len f(4) count by simp_all
  let ?lg = "place_all (map kv_of ws) (pages, [])"
  obtain db where d: "db_open env' ?path 1000 1000 sys1 = (Inr db, db_files db)" "db_ok pages ?lg db"
    "found pages db = latest (map kv_of ws)" "os_content (db_files db) ?path = engine_file (db_engine db)"
    "file_image (engine_file (db_engine db)) (fst ?lg)"
    using second_database [OF assms(2) f(2,3) few, of 1000] f(5,6) by auto
  have few2: "length (fst ?lg) < 2 ^ 20"
    using place_all_length [of "map kv_of ws" "(pages, [])"] len f(4) count by simp
  have target: "?target \<in> fst ` set ?recs" by (auto simp: target_recorded NUM_RECORDS_def)
  then have there: "found pages db ?target \<noteq> None"
    using dom_latest [of ?recs] unfolding d(3) f(6) by blast
  obtain ys where "fst ?lg = pages @ ys" using place_all_extends [of "map kv_of ws" "(pages, [])"] by auto
  then have inside: "?target \<in> fst ` set (concat (fst ?lg))" using target f(5) by auto
  obtain en sys2 r b en1 db2 where e:
    "engine_new ?path (pr_fd pr) (pr_stat pr) (pr_mmap pr) (db_files db) (pr_obs pr) 100 None schedule = (Inr en, sys2)"
    "reader_scan (look_for ?target) False en = ((r, b), en1)" "r = Inr () \<and> b \<or> r = Inl BufferPoolFull \<and> schedule \<noteq> []"
    "db_get ?target (db\<lparr>db_engine := set_file (engine_file en1) (db_engine db)\<rparr>) = (Inr (found pages db ?target), db2)"
    by (rule benchmark_reads [OF assms(3) d(2,5,4) few2 inside there])
  have "read_performance env env' pr schedule sys =
      (case r of Inl e \<Rightarrow> (Inl e, db_crash (db\<lparr>db_engine := set_file (engine_file en1) (db_engine db)\<rparr>))
       | Inr _ \<Rightarrow> if \<not> b then (Inr 1, db_close db2)
           else (Inr 0, os_remove (wal_path ?path) (os_remove ?path (db_close db2))))"
    unfolding read_performance_def Let_def f(1) d(1) e(1,2,4) prod.case sum.case using there by (cases b) auto
  then show ?thesis using e(3) by (elim disjE conjE) (simp_all add: wal_path_def)
qed

lemma read_benchmark_finds_its_key_witness:
  "\<exists>sys'. read_performance (good_env [[]]) (good_env [[0]]) new_process [] no_files = (Inr 0, sys') \<and>
    os_files sys' ''read_bench.db'' = None"
proof -
  have "good_process new_process" by (simp add: good_process_def new_process_def)
  from read_benchmark_finds_its_key [OF good_env_good good_env_good this, of "[[]]" "[[0]]" "[]" no_files]
  show ?thesis by auto
qed

end
