(* ===== verification/Storage_Benchmark.thy ===== *)
theory Storage_Benchmark
  imports Read_Benchmark
begin

text \<open>
  \<open>src/benchmarks/storage_benchmark.cpp\<close>: a database is filled, opened again, asked twice for the same random keys, and
  scanned. Measured times are left out; what is reported are the keys that were missing and the number of records
  scanned.
\<close>

section \<open>The program\<close>

definition STORAGE_NUM_RECORDS :: nat where "STORAGE_NUM_RECORDS = 1000000"

definition READ_SAMPLES :: nat where "READ_SAMPLES = 10000"

definition make_key :: "nat \<Rightarrow> bytes" where
  "make_key i = make_bytes (''user_id_'' @ decimal i)"

text \<open>\<open>std::string::resize\<close> cuts a string or extends it.\<close>

definition string_resize :: "nat \<Rightarrow> char \<Rightarrow> string \<Rightarrow> string" where
  "string_resize n c s = take n s @ replicate (n - length s) c"

definition make_val :: "nat \<Rightarrow> bytes" where
  "make_val i = make_bytes (string_resize 64 (CHR ''x'') (''data_payload_'' @ decimal i))"

text \<open>Draws from \<open>std::uniform_int_distribution<int>(0, num_records - 1)\<close>.\<close>

record 'g int_source = "'g random_source" +
  uniform_int :: "int \<Rightarrow> int \<Rightarrow> 'g \<Rightarrow> int \<times> 'g"

primrec draw_target_ids :: "('g, 'z) int_source_scheme \<Rightarrow> nat \<Rightarrow> nat \<Rightarrow> 'g \<Rightarrow> nat list" where
  "draw_target_ids rnd num_records 0 gen = []"
| "draw_target_ids rnd num_records (Suc n) gen =
     (let (i, gen') = uniform_int rnd 0 (int num_records - 1) gen in nat i # draw_target_ids rnd num_records n gen')"

text \<open>A timed loop over the keys, with the number of times that it prints an error.\<close>

primrec read_keys :: "nat list \<Rightarrow> database \<Rightarrow> nat result \<times> database" where
  "read_keys [] db = (Inr 0, db)"
| "read_keys (i # is) db =
     (case db_get (make_key i) db of
        (Inl e, db1) \<Rightarrow> (Inl e, db1)
      | (Inr res, db1) \<Rightarrow>
          (case read_keys is db1 of
             (Inl e, db2) \<Rightarrow> (Inl e, db2)
           | (Inr missing, db2) \<Rightarrow> (Inr (if res = None then missing + 1 else missing), db2)))"

definition count_record :: "record_id \<Rightarrow> bytes \<Rightarrow> bytes \<Rightarrow> nat \<Rightarrow> unit result \<times> nat" where
  "count_record rid k v n = (Inr (), n + 1)"

record storage_report =
  missing_cold :: nat
  missing_warm :: nat
  scanned :: nat

text \<open>The blocks that read from the second database; the scan is that of a reader on the database's own engine.\<close>

definition storage_reads :: "nat list \<Rightarrow> database \<Rightarrow> storage_report result \<times> database" where
  "storage_reads ids db =
     (case read_keys ids db of
        (Inl e, db1) \<Rightarrow> (Inl e, db1)
      | (Inr cold, db1) \<Rightarrow>
          (case read_keys ids db1 of
             (Inl e, db2) \<Rightarrow> (Inl e, db2)
           | (Inr warm, db2) \<Rightarrow>
               let ((r, n), en) = reader_scan count_record 0 (db_engine db2); db3 = db2\<lparr>db_engine := en\<rparr>
               in case r of Inl e \<Rightarrow> (Inl e, db3)
                  | Inr _ \<Rightarrow> (Inr \<lparr>missing_cold = cold, missing_warm = warm, scanned = n\<rparr>, db3)))"

text \<open>
  \<open>main\<close>, with the numbers of records and of samples. An exception that nothing catches ends the program as a crash
  does; the files are removed while the database has them open.
\<close>

definition storage_benchmark ::
  "('g, 'z) int_source_scheme \<Rightarrow> nat \<Rightarrow> nat \<Rightarrow> environment \<Rightarrow> environment \<Rightarrow> os \<Rightarrow> storage_report result \<times> os" where
  "storage_benchmark rnd num_records read_samples env env' sys =
     (let path = ''storage_bench.db'';
          sys0 = (if os_files sys path \<noteq> None then os_remove path sys else sys);
          sys1 = (if os_files sys0 (wal_path path) \<noteq> None then os_remove (wal_path path) sys0 else sys0)
      in case fill_database env path (map (\<lambda>i. (make_key i, make_val i)) [0..<num_records]) sys1 of
           (Inl e, sys2) \<Rightarrow> (Inl e, sys2)
         | (Inr _, sys2) \<Rightarrow>
             (case db_open env' path 1000 20000 sys2 of
                (Inl e, sys3) \<Rightarrow> (Inl e, sys3)
              | (Inr db, _) \<Rightarrow>
                  (case storage_reads (draw_target_ids rnd num_records read_samples (mt19937 rnd 42)) db of
                     (Inl e, db') \<Rightarrow> (Inl e, db_crash db')
                   | (Inr report, db') \<Rightarrow> (Inr report, os_remove (wal_path path) (os_remove path (db_close db'))))))"

definition storage_main ::
  "('g, 'z) int_source_scheme \<Rightarrow> environment \<Rightarrow> environment \<Rightarrow> os \<Rightarrow> storage_report result \<times> os" where
  "storage_main rnd = storage_benchmark rnd STORAGE_NUM_RECORDS READ_SAMPLES"

section \<open>What it reads\<close>

abbreviation gets :: "nat list \<Rightarrow> db_op list" where
  "gets ids \<equiv> map (\<lambda>i. DbGet (make_key i)) ids"

lemma gets_only [simp]: "puts_of (gets ids) = []" "fresh_reads {} (gets ids)"
  "fst (spec_ops (gets ids) m) = map (\<lambda>i. m (make_key i)) ids"
  by (induction ids) (simp_all add: case_prod_unfold Let_def)

lemma db_run_append:
  "db_run (xs @ ys) db = (let (rs, db1) = db_run xs db; (ss, db2) = db_run ys db1 in (rs @ ss, db2))"
  by (induction xs arbitrary: db) (simp_all add: case_prod_unfold Let_def)

lemma db_run_length [simp]: "length (fst (db_run xs db)) = length xs"
  by (induction xs arbitrary: db) (simp_all add: case_prod_unfold Let_def)

lemma read_keys_run:
  assumes "fst (db_run (gets ids) db) = map (\<lambda>i. Inr (m (make_key i))) ids" and "\<forall>i \<in> set ids. m (make_key i) \<noteq> None"
  shows "read_keys ids db = (Inr 0, snd (db_run (gets ids) db))"
  using assms
proof (induction ids arbitrary: db)
  case (Cons i ids)
  obtain r db1 where g: "db_get (make_key i) db = (r, db1)" by fastforce
  then have "r = Inr (m (make_key i))" "read_keys ids db1 = (Inr 0, snd (db_run (gets ids) db1))"
    using Cons by (simp_all add: case_prod_unfold Let_def)
  with g Cons.prems(2) show ?case by (simp add: case_prod_unfold Let_def)
qed simp

lemma visit_count: "Storage_Reader.visit count_record xs n = (Inr (), n + length xs)"
  by (induction xs arbitrary: n) (simp_all add: count_record_def)

lemma storage_reads_ok:
  assumes ok: "db_ok pages lg db" and wal: "wal_is_open (db_wal db)" "wal_file (db_wal db) = Some f"
    and fresh: "\<And>ops. fresh_reads {} ops \<Longrightarrow> fresh pages ops db m" and few: "length (fst lg) + 1 < 4294967296"
    and there: "\<forall>i \<in> set ids. m (make_key i) \<noteq> None"
  shows "\<exists>db'. storage_reads ids db = (Inr \<lparr>missing_cold = 0, missing_warm = 0, scanned = length (concat pages)\<rparr>, db')"
proof -
  have "\<exists>db' ws'. answers (=) (fst (db_run (gets (ids @ ids)) db)) (fst (spec_ops (gets (ids @ ids)) m)) \<and>
      snd (db_run (gets (ids @ ids)) db) = db' \<and> db_ok pages (place_all (puts_of (gets (ids @ ids))) lg) db' \<and>
      map kv_of ws' = puts_of (gets (ids @ ids)) \<and> wal_is_open (db_wal db') \<and>
      wal_file (db_wal db') = Some (f @ concat (map wal_encode_record ([] @ ws'))) \<and> engine_path (db_engine db') = engine_path (db_engine db)"
    using fresh_put fresh_get ok wal few fresh [OF gets_only(2)]
    by (intro db_run_ok [where I = "fresh pages"]) (auto simp del: map_append)
  then obtain db2 where r: "fst (db_run (gets (ids @ ids)) db) = map Inr (map (\<lambda>i. m (make_key i)) (ids @ ids))"
    "snd (db_run (gets (ids @ ids)) db) = db2" "db_ok pages lg db2"
    unfolding answers_eq gets_only by auto
  let ?db1 = "snd (db_run (gets ids) db)"
  have halves: "fst (db_run (gets ids) db) = map (\<lambda>i. Inr (m (make_key i))) ids"
    "fst (db_run (gets ids) ?db1) = map (\<lambda>i. Inr (m (make_key i))) ids" "snd (db_run (gets ids) ?db1) = db2"
    using r(1,2) by (auto simp: db_run_append case_prod_unfold Let_def comp_def append_eq_append_conv)
  have reads: "read_keys ids db = (Inr 0, ?db1)" "read_keys ids ?db1 = (Inr 0, db2)"
    using read_keys_run [OF halves(1) there] read_keys_run [OF halves(2) there] halves(3) by simp_all
  note d = db_okD [OF r(3)]
  obtain x n en where s: "reader_scan count_record 0 (db_engine db2) = ((x, n), en)" by (metis prod.collapse)
  have "length (all_records pages) = length (concat pages)" using all_records_values [of pages] by (metis length_map)
  then have "(x, n) = (Inr (), length (concat pages))"
    using scan_image [OF d(1-3), of count_record 0] s visit_count [of "all_records pages" 0] by simp
  then show ?thesis using reads s by (simp add: storage_reads_def Let_def)
qed

lemma length_make_val [simp]: "length (make_val i) = 64"
  by (simp add: make_val_def make_bytes_def string_resize_def)

lemma storage_records:
  assumes "i < 45000"
  shows "rec_size (make_key i, make_val i) \<le> 82" "fits_page (make_key i, make_val i)"
proof -
  have "length (decimal i) \<le> Suc 4" by (rule length_decimal) (use assms in simp)
  then show "rec_size (make_key i, make_val i) \<le> 82" "fits_page (make_key i, make_val i)"
    by (simp_all add: make_key_def make_bytes_def rec_size_def fits_small)
qed

lemma draw_target_ids_bounded:
  assumes "\<And>low high g. low \<le> high \<Longrightarrow> low \<le> fst (uniform_int rnd low high g) \<and> fst (uniform_int rnd low high g) \<le> high"
    and "0 < num_records"
  shows "\<forall>i \<in> set (draw_target_ids rnd num_records n gen). i < num_records"
proof (induction n arbitrary: gen)
  case (Suc n)
  have "nat (fst (uniform_int rnd 0 (int num_records - 1) gen)) < num_records"
    using assms(1) [of 0 "int num_records - 1" gen] assms(2) by (simp add: nat_less_iff)
  then show ?case using Suc.IH by (simp add: case_prod_unfold Let_def)
qed simp

section \<open>Properties\<close>

text \<open>
  No key is missing in the storage benchmark, and its scan counts every record: with up to 45000 records, whose pages
  fit the pool of the second database, both rounds of gets find all of the keys that are drawn, with a record cache of
  20000, and the scan sees as many records as were put.
\<close>

theorem storage_benchmark_finds_all:
  assumes "env_good env" and "env_good env'" and "0 < num_records" and "num_records \<le> 45000"
    and "\<And>low high g. low \<le> high \<Longrightarrow> low \<le> fst (uniform_int rnd low high g) \<and> fst (uniform_int rnd low high g) \<le> high"
  shows "\<exists>sys'. storage_benchmark rnd num_records read_samples env env' sys =
      (Inr \<lparr>missing_cold = 0, missing_warm = 0, scanned = num_records\<rparr>, sys') \<and>
    os_files sys' ''storage_bench.db'' = None \<and> os_files sys' ''storage_bench.db.wal'' = None"
proof -
  let ?path = "''storage_bench.db''" and ?recs = "map (\<lambda>i. (make_key i, make_val i)) [0..<num_records]"
  let ?sys0 = "if os_files sys ?path \<noteq> None then os_remove ?path sys else sys"
  let ?sys1 = "if os_files ?sys0 (wal_path ?path) \<noteq> None then os_remove (wal_path ?path) ?sys0 else ?sys0"
  let ?ids = "draw_target_ids rnd num_records read_samples (mt19937 rnd 42)"
  have "os_content ?sys1 ?path = []" "os_content ?sys1 (wal_path ?path) = []" by (auto simp: os_content_def)
  then have hold0: "files_hold ?path ?sys1 [] [] []" by (simp add: files_hold_def file_image_Nil wal_entry_def)
  have small: "\<forall>x \<in> set ?recs. rec_size x + 4 \<le> 86" and fits: "\<forall>x \<in> set ?recs. fits_page x"
    using assms(4) by (auto simp: storage_records)
  have count: "length ?recs = num_records" by simp
  obtain sys2 pages ws where f: "fill_database env ?path ?recs ?sys1 = (Inr (), sys2)" "files_hold ?path sys2 pages ws []"
    "\<forall>r \<in> set ws. fits_page (kv_of r)" "length ws = length ?recs" "concat pages = ?recs" "map kv_of ws = ?recs"
    "length pages \<le> Suc (length (fst (place_all ?recs ([], []))))"
    using fill_database_ok [OF assms(1) hold0 fits] assms(4) count by auto
  have "46 * length (fst (place_all ?recs ([], []))) \<le> length ?recs"
    using place_all_pages [OF small, of 46] by simp
  then have len: "length pages \<le> 1000" using f(7) count assms(4) by simp
  have few: "length pages + length ws < 2 ^ 20 - 1" using len f(4) count assms(4) by simp
  let ?lg = "place_all (map kv_of ws) (pages, [])"
  obtain db where d: "db_open env' ?path 1000 20000 sys2 = (Inr db, db_files db)" "db_ok pages ?lg db"
    "wal_is_open (db_wal db)" "wal_file (db_wal db) = Some (os_content sys2 (wal_path ?path))"
    "\<And>ops. fresh_reads {} ops \<Longrightarrow> fresh pages ops db (latest (map kv_of ws))"
    using second_database [OF assms(2) f(2,3) few len, of 20000] f(5,6) by auto
  have few2: "length (fst ?lg) + 1 < 4294967296"
    using place_all_length [of "map kv_of ws" "(pages, [])"] len f(4) count assms(4) by simp
  have there: "\<forall>i \<in> set ?ids. latest (map kv_of ws) (make_key i) \<noteq> None"
  proof
    fix i assume "i \<in> set ?ids"
    then have "i < num_records" using draw_target_ids_bounded [OF assms(5,3)] by blast
    then have "make_key i \<in> fst ` set ?recs" by force
    then show "latest (map kv_of ws) (make_key i) \<noteq> None" using dom_latest [of ?recs] unfolding f(6) by blast
  qed
  obtain db' where "storage_reads ?ids db = (Inr \<lparr>missing_cold = 0, missing_warm = 0, scanned = length (concat pages)\<rparr>, db')"
    using storage_reads_ok [OF d(2-5) few2 there] by blast
  then have "storage_benchmark rnd num_records read_samples env env' sys =
      (Inr \<lparr>missing_cold = 0, missing_warm = 0, scanned = num_records\<rparr>,
       os_remove (wal_path ?path) (os_remove ?path (db_close db')))"
    unfolding storage_benchmark_def Let_def f(1) d(1) prod.case sum.case f(5) count by simp
  then show ?thesis by (simp add: wal_path_def)
qed

definition counting_int :: "u32 int_source" where
  "counting_int = \<lparr>mt19937 = (\<lambda>seed. seed), uniform = (\<lambda>low high n. (low, n + 1)),
     uniform_int = (\<lambda>low high n. (min high (low + uint n), n + 1))\<rparr>"

lemma storage_benchmark_finds_all_witness:
  "\<exists>sys'. storage_benchmark counting_int 3000 10000 (good_env []) (good_env [[0]]) no_files =
      (Inr \<lparr>missing_cold = 0, missing_warm = 0, scanned = 3000\<rparr>, sys')"
proof -
  have "low \<le> fst (uniform_int counting_int low high g) \<and> fst (uniform_int counting_int low high g) \<le> high"
    if "low \<le> high" for low high g
    using that by (simp add: counting_int_def)
  from storage_benchmark_finds_all [OF good_env_good good_env_good _ _ this, of 3000 10000 "[]" "[[0]]" no_files] show ?thesis
    by auto
qed

end
