(* ===== verification/Spec2Isabelle.thy ===== *)
theory Spec2Isabelle
  imports Database_Threads Page_Tools BPlus_Pages Trainer Eviction_Benchmark Naive_Storage Baseline_Benchmark
    Storage_Benchmark
begin

text \<open>
  A verification development of AQA, a persistent key-value store in C++ (\<open>src/src\<close>).

  \<^bold>\<open>The program.\<close> A \<open>Database\<close> (\<open>db/\<close>) puts a record in three places: it appends it to a write-ahead log
  (\<open>wal/\<close>), to the data file through a storage writer (\<open>storage/storage_writer\<close>), and enters it into a hash
  index (\<open>index/\<close>) and a record cache (\<open>cache/lru_cache\<close>). A get asks the record cache, then the index, then
  reads the record by its id through a storage reader (\<open>storage/storage_reader\<close>). The reader fetches pages from a
  storage engine (\<open>storage/storage_engine\<close>): a memory mapped file (\<open>storage/mapped_file\<close>) behind a buffer pool
  (\<open>storage/page_cache\<close>, \<open>page_handle.h\<close>) that counts pins, evicts by an eviction policy
  (\<open>cache/eviction_policy\<close>), reports accesses to an observer (\<open>observer/\<close>) and is read ahead by prefetch
  threads. The constructor of the database replays the log into the writer, then rebuilds the index by a scan.
  The program \<open>main.cpp\<close> does not use the database: it generates and reads pages through the storage engine.
  The pages of a B+ tree (\<open>storage/page/\<close>) are not connected to anything yet. Beside the program (\<open>src/benchmarks\<close>)
  there are an offline trainer of the learned policy, a benchmark of the policies, a page file without a cache, and
  benchmarks that time the storage.

  \<^bold>\<open>Conventions.\<close> An operation is a function from the state before to the result and the state after; a
  result is an \<open>error + 'a\<close>, where \<open>Undefined\<close> is undefined behaviour of C++ (an access out of bounds, an
  invalid iterator, signed overflow), and the other errors are the exceptions that the code throws. Machine
  integers are words of their width and wrap where the code's do; sizes and counters of type \<open>size_t\<close> that only
  grow by one per operation are natural numbers. Memory is a list of bytes that is read and written with bounds
  checks; \<open>std::list\<close> is a list of nodes with iterators that stay valid; a hash table is a map. The order in
  which a hash table is iterated (\<open>flush_all\<close>) is an argument.

  \<^bold>\<open>The theories.\<close>
  \<^item> \<open>Prelude\<close>: words, errors, byte memory, little-endian coding. \<open>Raw_Page\<close>: \<open>storage/page.h\<close>, pages and
    their headers. \<open>Slotted_Page\<close>: the format of a page of records, with \<open>file_image\<close>, which says that a file
    consists of record pages. \<open>Linked_List\<close>: \<open>std::list\<close>.
  \<^item> \<open>Mapped_File\<close>: files and descriptors are a record, and the outcome of every system call is an argument.
    Its lemmas make the pages an array; they hold below \<open>2\<^sup>2\<^sup>0\<close> pages, where the 32-bit offsets wrap.
  \<^item> \<open>Access_Observer\<close>: the ring of recent accesses with its counts, refined by the list of all accesses.
  \<^item> \<open>Workload_Hint\<close>, \<open>Eviction_Policy\<close>: the hint of a thread, and all page policies. Floating point
    operations, and the extraction of numbers from a line of text, are a record of functions (\<open>double_ops\<close>).
  \<^item> \<open>Page_Cache\<close>: the buffer pool with its invariant \<open>cache_ok\<close>. \<open>Page_Cache_Clients\<close>: any interleaving
    of fetches, reads, writes, moves and destructions of handles and flushes is one of an array of pages; every
    live handle is pinned. The locale \<open>page_eviction_policy\<close> is what the pool needs of a policy.
  \<^item> \<open>Storage_Engine\<close>: file, pool and prefetch threads. A thread is two atomic steps, the fetch and the
    release, and a schedule says which threads step before each cache operation of the main thread; theorems
    hold for every schedule. The locale \<open>page_source\<close> is the contract that readers rely on.
  \<^item> \<open>Storage_Reader\<close>, \<open>Storage_Writer\<close>, \<open>Storage_Roundtrip\<close>: reading records at any content of a page,
    appending them, and both together. \<open>Hash_Index\<close>: the index and its rebuilding.
  \<^item> \<open>Lru_Cache\<close>: the record cache, refined by an association list, with the locale \<open>record_cache\<close>; which
    keys are left after any number of puts, and when a key has left it.
  \<^item> \<open>Wal_Manager\<close>: the log byte by byte. The locale \<open>framed_log\<close> proves what a replay makes of any
    sequence of frames; torn and corrupt tails, oversized records.
  \<^item> \<open>Database\<close>: the class with its constructor (replay and recovery), put, get, scan, count and destructor;
    \<open>db_ok\<close> relates it to the pages it was opened on. \<open>Database_Sessions\<close>: histories of sessions on the same
    files, each ended by the destructor or a crash between operations: when the keys fit the record cache, the
    database is one durable map; otherwise an opening recovers the keys logged last, and what else is lost is shown
    there for every size of the record cache. A run of operations is handled by one lemma,
    \<open>db_run_ok\<close>, for any invariant of the operations to come; sessions that all end with the destructor and read
    only what earlier ones put need no record cache.
  \<^item> \<open>Database_Threads\<close>: clients that call one database at the same time, step by step under its locks: what they
    return is explained by one map in the order of their returns, and every call ends.
  \<^item> \<open>Text_Input\<close>: decimal numbers as the standard library reads and prints them. \<open>Page_Tools\<close>:
    \<open>utils/data_generator\<close>, \<open>benchmark/query_runner\<close> and \<open>main.cpp\<close>, with exit codes and reports. The random
    numbers of the standard library are a parameter.
  \<^item> \<open>Page_Visits\<close>: a buffer pool of which each page is fetched and released in turn is a list of pages in order of
    use; pools of different sizes. On it rest \<open>Trainer\<close> (\<open>benchmarks/learned_eviction_trainer.cpp\<close>, whose simulated
    cache is this pool) and \<open>Eviction_Benchmark\<close> (\<open>benchmarks/eviction_benchmark.cpp\<close>, with what it prints).
  \<^item> \<open>Naive_Storage\<close>: \<open>benchmarks/naive_storage.h\<close> against the mapped file. \<open>Baseline_Benchmark\<close>:
    \<open>benchmarks/baseline_benchmark.cpp\<close>, which reads the same pages with both.
  \<^item> \<open>Still_Scan\<close>: scans of an engine whose prefetch threads do not run, which need two frames. \<open>Read_Benchmark\<close>
    (\<open>benchmarks/read_performance.cpp\<close>) and \<open>Storage_Benchmark\<close> (\<open>benchmarks/storage_benchmark.cpp\<close>): programs on top of
    the database that fill it, open it again and read it. The second one is proved for up to 45000 records; with the
    million of its constant the file has more pages than the pool, and the recovery may meet a full pool.
  \<^item> \<open>BPlus_Pages\<close>: leaf and internal pages over any strict total order (locale \<open>key_comparator\<close>),
    interpreted on \<open>int\<close> keys; binary search, ordered insertion and routing.

  \<^bold>\<open>Concurrency.\<close> A mutex or a lock makes a method of its class one atomic step, and an interleaving of
  threads is a sequence of such steps. In \<open>Database\<close> and \<open>Database_Sessions\<close> a call is one step. In
  \<open>Database_Threads\<close> a call of a client is cut at the mutexes of the record cache, the buffer pool and the log: a
  get has up to five steps under the shared lock, a put up to four under the exclusive one, and a scan, which takes no
  lock, two for each page, two for each slot and one more; any number of clients and the prefetch threads take
  their steps in any order. A call that the lock does not admit waits, and is tried again by a later move. The read of
  the bytes of a pinned page is one step.

  \<^bold>\<open>Bounds and termination.\<close> No definition has fuel. Loops over a range recurse over the list of its indices;
  the replay of the log and the binary search terminate by the length of what is left. Theorems about files
  assume fewer than \<open>2\<^sup>2\<^sup>0\<close> pages (4 GiB), and those about the pages that a recovery can see assume a pool with a
  frame for each page, or allow for the exception of a full pool.

  \<^bold>\<open>Not modelled.\<close> Times and the text of messages; failures of memory allocation and of stream writes; prefetch
  threads that outlive their engine (which would use freed memory); the order of two unlocked accesses to the same
  memory; fairness of the locks. The tests under \<open>src/tests\<close> are left out. In the benchmarks that time the storage the
  measured times are arguments or left out.
\<close>

end
